(* ===== verification/Go_Prelude.thy ===== *)
theory Go_Prelude
  imports Main "HOL-Library.Word"
begin

text \<open>
  The prelude of the development: the Go fragment every component is written in.
  Results of Go calls are values of \<open>'a res\<close>: a returned value, a returned non-nil
  error, or a run-time panic. Slices are lists; indexing, slicing and \<open>make\<close> carry the
  run-time checks of the language. The cursor idiom \<open>b[offset:offset+n]; offset += n\<close>
  of the parsers becomes a reader on the unread rest of the slice. The locale
  \<open>stream_codec\<close> is the contract between a serialiser and the reader of the same format.
\<close>

unbundle bit_operations_syntax

named_theorems go_simps \<open>evaluation rules of the Go fragment\<close>

type_synonym byte = "8 word"
type_synonym bytes = "byte list"
type_synonym u16 = "16 word"
type_synonym u32 = "32 word"
type_synonym u64 = "64 word"

section \<open>Errors and panics\<close>

text \<open>The sentinel errors of \<open>spv/errors.go\<close>, in the order of the file.\<close>

datatype spv_error =
    ErrNoTxInputs | ErrPaymentNotVerified | ErrTipTxConfirmed | ErrNoConfirmedTransaction
  | ErrTxIDMismatch | ErrNotAllInputsSupplied | ErrNoTxInputsToVerify | ErrNilInitialPayment
  | ErrInputRefsOutOfBoundsOutput | ErrNoFeeQuoteSupplied | ErrFeePaidNotEnough
  | ErrCannotCalculateFeePaid | ErrInvalidProof | ErrMissingOutput | ErrProofOrInputMissing
  | ErrTriedToParseZeroBytes | ErrUnsupporredVersion | ErrInvalidMerkleFlags
  | ErrMissingTxidInProof | ErrMissingRootInProof | ErrInvalidNodes

text \<open>
  All error values: the ones of \<open>encoding/hex\<close>, \<open>encoding/json\<close> and \<open>io\<close>, an \<open>errors.New\<close> or
  \<open>fmt.Errorf\<close> with its text, one whose text ends in a formatted index (kept as the
  number), a sentinel of \<open>spv\<close>, and a wrapped error.
\<close>

datatype go_error =
    HexInvalidByte char
  | HexLength
  | JsonSyntaxError
  | JsonTypeError
  | EOF
  | UnexpectedEOF
  | Msg string
  | MsgIndex string nat
  | SpvErr spv_error
  | WrapErr go_error string

datatype go_panic = IndexOutOfRange | SliceOutOfRange | NilDereference | MakeSliceLen | DivideByZero

datatype 'a res = Ok 'a | Err go_error | Panic go_panic

primrec bind_res :: "'a res \<Rightarrow> ('a \<Rightarrow> 'b res) \<Rightarrow> 'b res" where
  "bind_res (Ok x) f = f x"
| "bind_res (Err e) f = Err e"
| "bind_res (Panic p) f = Panic p"

primrec is_Ok :: "'a res \<Rightarrow> bool" where
  "is_Ok (Ok x) = True"
| "is_Ok (Err e) = False"
| "is_Ok (Panic p) = False"

lemma bind_res_cong [fundef_cong]:
  assumes "m = m'" and "\<And>x. m' = Ok x \<Longrightarrow> f x = g x"
  shows "bind_res m f = bind_res m' g"
  using assms by (cases m') auto

lemma bind_res_eq_Ok [go_simps]:
  "bind_res m f = Ok y \<longleftrightarrow> (\<exists>x. m = Ok x \<and> f x = Ok y)"
  by (cases m) auto

lemma bind_res_assoc: "bind_res (bind_res m f) g = bind_res m (\<lambda>x. bind_res (f x) g)"
  by (cases m) auto

lemma bind_res_Ok_right [simp]: "bind_res m Ok = m"
  by (cases m) auto

text \<open>\<open>x, err := m(); if err != nil { return h(err) }\<close>, where the caller returns a value
  beside the error.\<close>

primrec on_err :: "'a res \<Rightarrow> (go_error \<Rightarrow> 'b res) \<Rightarrow> ('a \<Rightarrow> 'b res) \<Rightarrow> 'b res" where
  "on_err (Ok x) h f = f x"
| "on_err (Err e) h f = h e"
| "on_err (Panic p) h f = Panic p"

lemma on_err_cong [fundef_cong]:
  assumes "m = m'" and "\<And>e. m' = Err e \<Longrightarrow> h e = h' e" and "\<And>x. m' = Ok x \<Longrightarrow> f x = g x"
  shows "on_err m h f = on_err m' h' g"
  using assms by (cases m') auto

text \<open>\<open>return x, nil\<close> after such a guard, and the case split of the guard.\<close>

lemma on_err_eq_None:
  "on_err m (\<lambda>e. Ok (t, Some e)) f = Ok (y, None) \<longleftrightarrow> (\<exists>x. m = Ok x \<and> f x = Ok (y, None))"
  by (cases m) auto

lemma on_err_split:
  "P (on_err m h f) \<longleftrightarrow> (\<forall>x. m = Ok x \<longrightarrow> P (f x)) \<and> (\<forall>e. m = Err e \<longrightarrow> P (h e)) \<and>
     (\<forall>p. m = Panic p \<longrightarrow> P (Panic p))"
  by (cases m) auto

lemma on_err_split_asm:
  "P (on_err m h f) \<longleftrightarrow> \<not> ((\<exists>x. m = Ok x \<and> \<not> P (f x)) \<or> (\<exists>e. m = Err e \<and> \<not> P (h e)) \<or>
     (\<exists>p. m = Panic p \<and> \<not> P (Panic p)))"
  by (cases m) auto

lemmas on_err_splits = on_err_split on_err_split_asm

lemma is_Ok_iff: "is_Ok m \<longleftrightarrow> (\<exists>x. m = Ok x)"
  by (cases m) auto

text \<open>A loop over a list that returns at the first error.\<close>

fun map_res :: "('a \<Rightarrow> 'b res) \<Rightarrow> 'a list \<Rightarrow> 'b list res" where
  "map_res f [] = Ok []"
| "map_res f (x # xs) = bind_res (f x) (\<lambda>y. bind_res (map_res f xs) (\<lambda>ys. Ok (y # ys)))"

lemma map_res_cong [fundef_cong]:
  assumes "xs = ys" and "\<And>x. x \<in> set ys \<Longrightarrow> f x = g x"
  shows "map_res f xs = map_res g ys"
  unfolding assms(1) using assms(2) by (induction ys) auto

lemma map_res_Ok: "(\<And>x. x \<in> set xs \<Longrightarrow> f x = Ok (g x)) \<Longrightarrow> map_res f xs = Ok (map g xs)"
  by (induction xs) auto

section \<open>Slices\<close>

text \<open>
  A list stands for a full slice (capacity equal to length, as \<open>make([]byte, n)\<close> allocates it), so
  the upper bound of a slice expression is the length. Where the code parses a slice that may have
  spare capacity, which the runtime takes as the bound, the slice is one of \<open>Go_Slices\<close>: the data
  of a chunk, which the code cuts out of a larger slice, what \<open>hex.DecodeString\<close> returns, and the
  arguments of the readers of proofs, paths, BUMPs and blocks. Ancestries, envelopes and transactions
  that a caller hands over are taken to be full.
\<close>

definition go_index :: "'a list \<Rightarrow> nat \<Rightarrow> 'a res" where
  "go_index xs i = (if i < length xs then Ok (xs ! i) else Panic IndexOutOfRange)"

definition go_slice :: "'a list \<Rightarrow> nat \<Rightarrow> nat \<Rightarrow> 'a list res" where
  "go_slice xs lo hi =
     (if lo \<le> hi \<and> hi \<le> length xs then Ok (take (hi - lo) (drop lo xs))
      else Panic SliceOutOfRange)"

text \<open>An index of type \<open>int\<close> may be negative.\<close>

definition go_index_int :: "'a list \<Rightarrow> int \<Rightarrow> 'a res" where
  "go_index_int xs i =
     (if 0 \<le> i \<and> i < int (length xs) then Ok (xs ! nat i) else Panic IndexOutOfRange)"

text \<open>
  The iterations of \<open>for i := 0; i < int(n); i++\<close> for a \<open>uint64\<close>: none when the conversion
  to \<open>int\<close> is negative.
\<close>

definition int_count :: "u64 \<Rightarrow> nat" where
  "int_count n = nat (sint n)"

lemma go_index_int_ok [simp]: "i < length xs \<Longrightarrow> go_index_int xs (int i) = Ok (xs ! i)"
  by (simp add: go_index_int_def)

lemma go_index_int_OkD: "go_index_int xs i = Ok x \<Longrightarrow> 0 \<le> i \<and> i < int (length xs) \<and> x = xs ! nat i"
  by (auto simp: go_index_int_def split: if_splits)

lemma sint_small: "n < 2 ^ 63 \<Longrightarrow> sint (of_nat n :: u64) = int n"
  by (simp add: signed_of_nat signed_take_bit_int_eq_self)

lemma int_count_of_nat [simp]: "n < 2 ^ 63 \<Longrightarrow> int_count (of_nat n) = n"
  by (simp only: int_count_def sint_small nat_int)

lemma int_count_big: "2 ^ 63 \<le> unat n \<Longrightarrow> int_count n = 0"
proof -
  assume n: "2 ^ 63 \<le> unat n"
  have "unat n < 2 ^ 64" using unsigned_less [where ?'a = nat and w = n] by simp
  with n have "unat n div 2 ^ 63 = 1" by (intro div_nat_eqI) simp_all
  then have "bit (unat n) 63" by (simp add: bit_iff_odd)
  then have "bit (uint n) 63" by (simp add: bit_unsigned_iff)
  then have "sint n < 0" by (simp add: sint_uint signed_take_bit_negative_iff)
  then show ?thesis by (simp add: int_count_def)
qed

lemma int_count_less: "int_count n < 2 ^ 63"
  using sint_lt [of n] by (simp add: int_count_def)

lemma go_index_ok [simp]: "i < length xs \<Longrightarrow> go_index xs i = Ok (xs ! i)"
  by (simp add: go_index_def)

lemma go_slice_ok [simp]:
  "lo \<le> hi \<Longrightarrow> hi \<le> length xs \<Longrightarrow> go_slice xs lo hi = Ok (take (hi - lo) (drop lo xs))"
  by (simp add: go_slice_def)

section \<open>Readers\<close>

text \<open>
  A reader takes the unread part \<open>b[offset:]\<close> of a slice and returns a value and what is
  left. \<open>next_byte\<close> is \<open>b[offset]; offset++\<close> and \<open>take_bytes n\<close> is
  \<open>b[offset:offset+n]; offset += n\<close>. An end that wraps around or lies past the slice is the
  same panic in Go (the bounds are out of order or past the capacity), so both are
  \<open>SliceOutOfRange\<close> here.
\<close>

type_synonym 'a reader = "bytes \<Rightarrow> ('a \<times> bytes) res"

definition next_byte :: "byte reader" where
  "next_byte bs = (case bs of [] \<Rightarrow> Panic IndexOutOfRange | b # r \<Rightarrow> Ok (b, r))"

definition take_bytes :: "nat \<Rightarrow> bytes reader" where
  "take_bytes n bs =
     (if n \<le> length bs then Ok (take n bs, drop n bs) else Panic SliceOutOfRange)"

text \<open>\<open>for i := 0; i < n; i++ { x := read(); xs = append(xs, x) }\<close>\<close>

fun read_many :: "'a reader \<Rightarrow> nat \<Rightarrow> 'a list reader" where
  "read_many rd 0 bs = Ok ([], bs)"
| "read_many rd (Suc n) bs =
     bind_res (rd bs) (\<lambda>(x, r). bind_res (read_many rd n r) (\<lambda>(xs, r'). Ok (x # xs, r')))"

lemma next_byte_Cons [simp]: "next_byte (b # r) = Ok (b, r)"
  by (simp add: next_byte_def)

lemma next_byte_Nil [simp]: "next_byte [] = Panic IndexOutOfRange"
  by (simp add: next_byte_def)

lemma take_bytes_append [simp]: "length a = n \<Longrightarrow> take_bytes n (a @ r) = Ok (a, r)"
  by (simp add: take_bytes_def)

lemma take_bytes_OkD:
  "take_bytes n bs = Ok (a, r) \<Longrightarrow> bs = a @ r \<and> length a = n"
  by (auto simp: take_bytes_def split: if_splits)

lemma next_byte_OkD: "next_byte bs = Ok (b, r) \<Longrightarrow> bs = b # r"
  by (auto simp: next_byte_def split: list.splits)

lemma read_many_OkD:
  assumes "read_many rd n bs = Ok (xs, r)"
  shows "length xs = n"
  using assms by (induction n arbitrary: bs xs r) (auto simp: go_simps split: prod.splits)

lemma read_many_all:
  assumes "\<And>bs x r. rd bs = Ok (x, r) \<Longrightarrow> P x" "read_many rd n bs = Ok (xs, r)"
  shows "list_all P xs"
  using assms(2) by (induction n arbitrary: bs xs r) (auto simp: go_simps dest: assms(1) split: prod.splits)

section \<open>Codecs\<close>

text \<open>
  The contract of a serialiser \<open>enc\<close> and the reader \<open>dec\<close> of its format: reading back
  what was written, whatever follows it, gives the value and leaves exactly what follows.
\<close>

locale stream_codec =
  fixes wf :: "'a \<Rightarrow> bool"
    and enc :: "'a \<Rightarrow> bytes"
    and dec :: "'a reader"
  assumes dec_enc: "wf x \<Longrightarrow> dec (enc x @ r) = Ok (x, r)"
begin

lemma dec_enc_all: "wf x \<Longrightarrow> dec (enc x) = Ok (x, [])"
  using dec_enc [of x "[]"] by simp

text \<open>A counted sequence of items is read back item by item.\<close>

lemma read_many_enc:
  "list_all wf xs \<Longrightarrow>
     read_many dec (length xs) (concat (map enc xs) @ r) = Ok (xs, r)"
  by (induction xs) (auto simp: dec_enc)

text \<open>The format is prefix free, hence unambiguous.\<close>

lemma enc_prefix_free: "wf x \<Longrightarrow> wf y \<Longrightarrow> enc x @ r = enc y @ s \<Longrightarrow> x = y \<and> r = s"
proof -
  assume "wf x" "wf y" "enc x @ r = enc y @ s"
  then have "Ok (x, r) = Ok (y, s)"
    using dec_enc [of x r] dec_enc [of y s] by (simp only:)
  then show ?thesis by simp
qed

lemma enc_inject: "wf x \<Longrightarrow> wf y \<Longrightarrow> enc x = enc y \<Longrightarrow> x = y"
  using enc_prefix_free [of x y "[]" "[]"] by simp

end

section \<open>List lemmas\<close>

lemma odd_unat: "odd (i :: 'a::len word) \<longleftrightarrow> odd (unat i)"
  using bit_unsigned_iff [where ?'a = nat and w = i and n = 0] by (simp add: bit_0)

lemma take_length_append [simp]: "length xs = n \<Longrightarrow> take n (xs @ ys) = xs"
  by simp

lemma drop_length_append [simp]: "length xs = n \<Longrightarrow> drop n (xs @ ys) = ys"
  by simp

end
