(* ===== verification/Merkle_Spec.thy ===== *)
theory Merkle_Spec
  imports Go_Prelude
begin

text \<open>
  What a Bitcoin Merkle tree promises, over any node type and parent function: the root
  of a list of leaves (an odd level duplicates its last node), the path of a leaf, the fold
  of a path, and the linear array \<open>merkleroot.go\<close> stores a tree in. The locales state what
  the parent function of a component has to guarantee.
\<close>

section \<open>Root and path\<close>

fun merkle_level :: "('h \<Rightarrow> 'h \<Rightarrow> 'h) \<Rightarrow> 'h list \<Rightarrow> 'h list" where
  "merkle_level comb [] = []"
| "merkle_level comb [x] = [comb x x]"
| "merkle_level comb (x # y # r) = comb x y # merkle_level comb r"

lemma length_merkle_level [simp]: "length (merkle_level comb xs) = (length xs + 1) div 2"
  by (induction comb xs rule: merkle_level.induct) simp_all

function merkle_root :: "('h \<Rightarrow> 'h \<Rightarrow> 'h) \<Rightarrow> 'h list \<Rightarrow> 'h" where
  "merkle_root comb xs =
     (if length xs \<le> 1 then hd xs else merkle_root comb (merkle_level comb xs))"
  by pat_completeness auto
termination
  by (relation "measure (\<lambda>(comb, xs). length xs)") auto

declare merkle_root.simps [simp del]

definition sibling :: "'h list \<Rightarrow> nat \<Rightarrow> 'h" where
  "sibling xs i =
     (if even i then (if i + 1 < length xs then xs ! (i + 1) else xs ! i) else xs ! (i - 1))"

function merkle_path :: "('h \<Rightarrow> 'h \<Rightarrow> 'h) \<Rightarrow> 'h list \<Rightarrow> nat \<Rightarrow> 'h list" where
  "merkle_path comb xs i =
     (if length xs \<le> 1 then [] else sibling xs i # merkle_path comb (merkle_level comb xs) (i div 2))"
  by pat_completeness auto
termination
  by (relation "measure (\<lambda>(comb, xs, i). length xs)") auto

declare merkle_path.simps [simp del]

text \<open>Folding a path: at each level the parity of the index tells the side of the node.\<close>

fun fold_path :: "('h \<Rightarrow> 'h \<Rightarrow> 'h) \<Rightarrow> 'h \<Rightarrow> nat \<Rightarrow> 'h list \<Rightarrow> 'h" where
  "fold_path comb h i [] = h"
| "fold_path comb h i (s # p) =
     fold_path comb (if even i then comb h s else comb s h) (i div 2) p"

lemma merkle_root_single [simp]: "merkle_root comb [x] = x"
  by (simp add: merkle_root.simps)

lemma merkle_root_step:
  "2 \<le> length xs \<Longrightarrow> merkle_root comb xs = merkle_root comb (merkle_level comb xs)"
  by (subst merkle_root.simps) simp

lemma merkle_path_step:
  "2 \<le> length xs \<Longrightarrow>
     merkle_path comb xs i = sibling xs i # merkle_path comb (merkle_level comb xs) (i div 2)"
  by (subst merkle_path.simps) simp

lemma merkle_path_short: "length xs \<le> 1 \<Longrightarrow> merkle_path comb xs i = []"
  by (subst merkle_path.simps) simp

lemma nth_merkle_level:
  "i < length xs \<Longrightarrow> merkle_level comb xs ! (i div 2) =
     (if even i then comb (xs ! i) (sibling xs i) else comb (sibling xs i) (xs ! i))"
proof (induction comb xs arbitrary: i rule: merkle_level.induct)
  case (3 comb x y r)
  show ?case
  proof (cases "i < 2")
    case True
    then have "i = 0 \<or> i = 1" by linarith
    then show ?thesis by (auto simp: sibling_def)
  next
    case False
    then obtain j where i: "i = j + 2" by (metis add.commute le_Suc_ex not_less)
    with "3.prems" have j: "j < length r" by simp
    have "sibling (x # y # r) i = sibling r j"
      using i j by (cases j) (auto simp: sibling_def)
    with i j "3.IH" [OF j] show ?thesis by simp
  qed
qed (auto simp: sibling_def)

text \<open>The path of a leaf folds to the root.\<close>

lemma fold_merkle_path:
  "i < length xs \<Longrightarrow> fold_path comb (xs ! i) i (merkle_path comb xs i) = merkle_root comb xs"
proof (induction comb xs arbitrary: i rule: merkle_root.induct)
  case (1 comb xs)
  show ?case
  proof (cases "length xs \<le> 1")
    case True
    with "1.prems" have "i = 0" "xs \<noteq> []" by auto
    with True show ?thesis
      by (simp add: merkle_path_short merkle_root.simps hd_conv_nth)
  next
    case False
    with "1.prems" have "i div 2 < length (merkle_level comb xs)" by simp
    with False have "fold_path comb (merkle_level comb xs ! (i div 2)) (i div 2)
        (merkle_path comb (merkle_level comb xs) (i div 2)) = merkle_root comb (merkle_level comb xs)"
      by (intro "1.IH") simp_all
    with False show ?thesis
      by (simp add: merkle_path_step merkle_root_step nth_merkle_level [OF "1.prems"])
  qed
qed

text \<open>A map that commutes with the parent functions commutes with both.\<close>

lemma map_merkle_level:
  assumes "\<And>a b. g (comb a b) = comb' (g a) (g b)"
  shows "map g (merkle_level comb xs) = merkle_level comb' (map g xs)"
  using assms by (induction comb xs rule: merkle_level.induct) simp_all

lemma map_merkle_root:
  assumes "\<And>a b. g (comb a b) = comb' (g a) (g b)" and "xs \<noteq> []"
  shows "g (merkle_root comb xs) = merkle_root comb' (map g xs)"
  using assms(2)
proof (induction "length xs" arbitrary: xs rule: less_induct)
  case less
  show ?case
  proof (cases "2 \<le> length xs")
    case True
    then have "length (merkle_level comb xs) \<noteq> 0" by simp
    then have "merkle_level comb xs \<noteq> []" by (metis list.size(3))
    with True less.hyps [of "merkle_level comb xs"] show ?thesis
      by (simp add: merkle_root_step map_merkle_level [where g = g and comb = comb and comb' = comb'] assms(1))
  next
    case False
    with less.prems show ?thesis by (cases xs) (auto simp: not_less_eq_eq)
  qed
qed

lemma map_fold_path:
  assumes "\<And>a b. g (comb a b) = comb' (g a) (g b)"
  shows "g (fold_path comb h i p) = fold_path comb' (g h) i (map g p)"
  using assms by (induction comb h i p rule: fold_path.induct) auto

lemma length_merkle_path_pow: "i < length xs \<Longrightarrow> i < 2 ^ length (merkle_path comb xs i)"
proof (induction comb xs arbitrary: i rule: merkle_root.induct)
  case (1 comb xs)
  show ?case
  proof (cases "length xs \<le> 1")
    case False
    with "1.prems" have "i div 2 < length (merkle_level comb xs)" by simp
    with 1 False have "i div 2 < 2 ^ length (merkle_path comb (merkle_level comb xs) (i div 2))"
      by simp
    then have "i < 2 * 2 ^ length (merkle_path comb (merkle_level comb xs) (i div 2))" by linarith
    with False show ?thesis by (simp add: merkle_path_step)
  qed (use "1.prems" in \<open>simp add: merkle_path_short\<close>)
qed

lemma fold_path_append:
  "fold_path comb h i (p @ q) = fold_path comb (fold_path comb h i p) (i div 2 ^ length p) q"
  by (induction comb h i p rule: fold_path.induct) (simp_all add: div_mult2_eq mult.commute)

text \<open>A path of \<open>n\<close> nodes only looks at the low \<open>n\<close> bits of the index.\<close>

lemma fold_path_mod:
  assumes "i mod 2 ^ length p = j mod 2 ^ length p"
  shows "fold_path comb h i p = fold_path comb h j p"
  using assms
proof (induction p arbitrary: h i j)
  case (Cons s p)
  have low: "l mod (2 * m) = 2 * (l div 2 mod m) + l mod 2" for l m :: nat by (rule mod_mult2_eq)
  have bit: "2 * a + r = 2 * b + s \<Longrightarrow> r < 2 \<Longrightarrow> s < 2 \<Longrightarrow> r = s \<and> a = b" for a b r s :: nat
    by presburger
  from Cons.prems have "i mod 2 = j mod 2 \<and> i div 2 mod 2 ^ length p = j div 2 mod 2 ^ length p"
    unfolding length_Cons power_Suc low by (rule bit) simp_all
  then have "even i = even j" "i div 2 mod 2 ^ length p = j div 2 mod 2 ^ length p"
    by (simp_all only: even_iff_mod_2_eq_zero)
  then show ?case using Cons.IH [of "i div 2" "j div 2"] by (simp only: fold_path.simps)
qed simp

text \<open>The levels above the leaves have the same root, and paths shorter by the height.\<close>

lemma length_merkle_path_index: "length (merkle_path comb xs i) = length (merkle_path comb xs j)"
proof (induction comb xs arbitrary: i j rule: merkle_root.induct)
  case (1 comb xs)
  show ?case
  proof (cases "length xs \<le> 1")
    case False
    with "1.IH" [of "i div 2" "j div 2"] show ?thesis by (simp add: merkle_path_step)
  qed (simp add: merkle_path_short)
qed

lemma merkle_levels:
  assumes "k \<le> length (merkle_path comb xs 0)"
  shows "merkle_root comb ((merkle_level comb ^^ k) xs) = merkle_root comb xs"
    and "length (merkle_path comb ((merkle_level comb ^^ k) xs) i) = length (merkle_path comb xs 0) - k"
proof -
  have "merkle_root comb ((merkle_level comb ^^ k) xs) = merkle_root comb xs \<and>
    length (merkle_path comb ((merkle_level comb ^^ k) xs) i) = length (merkle_path comb xs 0) - k"
    using assms
  proof (induction k arbitrary: xs)
    case (Suc k)
    then have xs: "2 \<le> length xs" using merkle_path_short [of xs comb 0] by (cases "length xs \<le> 1") auto
    with Suc show ?case by (simp add: funpow_Suc_right merkle_path_step merkle_root_step del: funpow.simps)
  qed (simp, rule length_merkle_path_index)
  then show "merkle_root comb ((merkle_level comb ^^ k) xs) = merkle_root comb xs"
    and "length (merkle_path comb ((merkle_level comb ^^ k) xs) i) = length (merkle_path comb xs 0) - k"
    by simp_all
qed

section \<open>The linear array\<close>

fun pair_cells :: "('c \<Rightarrow> 'c \<Rightarrow> 'c) \<Rightarrow> 'c list \<Rightarrow> 'c list" where
  "pair_cells f (x # y # r) = f x y # pair_cells f r"
| "pair_cells f _ = []"

text \<open>The levels of a full tree of \<open>2^k\<close> leaves, one after the other, the root last.\<close>

primrec tree_store :: "('c \<Rightarrow> 'c \<Rightarrow> 'c) \<Rightarrow> nat \<Rightarrow> 'c list \<Rightarrow> 'c list" where
  "tree_store f 0 xs = xs"
| "tree_store f (Suc k) xs = xs @ tree_store f k (pair_cells f xs)"

lemma length_pair_cells [simp]: "length (pair_cells f xs) = length xs div 2"
  by (induction f xs rule: pair_cells.induct) simp_all

lemma nth_pair_cells:
  "2 * j + 1 < length xs \<Longrightarrow> pair_cells f xs ! j = f (xs ! (2 * j)) (xs ! (2 * j + 1))"
proof (induction f xs arbitrary: j rule: pair_cells.induct)
  case (1 f x y r)
  then show ?case by (cases j) auto
qed auto

lemma length_tree_store:
  "length xs = 2 ^ k \<Longrightarrow> length (tree_store f k xs) = 2 * 2 ^ k - 1"
  by (induction k arbitrary: xs) auto

lemma nth_tree_store_leaf: "j < length xs \<Longrightarrow> tree_store f k xs ! j = xs ! j"
  by (cases k) (simp_all add: nth_append)

text \<open>The equation of the array: cell \<open>P + j\<close> is the parent of the cells \<open>2j\<close> and \<open>2j + 1\<close>.\<close>

lemma nth_tree_store:
  assumes "length xs = 2 ^ k" "j < 2 ^ k - 1"
  shows "tree_store f k xs ! (2 ^ k + j) =
    f (tree_store f k xs ! (2 * j)) (tree_store f k xs ! (2 * j + 1))"
  using assms
proof (induction k arbitrary: xs j)
  case (Suc k)
  let ?ys = "pair_cells f xs"
  let ?P = "2 ^ k :: nat"
  have ys: "length ?ys = ?P" using Suc.prems by simp
  show ?case
  proof (cases "j < ?P")
    case True
    then have "2 * j + 1 < length xs" using Suc.prems by simp
    with True ys Suc.prems show ?thesis
      by (simp add: nth_append nth_tree_store_leaf nth_pair_cells)
  next
    case False
    define j' where "j' = j - ?P"
    have j: "j = ?P + j'" using False by (simp add: j'_def)
    have "j' < ?P - 1" using Suc.prems(2) j by simp
    with ys have "tree_store f k ?ys ! (?P + j') =
        f (tree_store f k ?ys ! (2 * j')) (tree_store f k ?ys ! (2 * j' + 1))"
      by (intro Suc.IH) simp_all
    then show ?thesis using Suc.prems(1) j by (simp add: nth_append algebra_simps)
  qed
qed simp

lemma last_tree_store: "length xs = 2 ^ k \<Longrightarrow> tree_store f k xs \<noteq> []"
  by (cases k) auto

lemma list_all_pair_cells:
  "(\<And>a b. P a \<Longrightarrow> P b \<Longrightarrow> P (f a b)) \<Longrightarrow> list_all P xs \<Longrightarrow> list_all P (pair_cells f xs)"
  by (induction f xs rule: pair_cells.induct) auto

lemma map_pair_cells:
  assumes "\<And>a b. P a \<Longrightarrow> P b \<Longrightarrow> g (f a b) = f' (g a) (g b)" and "list_all P xs"
  shows "map g (pair_cells f xs) = pair_cells f' (map g xs)"
  using assms by (induction f xs rule: pair_cells.induct) auto

lemma map_tree_store:
  assumes "\<And>a b. P a \<Longrightarrow> P b \<Longrightarrow> P (f a b)"
    and "\<And>a b. P a \<Longrightarrow> P b \<Longrightarrow> g (f a b) = f' (g a) (g b)" and "list_all P xs"
  shows "map g (tree_store f k xs) = tree_store f' k (map g xs)"
  using assms(3)
proof (induction k arbitrary: xs)
  case (Suc k)
  have "list_all P (pair_cells f xs)" using assms(1) Suc.prems by (rule list_all_pair_cells)
  with Suc show ?case
    using map_pair_cells [where g = g and f = f and f' = f', OF assms(2) Suc.prems] by simp
qed simp

text \<open>The loop of \<open>BuildMerkleTreeStore\<close> on cells: \<open>m[offset] = f m[i] m[i+1]; i += 2; offset++\<close>.\<close>

function cell_loop :: "('c \<Rightarrow> 'c \<Rightarrow> 'c) \<Rightarrow> nat \<Rightarrow> nat \<Rightarrow> nat \<Rightarrow> 'c list \<Rightarrow> 'c list" where
  "cell_loop f arraySize i offset m =
     (if i < arraySize - 1
      then cell_loop f arraySize (i + 2) (offset + 1) (m[offset := f (m ! i) (m ! (i + 1))])
      else m)"
  by pat_completeness auto
termination
  by (relation "measure (\<lambda>(f, n, i, off, m). n - i)") auto

declare cell_loop.simps [simp del]

lemma cell_loop_store:
  assumes "length xs = 2 ^ k" "length m = 2 * 2 ^ k - 1"
    and "i = 2 * j" "offset = 2 ^ k + j" "j \<le> 2 ^ k - 1"
    and "\<forall>l < offset. m ! l = tree_store f k xs ! l"
  shows "cell_loop f (2 * 2 ^ k - 1) i offset m = tree_store f k xs"
  using assms(2-)
proof (induction f "2 * 2 ^ k - 1 :: nat" i offset m arbitrary: j rule: cell_loop.induct)
  case (1 f i offset m)
  let ?S = "tree_store f k xs"
  show ?case
  proof (cases "i < 2 * 2 ^ k - 1 - 1")
    case True
    let ?m = "m[offset := f (m ! i) (m ! (i + 1))]"
    from True "1.prems" have j: "j < 2 ^ k - 1" by simp
    then have "m ! i = ?S ! (2 * j)" "m ! (i + 1) = ?S ! (2 * j + 1)"
      using "1.prems" by auto
    then have "f (m ! i) (m ! (i + 1)) = ?S ! offset"
      using nth_tree_store [OF assms(1) j] "1.prems" by simp
    then have "\<forall>l < offset + 1. ?m ! l = ?S ! l"
      using "1.prems" j by (auto simp: nth_list_update less_Suc_eq)
    then have "cell_loop f (2 * 2 ^ k - 1) (i + 2) (offset + 1) ?m = ?S"
      using "1.prems" j True by (intro "1.hyps" [where j = "j + 1"]) simp_all
    with True show ?thesis by (subst cell_loop.simps) simp
  next
    case False
    with "1.prems" have j: "j = 2 ^ k - 1" by simp
    then have off: "offset = length m" using "1.prems" by simp
    have "m = ?S"
      using "1.prems" off by (intro nth_equalityI) (simp_all add: length_tree_store [OF assms(1)])
    with False show ?thesis by (subst cell_loop.simps) simp
  qed
qed

section \<open>Padded levels\<close>

text \<open>
  The rule of the loop body: no left child, no parent; no right child, the left one twice.
\<close>

definition cell_parent :: "'c \<Rightarrow> ('c \<Rightarrow> 'c \<Rightarrow> 'c) \<Rightarrow> 'c \<Rightarrow> 'c \<Rightarrow> 'c" where
  "cell_parent nil comb a b =
     (if a = nil then nil else if b = nil then comb a a else comb a b)"

definition padded :: "'c \<Rightarrow> nat \<Rightarrow> 'c list \<Rightarrow> 'c list" where
  "padded nil n xs = xs @ replicate (n - length xs) nil"

text \<open>
  The contract of a node type: parents of proper nodes are proper, and the empty cell is not.
\<close>

locale merkle_cells =
  fixes nil :: 'c
    and comb :: "'c \<Rightarrow> 'c \<Rightarrow> 'c"
    and wf :: "'c \<Rightarrow> bool"
  assumes wf_comb: "wf a \<Longrightarrow> wf b \<Longrightarrow> wf (comb a b)"
    and wf_nil: "\<not> wf nil"
begin

lemma wf_not_nil: "wf a \<Longrightarrow> a \<noteq> nil"
  using wf_nil by auto

lemma wf_level: "list_all wf xs \<Longrightarrow> list_all wf (merkle_level comb xs)"
  using wf_comb by (induction comb xs rule: merkle_level.induct) auto

lemma wf_levels: "list_all wf xs \<Longrightarrow> list_all wf ((merkle_level comb ^^ k) xs)"
  by (induction k) (simp_all add: wf_level)

lemma wf_root: "list_all wf xs \<Longrightarrow> xs \<noteq> [] \<Longrightarrow> wf (merkle_root comb xs)"
proof (induction "length xs" arbitrary: xs rule: less_induct)
  case less
  show ?case
  proof (cases "2 \<le> length xs")
    case True
    then have "length (merkle_level comb xs) \<noteq> 0" "length (merkle_level comb xs) < length xs"
      by simp_all
    moreover from this have "merkle_level comb xs \<noteq> []" by (metis list.size(3))
    ultimately show ?thesis
      using True less.hyps [of "merkle_level comb xs"] less.prems wf_level
      by (simp add: merkle_root_step)
  next
    case False
    with less.prems show ?thesis by (cases xs) (auto simp: not_less_eq_eq)
  qed
qed

lemma wf_sibling: "list_all wf xs \<Longrightarrow> i < length xs \<Longrightarrow> wf (sibling xs i)"
  by (auto simp: sibling_def list_all_length)

lemma wf_path: "list_all wf xs \<Longrightarrow> i < length xs \<Longrightarrow> list_all wf (merkle_path comb xs i)"
proof (induction comb\<equiv>comb xs arbitrary: i rule: merkle_root.induct)
  case (1 xs)
  show ?case
  proof (cases "length xs \<le> 1")
    case False
    with "1.prems" have "i div 2 < length (merkle_level comb xs)" by simp
    with 1 False show ?thesis by (simp add: merkle_path_step wf_sibling wf_level)
  qed (simp add: merkle_path_short)
qed

lemma wf_fold_path: "wf h \<Longrightarrow> list_all wf p \<Longrightarrow> wf (fold_path comb h i p)"
  by (induction comb\<equiv>comb h i p rule: fold_path.induct) (auto simp: wf_comb)

text \<open>Pairing the cells of a padded level gives the next level, padded.\<close>

lemma pair_cells_nil: "pair_cells (cell_parent nil comb) (replicate (2 * n) nil) = replicate n nil"
  by (induction n) (simp_all add: cell_parent_def)

lemma pair_cells_padded:
  "list_all wf xs \<Longrightarrow> length xs \<le> 2 * n \<Longrightarrow>
     pair_cells (cell_parent nil comb) (padded nil (2 * n) xs) = padded nil n (merkle_level comb xs)"
proof (induction comb\<equiv>comb xs arbitrary: n rule: merkle_level.induct)
  case 1
  then show ?case by (simp add: padded_def pair_cells_nil)
next
  case (2 x)
  then obtain n' where n: "n = Suc n'" by (cases n) auto
  with 2 show ?case by (simp add: padded_def pair_cells_nil cell_parent_def wf_not_nil)
next
  case (3 x y r)
  then obtain n' where n: "n = Suc n'" by (cases n) auto
  with 3 "3.hyps" [of n'] show ?case by (simp add: padded_def cell_parent_def wf_not_nil)
qed

lemma tree_store_padded_Suc:
  "list_all wf xs \<Longrightarrow> length xs \<le> 2 ^ Suc k \<Longrightarrow>
     tree_store (cell_parent nil comb) (Suc k) (padded nil (2 ^ Suc k) xs) =
     padded nil (2 ^ Suc k) xs @
     tree_store (cell_parent nil comb) k (padded nil (2 ^ k) (merkle_level comb xs))"
  using pair_cells_padded [of xs "2 ^ k"] by simp

text \<open>The last cell of the array is the root.\<close>

lemma last_tree_store_root:
  assumes "list_all wf xs" "xs \<noteq> []" "length xs \<le> 2 ^ k" "2 ^ k < 2 * length xs"
  shows "last (tree_store (cell_parent nil comb) k (padded nil (2 ^ k) xs)) = merkle_root comb xs"
  using assms
proof (induction k arbitrary: xs)
  case 0
  then obtain x where "xs = [x]" by (cases xs) auto
  then show ?case by (simp add: padded_def)
next
  case (Suc k)
  let ?l = "merkle_level comb xs"
  from Suc.prems have l: "2 \<le> length xs" "length ?l \<le> 2 ^ k" "2 ^ k < 2 * length ?l" by simp_all
  then have "length ?l \<noteq> 0" by simp
  then have "?l \<noteq> []" by (metis list.size(3))
  moreover have "length (padded nil (2 ^ k) ?l) = 2 ^ k" using l by (simp add: padded_def)
  then have "tree_store (cell_parent nil comb) k (padded nil (2 ^ k) ?l) \<noteq> []"
    by (rule last_tree_store)
  moreover have "last (tree_store (cell_parent nil comb) k (padded nil (2 ^ k) ?l)) =
      merkle_root comb ?l"
    using Suc.prems l \<open>?l \<noteq> []\<close> by (intro Suc.IH wf_level)
  ultimately show ?case
    unfolding tree_store_padded_Suc [OF Suc.prems(1,3)] using l by (simp add: merkle_root_step)
qed

text \<open>The sibling of a leaf, looked up in the padded level.\<close>

lemma nth_padded:
  "j < n \<Longrightarrow> length xs \<le> n \<Longrightarrow> padded nil n xs ! j = (if j < length xs then xs ! j else nil)"
  by (simp add: padded_def nth_append)

lemma padded_sibling:
  assumes "list_all wf xs" "i < length xs" "length xs \<le> 2 * n"
    and "j = (if even i then i + 1 else i - 1)"
  shows "j < 2 * n" and "(if padded nil (2 * n) xs ! j = nil then padded nil (2 * n) xs ! i
    else padded nil (2 * n) xs ! j) = sibling xs i"
proof -
  show j: "j < 2 * n" using assms by (cases "even i") (auto elim!: evenE, presburger)
  have "xs ! l \<noteq> nil" if "l < length xs" for l
    using assms(1) that by (auto simp: list_all_length wf_not_nil)
  with assms j show "(if padded nil (2 * n) xs ! j = nil then padded nil (2 * n) xs ! i
    else padded nil (2 * n) xs ! j) = sibling xs i"
    by (auto simp: nth_padded sibling_def)
qed

end

section \<open>Binding\<close>

text \<open>
  Every hash function has collisions, so binding is stated with the collision at hand:
  two different openings of one root are turned into two different messages with one
  digest by \<open>path_collision\<close>.
\<close>

fun path_collision :: "('c \<Rightarrow> 'c \<Rightarrow> 'c) \<Rightarrow> ('c \<Rightarrow> 'c \<Rightarrow> bytes) \<Rightarrow>
    'c \<Rightarrow> 'c list \<Rightarrow> 'c \<Rightarrow> 'c list \<Rightarrow> nat \<Rightarrow> (bytes \<times> bytes) option" where
  "path_collision comb pre h (s # p) h' (t # q) i =
     (let x = (if even i then pre h s else pre s h); y = (if even i then pre h' t else pre t h');
          a = (if even i then comb h s else comb s h); b = (if even i then comb h' t else comb t h')
      in if x \<noteq> y \<and> a = b then Some (x, y) else path_collision comb pre a p b q (i div 2))"
| "path_collision comb pre h _ h' _ i = None"

text \<open>
  The contract of a parent function that hashes an injective encoding of its children.
\<close>

locale binding_cells = merkle_cells nil comb wf
  for nil :: 'c and comb :: "'c \<Rightarrow> 'c \<Rightarrow> 'c" and wf :: "'c \<Rightarrow> bool" +
  fixes preimage :: "'c \<Rightarrow> 'c \<Rightarrow> bytes"
    and hash :: "bytes \<Rightarrow> bytes"
  assumes comb_hash: "wf a \<Longrightarrow> wf b \<Longrightarrow> wf c \<Longrightarrow> wf d \<Longrightarrow> comb a b = comb c d \<Longrightarrow>
      hash (preimage a b) = hash (preimage c d)"
    and preimage_inject: "wf a \<Longrightarrow> wf b \<Longrightarrow> wf c \<Longrightarrow> wf d \<Longrightarrow>
      preimage a b = preimage c d \<Longrightarrow> a = c \<and> b = d"
begin

lemma path_collision_sound:
  assumes "wf h" "wf h'" "list_all wf p" "list_all wf q"
    and "path_collision comb preimage h p h' q i = Some (x, y)"
  shows "x \<noteq> y \<and> hash x = hash y"
  using assms
proof (induction comb\<equiv>comb pre\<equiv>preimage h p h' q i rule: path_collision.induct)
  case (1 h s p h' t q i)
  then show ?case
    using comb_hash [of h s h' t] comb_hash [of s h t h']
    by (auto simp: Let_def wf_comb split: if_splits)
qed simp_all

lemma path_collision_complete:
  assumes "wf h" "wf h'" "list_all wf p" "list_all wf q" "length p = length q"
    and "fold_path comb h i p = fold_path comb h' i q" and "h \<noteq> h' \<or> p \<noteq> q"
  shows "\<exists>x y. path_collision comb preimage h p h' q i = Some (x, y)"
  using assms
proof (induction comb\<equiv>comb pre\<equiv>preimage h p h' q i rule: path_collision.induct)
  case (1 h s p h' t q i)
  let ?a = "if even i then comb h s else comb s h" and ?b = "if even i then comb h' t else comb t h'"
  let ?x = "if even i then preimage h s else preimage s h"
  let ?y = "if even i then preimage h' t else preimage t h'"
  have wf: "wf ?a" "wf ?b" "list_all wf p" "list_all wf q"
    using "1.prems" by (auto simp: wf_comb)
  show ?case
  proof (cases "?x \<noteq> ?y \<and> ?a = ?b")
    case True
    then show ?thesis by (simp add: Let_def)
  next
    case False
    have "?a \<noteq> ?b \<or> p \<noteq> q"
    proof (cases "?a = ?b")
      case True
      with False have "?x = ?y" by simp
      then have "h = h' \<and> s = t"
        using preimage_inject [of h s h' t] preimage_inject [of s h t h'] "1.prems"
        by (auto split: if_splits)
      with "1.prems" show ?thesis by simp
    qed simp
    then have "\<exists>x y. path_collision comb preimage ?a p ?b q (i div 2) = Some (x, y)"
      using "1.prems" wf False by (intro "1.hyps") auto
    with False show ?thesis by (simp add: Let_def)
  qed
qed auto

text \<open>Two different openings of one root, at one index and depth, give a collision.\<close>

lemma fold_path_binding:
  assumes "wf h" "wf h'" "list_all wf p" "list_all wf q" "length p = length q"
    and "fold_path comb h i p = fold_path comb h' i q" and "h \<noteq> h' \<or> p \<noteq> q"
  shows "\<exists>x y. path_collision comb preimage h p h' q i = Some (x, y) \<and> x \<noteq> y \<and> hash x = hash y"
  using path_collision_complete [OF assms] path_collision_sound assms(1-4) by blast

lemma fold_path_case:
  assumes "wf h" "wf h'" "list_all wf p" "list_all wf q" "length p = length q"
  shows "case path_collision comb preimage h p h' q i of
      None \<Rightarrow> fold_path comb h i p = fold_path comb h' i q \<longleftrightarrow> h = h' \<and> p = q
    | Some (x, y) \<Rightarrow> x \<noteq> y \<and> hash x = hash y"
proof (cases "path_collision comb preimage h p h' q i")
  case None
  with path_collision_complete [OF assms, of i] show ?thesis by auto
next
  case (Some c)
  with path_collision_sound [OF assms(1-4), of i] show ?thesis by (cases c) auto
qed

text \<open>
  A path to the root of a tree, whatever its length. What it starts with is a leaf when the path is
  as long as the tree is high; a node of a higher level when it is shorter; and when it is longer,
  its first steps lead to a leaf. Or else the path gives a collision.
\<close>

lemma fold_path_root:
  assumes "list_all wf xs" "wf h" "list_all wf p" "fold_path comb h i p = merkle_root comb xs"
    and "d = length (merkle_path comb xs 0)" "k = length p - d"
    and "level = (merkle_level comb ^^ (d - length p)) xs"
    and "a = fold_path comb h i (take k p)" "j = i div 2 ^ k" "j < length level"
  shows "case path_collision comb preimage a (drop k p) (level ! j) (merkle_path comb level j) j of
      None \<Rightarrow> a = level ! j
    | Some (x, y) \<Rightarrow> x \<noteq> y \<and> hash x = hash y"
proof -
  have level: "merkle_root comb level = merkle_root comb xs"
    "length (merkle_path comb level j) = d - (d - length p)"
    using merkle_levels [of "d - length p" comb xs] assms(5,7) by simp_all
  have wf_level: "list_all wf level" using wf_levels [OF assms(1)] assms(7) by simp
  have wf_take: "list_all wf (take k p)" "list_all wf (drop k p)"
    using assms(3) by (auto simp: list_all_iff dest: in_set_takeD in_set_dropD)
  have len: "length (drop k p) = length (merkle_path comb level j)" using level(2) assms(6) by simp
  have "fold_path comb a j (drop k p) = fold_path comb h i (take k p @ drop k p)"
    using assms(6,8,9) by (simp add: fold_path_append min_def del: append_take_drop_id)
  also have "\<dots> = fold_path comb (level ! j) j (merkle_path comb level j)"
    using assms(4) level(1) fold_merkle_path [OF assms(10)] by simp
  finally have fold: "fold_path comb a j (drop k p) = \<dots>" .
  have "wf a" "wf (level ! j)"
    using assms(2,8,10) wf_take(1) wf_level by (simp_all add: wf_fold_path list_all_length)
  from fold_path_case [OF this wf_take(2) wf_path [OF wf_level assms(10)] len, of j] fold
  show ?thesis by (auto split: option.splits)
qed

end

end
