(* ===== verification/Go_Bytes.thy ===== *)
theory Go_Bytes
  imports Go_Prelude
begin

text \<open>
  Byte strings: \<open>encoding/hex\<close>, the little-endian part of \<open>encoding/binary\<close>, and
  \<open>bt.ReverseBytes\<close>. A Go string is a \<open>string\<close> (a list of 8-bit characters).
\<close>

section \<open>Hexadecimal strings\<close>

definition from_hex_char :: "char \<Rightarrow> byte option" where
  "from_hex_char c =
     (let n = (of_char c :: nat)
      in if 48 \<le> n \<and> n \<le> 57 then Some (of_nat (n - 48))
         else if 97 \<le> n \<and> n \<le> 102 then Some (of_nat (n - 87))
         else if 65 \<le> n \<and> n \<le> 70 then Some (of_nat (n - 55))
         else None)"

text \<open>
  \<open>hex.Decode\<close> returns the bytes decoded before the first error together with the
  error; callers that drop the error go on with those bytes.
\<close>

fun hexDecode :: "string \<Rightarrow> bytes \<times> go_error option" where
  "hexDecode [] = ([], None)"
| "hexDecode [c] =
     ([], Some (case from_hex_char c of None \<Rightarrow> HexInvalidByte c | Some _ \<Rightarrow> HexLength))"
| "hexDecode (p # q # s) =
     (case from_hex_char p of
        None \<Rightarrow> ([], Some (HexInvalidByte p))
      | Some a \<Rightarrow>
          (case from_hex_char q of
             None \<Rightarrow> ([], Some (HexInvalidByte q))
           | Some b \<Rightarrow> (case hexDecode s of (bs, e) \<Rightarrow> ((push_bit 4 a OR b) # bs, e))))"

definition hex_DecodeString :: "string \<Rightarrow> bytes res" where
  "hex_DecodeString s = (case hexDecode s of (bs, None) \<Rightarrow> Ok bs | (_, Some e) \<Rightarrow> Err e)"

definition hex_digits :: string where
  "hex_digits = ''0123456789abcdef''"

definition hex_EncodeToString :: "bytes \<Rightarrow> string" where
  "hex_EncodeToString bs =
     concat (map (\<lambda>b. [hex_digits ! unat (drop_bit 4 b), hex_digits ! unat (b AND 15)]) bs)"

lemma hex_EncodeToString_Nil [simp]: "hex_EncodeToString [] = []"
  by (simp add: hex_EncodeToString_def)

lemma hex_EncodeToString_Cons:
  "hex_EncodeToString (b # bs) =
     hex_digits ! unat (drop_bit 4 b) # hex_digits ! unat (b AND 15) # hex_EncodeToString bs"
  by (simp add: hex_EncodeToString_def)

lemma length_hex_EncodeToString [simp]: "length (hex_EncodeToString bs) = 2 * length bs"
  by (induction bs) (simp_all add: hex_EncodeToString_Cons)

lemma hex_EncodeToString_append [simp]:
  "hex_EncodeToString (a @ b) = hex_EncodeToString a @ hex_EncodeToString b"
  by (simp add: hex_EncodeToString_def)

lemma from_hex_char_digit: "n < 16 \<Longrightarrow> from_hex_char (hex_digits ! n) = Some (of_nat n)"
proof -
  assume "n < 16"
  then have "n \<in> {0..<16}" by simp
  then have "n \<in> set [0..<16]" by simp
  moreover have "\<forall>k \<in> set [0..<16]. from_hex_char (hex_digits ! k) = Some (of_nat k)"
    by (simp add: upt_rec hex_digits_def from_hex_char_def)
  ultimately show ?thesis by blast
qed

lemma byte_and_15: "(b :: byte) AND 15 = take_bit 4 b"
  by (simp add: take_bit_eq_mask mask_eq_exp_minus_1)

lemma byte_hi_less: "unat (drop_bit 4 (b :: byte)) < 16"
proof -
  have "unat b < 256"
    using unsigned_less [where ?'a = nat and w = b] by simp
  then show ?thesis by (simp only: unat_drop_bit_eq) (simp add: drop_bit_eq_div)
qed

lemma byte_lo_less: "unat (b AND 15 :: byte) < 16"
  by (simp only: byte_and_15 unsigned_take_bit_eq) (simp add: take_bit_eq_mod)

lemma byte_nibbles: "push_bit 4 (drop_bit 4 b) OR (b AND 15) = (b :: byte)"
  by (rule bit_word_eqI) (auto simp: byte_and_15 bit_simps)

lemma hexDecode_byte:
  "hexDecode (hex_digits ! unat (drop_bit 4 b) # hex_digits ! unat (b AND 15) # s) =
     (case hexDecode s of (bs, e) \<Rightarrow> (b # bs, e))"
  by (simp only: hexDecode.simps from_hex_char_digit [OF byte_hi_less]
      from_hex_char_digit [OF byte_lo_less] option.case of_nat_unat ucast_id byte_nibbles)

text \<open>Decoding is a left inverse of encoding.\<close>

lemma hexDecode_EncodeToString [simp]: "hexDecode (hex_EncodeToString bs) = (bs, None)"
  by (induction bs) (simp_all only: hex_EncodeToString_Nil hexDecode.simps(1)
      hex_EncodeToString_Cons hexDecode_byte prod.case)

lemma hex_DecodeString_EncodeToString [simp]: "hex_DecodeString (hex_EncodeToString bs) = Ok bs"
  by (simp add: hex_DecodeString_def)

lemma hex_EncodeToString_inject [simp]:
  "hex_EncodeToString a = hex_EncodeToString b \<longleftrightarrow> a = b"
  by (metis hexDecode_EncodeToString prod.inject)

lemma hex_EncodeToString_eq_Nil [simp]: "hex_EncodeToString bs = [] \<longleftrightarrow> bs = []"
  by (cases bs) (simp_all add: hex_EncodeToString_Cons)

text \<open>
  A string is decoded without an error when it has even length and only hexadecimal
  digits (of either case); the canonical strings are the images of the encoder.
\<close>

definition valid_hex :: "string \<Rightarrow> bool" where
  "valid_hex s \<longleftrightarrow> even (length s) \<and> (\<forall>c \<in> set s. from_hex_char c \<noteq> None)"

lemma hexDecode_valid_iff: "snd (hexDecode s) = None \<longleftrightarrow> valid_hex s"
  by (induction s rule: hexDecode.induct)
    (auto simp: valid_hex_def split: option.splits prod.splits)

lemma length_hexDecode_valid: "valid_hex s \<Longrightarrow> 2 * length (fst (hexDecode s)) = length s"
  by (induction s rule: hexDecode.induct)
    (auto simp: valid_hex_def split: option.splits prod.splits)

lemma hex_DecodeString_valid: "valid_hex s \<Longrightarrow> hex_DecodeString s = Ok (fst (hexDecode s))"
  using hexDecode_valid_iff [of s]
  by (auto simp: hex_DecodeString_def split: prod.splits option.splits)

lemma hex_DecodeString_Ok_iff:
  "hex_DecodeString s = Ok b \<longleftrightarrow> valid_hex s \<and> b = fst (hexDecode s)"
  using hexDecode_valid_iff [of s]
  by (auto simp: hex_DecodeString_def split: prod.splits option.splits)

lemma hex_DecodeString_not_Panic [simp]: "hex_DecodeString s \<noteq> Panic p"
  by (auto simp: hex_DecodeString_def split: prod.splits option.splits)

lemma hex_DecodeString_invalid: "\<not> valid_hex s \<Longrightarrow> \<exists>e. hex_DecodeString s = Err e"
  using hexDecode_valid_iff [of s]
  by (auto simp: hex_DecodeString_def split: prod.splits option.splits)

lemma valid_hex_EncodeToString [simp]: "valid_hex (hex_EncodeToString bs)"
  using hexDecode_valid_iff [of "hex_EncodeToString bs"] by simp

text \<open>Strings the encoder produces: re-encoding the decoded bytes gives them back.\<close>

definition canonical_hex :: "string \<Rightarrow> bool" where
  "canonical_hex s \<longleftrightarrow> hex_EncodeToString (fst (hexDecode s)) = s"

lemma canonical_hex_EncodeToString [simp]: "canonical_hex (hex_EncodeToString bs)"
  by (simp add: canonical_hex_def)

lemma canonical_hex_valid: "canonical_hex s \<Longrightarrow> valid_hex s"
  using valid_hex_EncodeToString [of "fst (hexDecode s)"] by (simp add: canonical_hex_def)

lemma canonical_hexE:
  assumes "canonical_hex s"
  obtains b where "s = hex_EncodeToString b"
  using assms by (metis canonical_hex_def)

section \<open>Byte reversal\<close>

text \<open>
  \<open>bt.ReverseBytes\<close> copies the slice and swaps its ends inwards; the loop computes
  \<open>rev\<close>.
\<close>

function reverse_loop :: "'a list \<Rightarrow> nat \<Rightarrow> nat \<Rightarrow> 'a list" where
  "reverse_loop tmp i j =
     (if i < j then reverse_loop (tmp[i := tmp ! j, j := tmp ! i]) (i + 1) (j - 1) else tmp)"
  by pat_completeness auto
termination
  by (relation "measure (\<lambda>(tmp, i, j). j - i)") auto

declare reverse_loop.simps [simp del]

definition ReverseBytes :: "'a list \<Rightarrow> 'a list" where
  "ReverseBytes a = reverse_loop a 0 (length a - 1)"

lemma length_reverse_loop [simp]: "length (reverse_loop tmp i j) = length tmp"
  by (induction tmp i j rule: reverse_loop.induct) (simp add: reverse_loop.simps)

lemma reverse_loop_nth:
  assumes "j < length tmp" and "k < length tmp"
  shows "reverse_loop tmp i j ! k = (if i \<le> k \<and> k \<le> j then tmp ! (i + j - k) else tmp ! k)"
  using assms
proof (induction tmp i j arbitrary: k rule: reverse_loop.induct)
  case (1 tmp i j)
  show ?case
  proof (cases "i < j")
    case True
    then have "reverse_loop tmp i j ! k =
        reverse_loop (tmp[i := tmp ! j, j := tmp ! i]) (i + 1) (j - 1) ! k"
      by (simp add: reverse_loop.simps [of tmp i j])
    also have "\<dots> = (if i + 1 \<le> k \<and> k \<le> j - 1
        then tmp[i := tmp ! j, j := tmp ! i] ! (i + 1 + (j - 1) - k)
        else tmp[i := tmp ! j, j := tmp ! i] ! k)"
      using "1.prems" True by (intro "1.IH") auto
    also have "\<dots> = (if i \<le> k \<and> k \<le> j then tmp ! (i + j - k) else tmp ! k)"
      using "1.prems" True by (auto simp: nth_list_update)
    finally show ?thesis .
  next
    case False
    then have "i \<le> k \<and> k \<le> j \<Longrightarrow> i + j - k = k" by linarith
    with False show ?thesis by (auto simp: reverse_loop.simps [of tmp i j])
  qed
qed

lemma ReverseBytes_rev [simp, code]: "ReverseBytes a = rev a"
proof (cases "a = []")
  case True
  then show ?thesis by (simp add: ReverseBytes_def reverse_loop.simps)
next
  case False
  show ?thesis
  proof (rule nth_equalityI)
    fix k
    assume "k < length (ReverseBytes a)"
    then have "k < length a" by (simp add: ReverseBytes_def)
    with False show "ReverseBytes a ! k = rev a ! k"
      by (auto simp: ReverseBytes_def reverse_loop_nth rev_nth)
  qed (simp add: ReverseBytes_def)
qed

section \<open>Little-endian integers\<close>

text \<open>
  \<open>le_bytes k v\<close> are the \<open>k\<close> low bytes of \<open>v\<close>, least significant first (what
  \<open>binary.LittleEndian.PutUint16\<close>, \<open>PutUint32\<close> and \<open>PutUint64\<close> write), and
  \<open>le_join\<close> puts bytes together again.
\<close>

primrec le_bytes :: "nat \<Rightarrow> 'a::len word \<Rightarrow> bytes" where
  "le_bytes 0 v = []"
| "le_bytes (Suc k) v = ucast v # le_bytes k (drop_bit 8 v)"

primrec le_join :: "bytes \<Rightarrow> 'a::len word" where
  "le_join [] = 0"
| "le_join (b # bs) = ucast b OR push_bit 8 (le_join bs)"

definition le16 :: "u16 \<Rightarrow> bytes" where
  "le16 v = le_bytes 2 v"

definition le32 :: "u32 \<Rightarrow> bytes" where
  "le32 v = le_bytes 4 v"

definition le64 :: "u64 \<Rightarrow> bytes" where
  "le64 v = le_bytes 8 v"

text \<open>
  The decoders read the first bytes of the slice and panic on a shorter one, as
  \<open>binary.LittleEndian.Uint32\<close> does through its bounds check.
\<close>

definition uint16_le :: "bytes \<Rightarrow> u16 res" where
  "uint16_le bs = (if 2 \<le> length bs then Ok (le_join (take 2 bs)) else Panic IndexOutOfRange)"

definition uint32_le :: "bytes \<Rightarrow> u32 res" where
  "uint32_le bs = (if 4 \<le> length bs then Ok (le_join (take 4 bs)) else Panic IndexOutOfRange)"

definition uint64_le :: "bytes \<Rightarrow> u64 res" where
  "uint64_le bs = (if 8 \<le> length bs then Ok (le_join (take 8 bs)) else Panic IndexOutOfRange)"

definition uint32_be :: "bytes \<Rightarrow> u32 res" where
  "uint32_be bs =
     (if 4 \<le> length bs then Ok (le_join (rev (take 4 bs))) else Panic IndexOutOfRange)"

lemma length_le_bytes [simp]: "length (le_bytes k v) = k"
  by (induction k arbitrary: v) simp_all

lemma length_le [simp]: "length (le16 v) = 2" "length (le32 w) = 4" "length (le64 x) = 8"
  by (simp_all add: le16_def le32_def le64_def)

lemma nth_le_bytes: "i < k \<Longrightarrow> le_bytes k v ! i = ucast (drop_bit (8 * i) v)"
  by (induction k arbitrary: v i) (auto simp: nth_Cons ac_simps split: nat.split)

lemma bit_le_join:
  "bit (le_join bs :: 'a::len word) n \<longleftrightarrow>
     n < LENGTH('a) \<and> n < 8 * length bs \<and> bit (bs ! (n div 8)) (n mod 8)"
proof (induction bs arbitrary: n)
  case Nil
  then show ?case by simp
next
  case (Cons b bs)
  show ?case
  proof (cases "n < 8")
    case True
    then show ?thesis by (auto simp: bit_simps)
  next
    case False
    then obtain m where "n = m + 8" by (metis add.commute le_Suc_ex not_less)
    moreover have "(m + 8) div 8 = Suc (m div 8)" by simp
    ultimately show ?thesis by (auto simp: bit_simps Cons.IH dest: bit_imp_le_length)
  qed
qed

lemma le_join_le_bytes: "le_join (le_bytes k v) = take_bit (8 * k) v"
  by (rule bit_word_eqI)
    (auto simp: bit_simps bit_le_join nth_le_bytes less_mult_imp_div_less mult.commute)

lemma le_bytes_le_join:
  assumes "8 * length bs \<le> LENGTH('a::len)"
  shows "le_bytes (length bs) (le_join bs :: 'a word) = bs"
proof (rule nth_equalityI)
  fix i
  assume i: "i < length (le_bytes (length bs) (le_join bs :: 'a word))"
  have "ucast (drop_bit (8 * i) (le_join bs :: 'a word)) = bs ! i"
  proof (rule bit_word_eqI)
    fix n
    assume n: "n < LENGTH(8)"
    then have "(8 * i + n) div 8 = i" "(8 * i + n) mod 8 = n" "8 * i + n < 8 * length bs"
      using i by simp_all
    with n assms show "bit (ucast (drop_bit (8 * i) (le_join bs :: 'a word)) :: byte) n = bit (bs ! i) n"
      by (auto simp: bit_simps bit_le_join)
  qed
  with i show "le_bytes (length bs) (le_join bs :: 'a word) ! i = bs ! i"
    by (simp add: nth_le_bytes)
qed simp

lemma le_join_full: "LENGTH('a::len) \<le> 8 * k \<Longrightarrow> le_join (le_bytes k v) = (v :: 'a word)"
  by (rule bit_word_eqI) (auto simp: le_join_le_bytes bit_simps)

lemma uint_le_append [simp]:
  "uint16_le (le16 u @ r) = Ok u"
  "uint32_le (le32 v @ r) = Ok v"
  "uint64_le (le64 w @ r) = Ok w"
  by (simp_all add: uint16_le_def uint32_le_def uint64_le_def le16_def le32_def le64_def
      le_join_full)

lemma uint_le_le [simp]:
  "uint16_le (le16 u) = Ok u" "uint32_le (le32 v) = Ok v" "uint64_le (le64 w) = Ok w"
  using uint_le_append [where r = "[]"] by simp_all

lemma le32_uint32_le: "length bs = 4 \<Longrightarrow> uint32_le bs = Ok v \<Longrightarrow> le32 v = bs"
  using le_bytes_le_join [of bs, where ?'a = 32] by (auto simp: uint32_le_def le32_def)

end
