(* ===== verification/Sha256.thy ===== *)
theory Sha256
  imports Go_Bytes
begin

text \<open>
  SHA-256 as \<open>crypto/sha256.Sum256\<close> computes it, and the double hash of
  \<open>go-bk/crypto.Sha256d\<close> and \<open>endian.go\<close>. The components rely on its width only:
  the digest of any message has 32 bytes.
\<close>

text \<open>The round constants, eight to a row, in big-endian hex.\<close>

definition be32_word :: "byte \<Rightarrow> byte \<Rightarrow> byte \<Rightarrow> byte \<Rightarrow> u32" where
  "be32_word a b c d =
     push_bit 24 (ucast a) OR push_bit 16 (ucast b) OR push_bit 8 (ucast c) OR ucast d"

fun be_words :: "bytes \<Rightarrow> u32 list" where
  "be_words (a # b # c # d # r) = be32_word a b c d # be_words r"
| "be_words _ = []"

definition sha_k :: "u32 list" where
  "sha_k = be_words (concat (map (\<lambda>row. fst (hexDecode row)) [
     ''428a2f9871374491b5c0fbcfe9b5dba53956c25b59f111f1923f82a4ab1c5ed5'',
     ''d807aa9812835b01243185be550c7dc372be5d7480deb1fe9bdc06a7c19bf174'',
     ''e49b69c1efbe47860fc19dc6240ca1cc2de92c6f4a7484aa5cb0a9dc76f988da'',
     ''983e5152a831c66db00327c8bf597fc7c6e00bf3d5a7914706ca635114292967'',
     ''27b70a852e1b21384d2c6dfc53380d13650a7354766a0abb81c2c92e92722c85'',
     ''a2bfe8a1a81a664bc24b8b70c76c51a3d192e819d6990624f40e3585106aa070'',
     ''19a4c1161e376c082748774c34b0bcb5391c0cb34ed8aa4a5b9cca4f682e6ff3'',
     ''748f82ee78a5636f84c878148cc7020890befffaa4506cebbef9a3f7c67178f2'']))"

text \<open>The chaining value: eight 32-bit words.\<close>

datatype sha_state = ShaState u32 u32 u32 u32 u32 u32 u32 u32

definition sha_init :: sha_state where
  "sha_init = ShaState 0x6a09e667 0xbb67ae85 0x3c6ef372 0xa54ff53a
                       0x510e527f 0x9b05688c 0x1f83d9ab 0x5be0cd19"

definition rotr :: "nat \<Rightarrow> u32 \<Rightarrow> u32" where
  "rotr n x = drop_bit n x OR push_bit (32 - n) x"

definition small_sigma0 :: "u32 \<Rightarrow> u32" where
  "small_sigma0 x = rotr 7 x XOR rotr 18 x XOR drop_bit 3 x"

definition small_sigma1 :: "u32 \<Rightarrow> u32" where
  "small_sigma1 x = rotr 17 x XOR rotr 19 x XOR drop_bit 10 x"

definition big_sigma0 :: "u32 \<Rightarrow> u32" where
  "big_sigma0 x = rotr 2 x XOR rotr 13 x XOR rotr 22 x"

definition big_sigma1 :: "u32 \<Rightarrow> u32" where
  "big_sigma1 x = rotr 6 x XOR rotr 11 x XOR rotr 25 x"

text \<open>
  The message schedule keeps a window of the last sixteen words, oldest first, and emits
  the oldest one in each round.
\<close>

fun sha_round :: "u32 \<Rightarrow> u32 \<Rightarrow> sha_state \<Rightarrow> sha_state" where
  "sha_round k w (ShaState a b c d e f g h) =
     (let t1 = h + big_sigma1 e + ((e AND f) XOR (NOT e AND g)) + k + w;
          t2 = big_sigma0 a + ((a AND b) XOR (a AND c) XOR (b AND c))
      in ShaState (t1 + t2) a b c (d + t1) e f g)"

definition schedule_next :: "u32 list \<Rightarrow> u32" where
  "schedule_next ws = small_sigma1 (ws ! 14) + ws ! 9 + small_sigma0 (ws ! 1) + ws ! 0"

fun sha_rounds :: "u32 list \<Rightarrow> u32 list \<Rightarrow> sha_state \<Rightarrow> sha_state" where
  "sha_rounds [] ws s = s"
| "sha_rounds (k # ks) ws s =
     sha_rounds ks (tl ws @ [schedule_next ws]) (sha_round k (hd ws) s)"

fun sha_add :: "sha_state \<Rightarrow> sha_state \<Rightarrow> sha_state" where
  "sha_add (ShaState a b c d e f g h) (ShaState a' b' c' d' e' f' g' h') =
     ShaState (a + a') (b + b') (c + c') (d + d') (e + e') (f + f') (g + g') (h + h')"

definition sha_block :: "sha_state \<Rightarrow> bytes \<Rightarrow> sha_state" where
  "sha_block s blk = sha_add s (sha_rounds sha_k (be_words blk) s)"

fun sha_blocks :: "nat \<Rightarrow> sha_state \<Rightarrow> bytes \<Rightarrow> sha_state" where
  "sha_blocks 0 s bs = s"
| "sha_blocks (Suc n) s bs = sha_blocks n (sha_block s (take 64 bs)) (drop 64 bs)"

text \<open>
  Padding: a one bit, zeros, and the length of the message in bits as a 64-bit
  big-endian number, up to a multiple of 64 bytes.
\<close>

definition sha_pad :: "bytes \<Rightarrow> bytes" where
  "sha_pad m =
     m @ 0x80 # replicate ((119 - length m mod 64) mod 64) 0
       @ rev (le64 (8 * of_nat (length m)))"

definition be32 :: "u32 \<Rightarrow> bytes" where
  "be32 v = rev (le32 v)"

fun sha_digest :: "sha_state \<Rightarrow> bytes" where
  "sha_digest (ShaState a b c d e f g h) =
     be32 a @ be32 b @ be32 c @ be32 d @ be32 e @ be32 f @ be32 g @ be32 h"

definition sha256 :: "bytes \<Rightarrow> bytes" where
  "sha256 m =
     (let p = sha_pad m in sha_digest (sha_blocks (length p div 64) sha_init p))"

definition Sha256d :: "bytes \<Rightarrow> bytes" where
  "Sha256d b = sha256 (sha256 b)"

lemma length_sha_digest [simp]: "length (sha_digest s) = 32"
  by (cases s) (simp add: be32_def)

lemma length_sha256 [simp]: "length (sha256 m) = 32"
  by (simp add: sha256_def Let_def)

lemma length_Sha256d [simp]: "length (Sha256d m) = 32"
  by (simp add: Sha256d_def)

lemma length_sha_pad: "length (sha_pad m) mod 64 = 0"
proof -
  define r where "r = length m mod 64"
  have r: "r < 64" by (simp add: r_def)
  have pad: "(119 - r) mod 64 = (if r \<le> 55 then 55 - r else 119 - r)"
  proof (cases "r \<le> 55")
    case True
    then have "119 - r = 64 + (55 - r)" by simp
    with True show ?thesis by (simp only: mod_add_self1) simp
  qed (use r in simp)
  have "length (sha_pad m) = length m + ((119 - r) mod 64 + 9)"
    by (simp add: sha_pad_def r_def)
  then have "length (sha_pad m) mod 64 = (r + ((119 - r) mod 64 + 9)) mod 64"
    by (simp add: r_def mod_add_left_eq)
  then show ?thesis using r by (cases "r \<le> 55") (simp_all add: pad)
qed

text \<open>Distinct messages with one digest.\<close>

definition sha_collision :: "bytes \<Rightarrow> bytes \<Rightarrow> bool" where
  "sha_collision x y \<longleftrightarrow> x \<noteq> y \<and> Sha256d x = Sha256d y"

end
