(* ===== verification/Var_Int.thy ===== *)
theory Var_Int
  imports Go_Bytes
begin

text \<open>
  \<open>bt.VarInt\<close> (\<open>go-bt/v2/varint.go\<close>): the variable-length integers in front of every
  counted field, read from a slice (\<open>NewVarIntFromBytes\<close>, panicking on a short slice) or
  from an \<open>io.Reader\<close> (\<open>ReadFrom\<close>, returning an error).
\<close>

section \<open>Decimal numbers in messages\<close>

text \<open>\<open>%d\<close> of \<open>fmt.Errorf\<close>.\<close>

fun show_nat :: "nat \<Rightarrow> string" where
  "show_nat n =
     (if n < 10 then [char_of (48 + n)] else show_nat (n div 10) @ [char_of (48 + n mod 10)])"

declare show_nat.simps [simp del]

section \<open>Reading from an io.Reader over a byte slice\<close>

text \<open>\<open>io.ReadFull\<close> into a buffer of \<open>n\<close> bytes.\<close>

definition io_ReadFull :: "nat \<Rightarrow> bytes reader" where
  "io_ReadFull n bs =
     (if n \<le> length bs then Ok (take n bs, drop n bs)
      else if bs = [] then Err EOF else Err UnexpectedEOF)"

text \<open>\<open>errors.Wrap\<close> around a failed call; \<open>f\<close> is the message for the bytes that were left.\<close>

definition wrap_err :: "string \<Rightarrow> 'a res \<Rightarrow> 'a res" where
  "wrap_err msg m = (case m of Err e \<Rightarrow> Err (WrapErr e msg) | _ \<Rightarrow> m)"

lemma io_ReadFull_append [simp]: "length a = n \<Longrightarrow> io_ReadFull n (a @ r) = Ok (a, r)"
  by (simp add: io_ReadFull_def)

lemma io_ReadFull_all [simp]: "length a = n \<Longrightarrow> io_ReadFull n a = Ok (a, [])"
  using io_ReadFull_append [of a n "[]"] by simp

lemma io_ReadFull_not_Panic [simp]: "io_ReadFull n bs \<noteq> Panic p"
  by (simp add: io_ReadFull_def)

lemma io_ReadFull_OkD: "io_ReadFull n bs = Ok (a, r) \<Longrightarrow> bs = a @ r \<and> length a = n"
  by (auto simp: io_ReadFull_def split: if_splits)

lemma wrap_err_Ok [simp]: "wrap_err msg (Ok x) = Ok x"
  by (simp add: wrap_err_def)

lemma wrap_err_eq_Ok [simp]: "wrap_err msg m = Ok x \<longleftrightarrow> m = Ok x"
  by (simp add: wrap_err_def split: res.splits)

lemma wrap_err_eq_Panic [simp]: "wrap_err msg m = Panic p \<longleftrightarrow> m = Panic p"
  by (simp add: wrap_err_def split: res.splits)

section \<open>The format\<close>

definition VarInt_Length :: "u64 \<Rightarrow> nat" where
  "VarInt_Length v =
     (if v < 253 then 1 else if v < 65536 then 3 else if v < 4294967296 then 5 else 9)"

definition VarInt_Bytes :: "u64 \<Rightarrow> bytes" where
  "VarInt_Bytes v =
     (if v < 0xfd then [ucast v]
      else if v < 0x10000 then 0xfd # le16 (ucast v)
      else if v < 0x100000000 then 0xfe # le32 (ucast v)
      else 0xff # le64 v)"

definition NewVarIntFromBytes :: "bytes \<Rightarrow> (u64 \<times> nat) res" where
  "NewVarIntFromBytes bb =
     bind_res (go_index bb 0) (\<lambda>t.
       if t = 0xff then
         bind_res (go_slice bb 1 9) (\<lambda>s. bind_res (uint64_le s) (\<lambda>v. Ok (v, 9)))
       else if t = 0xfe then
         bind_res (go_slice bb 1 5) (\<lambda>s. bind_res (uint32_le s) (\<lambda>v. Ok (ucast v, 5)))
       else if t = 0xfd then
         bind_res (go_slice bb 1 3) (\<lambda>s. bind_res (uint16_le s) (\<lambda>v. Ok (ucast v, 3)))
       else bind_res (uint16_le [t, 0]) (\<lambda>v. Ok (ucast v, 1)))"

text \<open>The idiom \<open>x, size := NewVarIntFromBytes(b[offset:]); offset += size\<close>.\<close>

definition read_varint :: "u64 reader" where
  "read_varint bs = bind_res (NewVarIntFromBytes bs) (\<lambda>(v, size). Ok (v, drop size bs))"

definition VarInt_ReadFrom :: "u64 reader" where
  "VarInt_ReadFrom r =
     bind_res (wrap_err ''could not read varint type'' (io_ReadFull 1 r)) (\<lambda>(b, r1).
       if b ! 0 = 0xff then
         bind_res (wrap_err (''varint(8): got '' @ show_nat (length r1) @ '' bytes'')
                     (io_ReadFull 8 r1)) (\<lambda>(bb, r2).
           bind_res (uint64_le bb) (\<lambda>v. Ok (v, r2)))
       else if b ! 0 = 0xfe then
         bind_res (wrap_err (''varint(4): got '' @ show_nat (length r1) @ '' bytes'')
                     (io_ReadFull 4 r1)) (\<lambda>(bb, r2).
           bind_res (uint32_le bb) (\<lambda>v. Ok (ucast v, r2)))
       else if b ! 0 = 0xfd then
         bind_res (wrap_err (''varint(2): got '' @ show_nat (length r1) @ '' bytes'')
                     (io_ReadFull 2 r1)) (\<lambda>(bb, r2).
           bind_res (uint16_le bb) (\<lambda>v. Ok (ucast v, r2)))
       else bind_res (uint16_le [b ! 0, 0]) (\<lambda>v. Ok (ucast v, r1)))"

section \<open>Round trip\<close>

lemma ucast_ucast_small:
  assumes "unat (v :: u64) < 2 ^ LENGTH('a::len)"
  shows "ucast (ucast v :: 'a word) = v"
proof -
  have "unat (ucast (ucast v :: 'a word) :: u64) = take_bit LENGTH('a) (unat v)"
    by (simp add: unsigned_ucast_eq unsigned_take_bit_eq)
  also have "\<dots> = unat v"
    using assms by (simp add: take_bit_nat_eq_self)
  finally show ?thesis by (simp only: word_unat_eq_iff)
qed

lemma uint16_le_byte: "uint16_le [b, 0] = Ok (ucast b)"
  by (simp add: uint16_le_def numeral_2_eq_2)

lemma VarInt_cases:
  obtains (one) "unat v < 253" "VarInt_Bytes v = [ucast v]" "VarInt_Length v = 1"
  | (three) "253 \<le> unat v" "unat v < 2 ^ 16" "VarInt_Bytes v = 0xfd # le16 (ucast v)"
      "VarInt_Length v = 3"
  | (five) "2 ^ 16 \<le> unat v" "unat v < 2 ^ 32" "VarInt_Bytes v = 0xfe # le32 (ucast v)"
      "VarInt_Length v = 5"
  | (nine) "2 ^ 32 \<le> unat v" "VarInt_Bytes v = 0xff # le64 v" "VarInt_Length v = 9"
proof -
  consider "unat v < 253" | "253 \<le> unat v" "unat v < 2 ^ 16"
    | "2 ^ 16 \<le> unat v" "unat v < 2 ^ 32" | "2 ^ 32 \<le> unat v"
    by linarith
  then show thesis
    by cases (auto simp: VarInt_Bytes_def VarInt_Length_def word_less_nat_alt intro: that)
qed

lemma length_VarInt_Bytes: "length (VarInt_Bytes v) = VarInt_Length v"
  by (cases v rule: VarInt_cases) simp_all

lemma VarInt_Bytes_not_Nil [simp]: "VarInt_Bytes v \<noteq> []"
  by (cases v rule: VarInt_cases) simp_all

lemma ucast_byte_small:
  assumes "unat (v :: u64) < 253"
  shows "ucast v \<noteq> (0xff :: byte)" "ucast v \<noteq> (0xfe :: byte)" "ucast v \<noteq> (0xfd :: byte)"
    "ucast (ucast v :: byte) = v" "ucast (ucast (ucast v :: byte) :: u16) = v"
proof -
  have u: "unat (ucast v :: byte) = unat v"
    using assms by (simp add: unsigned_ucast_eq take_bit_nat_eq_self_iff)
  then show "ucast v \<noteq> (0xff :: byte)" "ucast v \<noteq> (0xfe :: byte)" "ucast v \<noteq> (0xfd :: byte)"
    using assms by auto
  show "ucast (ucast v :: byte) = v"
    using assms by (simp add: ucast_ucast_small)
  have "unat (ucast (ucast (ucast v :: byte) :: u16) :: u64) = unat v"
    using assms by (simp add: unsigned_ucast_eq unsigned_take_bit_eq take_bit_nat_eq_self)
  then show "ucast (ucast (ucast v :: byte) :: u16) = v"
    by (simp only: word_unat_eq_iff)
qed

lemma NewVarIntFromBytes_Bytes:
  "NewVarIntFromBytes (VarInt_Bytes v @ r) = Ok (v, VarInt_Length v)"
proof (cases v rule: VarInt_cases)
  case one
  then show ?thesis
    by (simp add: NewVarIntFromBytes_def uint16_le_byte ucast_byte_small)
next
  case three
  then show ?thesis
    by (simp add: NewVarIntFromBytes_def ucast_ucast_small)
next
  case five
  then show ?thesis
    by (simp add: NewVarIntFromBytes_def ucast_ucast_small)
next
  case nine
  then show ?thesis
    by (simp add: NewVarIntFromBytes_def)
qed

lemma read_varint_Bytes: "read_varint (VarInt_Bytes v @ r) = Ok (v, r)"
  by (simp add: read_varint_def NewVarIntFromBytes_Bytes flip: length_VarInt_Bytes)

lemma VarInt_ReadFrom_Bytes: "VarInt_ReadFrom (VarInt_Bytes v @ r) = Ok (v, r)"
proof (cases v rule: VarInt_cases)
  case one
  then show ?thesis
    using io_ReadFull_append [of "[ucast v]" 1 r]
    by (simp add: VarInt_ReadFrom_def uint16_le_byte ucast_byte_small)
next
  case three
  then show ?thesis
    using io_ReadFull_append [of "[0xfd]" 1 "le16 (ucast v) @ r"]
    by (simp add: VarInt_ReadFrom_def ucast_ucast_small)
next
  case five
  then show ?thesis
    using io_ReadFull_append [of "[0xfe]" 1 "le32 (ucast v) @ r"]
    by (simp add: VarInt_ReadFrom_def ucast_ucast_small)
next
  case nine
  then show ?thesis
    using io_ReadFull_append [of "[0xff]" 1 "le64 v @ r"]
    by (simp add: VarInt_ReadFrom_def)
qed

interpretation varint: stream_codec "\<lambda>_. True" VarInt_Bytes read_varint
  by unfold_locales (rule read_varint_Bytes)

interpretation varint_io: stream_codec "\<lambda>_. True" VarInt_Bytes VarInt_ReadFrom
  by unfold_locales (rule VarInt_ReadFrom_Bytes)

text \<open>Progress: a successful read consumes at least one byte and leaves a suffix.\<close>

lemma NewVarIntFromBytes_OkD:
  "NewVarIntFromBytes bs = Ok (v, n) \<Longrightarrow> 1 \<le> n \<and> n \<le> length bs"
  by (cases bs) (auto simp: NewVarIntFromBytes_def go_simps go_index_def go_slice_def
      split: if_splits)

lemma read_varint_OkD:
  assumes "read_varint bs = Ok (v, r)"
  obtains n where "r = drop n bs" "1 \<le> n" "n \<le> length bs"
  using assms by (auto simp: read_varint_def go_simps dest!: NewVarIntFromBytes_OkD)

lemma read_varint_less: "read_varint bs = Ok (v, r) \<Longrightarrow> length r < length bs"
  by (erule read_varint_OkD) auto

lemma NewVarIntFromBytes_not_Err [simp]: "NewVarIntFromBytes bs \<noteq> Err e"
  by (cases bs) (auto simp: NewVarIntFromBytes_def go_index_def uint16_le_byte go_slice_def
      uint16_le_def
      uint32_le_def uint64_le_def)

lemma io_ReadFull_1:
  "io_ReadFull 1 bs = (case bs of [] \<Rightarrow> Err EOF | b # r \<Rightarrow> Ok ([b], r))"
  by (cases bs) (auto simp: io_ReadFull_def)

text \<open>Reading from an \<open>io.Reader\<close> never panics.\<close>

lemma VarInt_ReadFrom_not_Panic [simp]: "VarInt_ReadFrom bs \<noteq> Panic p"
  by (cases bs) (auto simp: VarInt_ReadFrom_def io_ReadFull_1 io_ReadFull_def uint16_le_byte
      uint16_le_def uint32_le_def uint64_le_def wrap_err_def)

lemma VarInt_ReadFrom_less:
  assumes "VarInt_ReadFrom bs = Ok (v, r)"
  shows "length r < length bs"
  using assms
  by (cases bs) (auto simp: VarInt_ReadFrom_def io_ReadFull_1 io_ReadFull_def go_simps
      split: if_splits)

end
