(* ===== verification/Go_Slices.thy ===== *)
theory Go_Slices
  imports Var_Int
begin

text \<open>
  Slices with spare capacity. A slice expression \<open>b[i:j]\<close> keeps the array of \<open>b\<close>, so its bytes
  are followed, within its capacity, by the bytes of \<open>b\<close> behind it; and the runtime bounds the
  upper end of a slice expression by the capacity, not by the length, while an index and the lower
  end of \<open>b[i:]\<close> are bounded by the length. A parser that is handed a part of a larger buffer can
  therefore read past its end, and this theory models such parsers: they move a cursor, which may
  pass the end of the slice. \<open>slice_reader\<close> relates each to the reader of \<open>Go_Prelude\<close> that
  models it on a slice without spare capacity.
\<close>

text \<open>The bytes of a slice, and the bytes behind them up to its capacity.\<close>

type_synonym slice = "bytes \<times> bytes"

text \<open>\<open>len(b) - offset\<close>, negative past the end, and the bytes from \<open>offset\<close> to the capacity.\<close>

type_synonym cursor = "int \<times> bytes"

type_synonym 'a cursor_reader = "cursor \<Rightarrow> ('a \<times> cursor) res"

definition cursor_of :: "slice \<Rightarrow> cursor" where
  "cursor_of b = (int (length (fst b)), fst b @ snd b)"

text \<open>\<open>b[offset]; offset++\<close>\<close>

definition slice_byte :: "byte cursor_reader" where
  "slice_byte c =
     (if fst c \<le> 0 then Panic IndexOutOfRange
      else bind_res (next_byte (snd c)) (\<lambda>(x, r). Ok (x, fst c - 1, r)))"

text \<open>\<open>b[offset:offset+n]; offset += n\<close>\<close>

definition slice_take :: "nat \<Rightarrow> bytes cursor_reader" where
  "slice_take n c = bind_res (take_bytes n (snd c)) (\<lambda>(x, r). Ok (x, fst c - int n, r))"

text \<open>\<open>x, size := NewVarIntFromBytes(b[offset:]); offset += size\<close>: the first byte must be within the
  length, the others within the capacity.\<close>

definition slice_varint :: "u64 cursor_reader" where
  "slice_varint c =
     (if fst c < 0 then Panic SliceOutOfRange
      else if fst c = 0 then Panic IndexOutOfRange
      else bind_res (NewVarIntFromBytes (snd c)) (\<lambda>(x, size). Ok (x, fst c - int size, drop size (snd c))))"

fun slice_many :: "'a cursor_reader \<Rightarrow> nat \<Rightarrow> 'a list cursor_reader" where
  "slice_many rd 0 c = Ok ([], c)"
| "slice_many rd (Suc n) c =
     bind_res (rd c) (\<lambda>(x, c1). bind_res (slice_many rd n c1) (\<lambda>(xs, c2). Ok (x # xs, c2)))"

text \<open>
  \<open>hex.DecodeString\<close> says nothing of the capacity of the slice it returns; the one of Go 1.17
  decodes in place and leaves half of the text behind it. The bytes \<open>spare\<close> behind it are an argument.
\<close>

definition hex_DecodeSlice :: "bytes \<Rightarrow> string \<Rightarrow> slice res" where
  "hex_DecodeSlice spare s = bind_res (hex_DecodeString s) (\<lambda>b. Ok (b, spare))"

section \<open>Readers with and without spare capacity\<close>

text \<open>
  The contract between a reader \<open>rd\<close> of slices without spare capacity and the reader \<open>crd\<close> of the
  same format on any slice: without spare capacity they agree; what \<open>rd\<close> returns, \<open>crd\<close> returns,
  whatever lies behind the slice; and what \<open>crd\<close> returns, \<open>rd\<close> returns on the whole capacity. They
  differ where \<open>rd\<close> panics only.
\<close>

locale slice_reader =
  fixes rd :: "'a reader" and crd :: "'a cursor_reader"
  assumes alone: "crd (int (length p), p) = bind_res (rd p) (\<lambda>(x, r). Ok (x, int (length r), r))"
    and inside: "\<forall>q. rd p \<noteq> Panic q \<Longrightarrow>
      crd (int (length p), p @ s) = bind_res (rd p) (\<lambda>(x, r). Ok (x, int (length r), r @ s))"
    and whole: "crd (k, bs) = Ok (x, k', r) \<Longrightarrow> rd bs = Ok (x, r)"
begin

lemma cursor_alone: "crd (cursor_of (p, [])) = bind_res (rd p) (\<lambda>(x, r). Ok (x, int (length r), r))"
  by (simp add: cursor_of_def alone)

lemma cursor_inside: "rd p = Ok (x, r) \<Longrightarrow> crd (cursor_of (p, s)) = Ok (x, int (length r), r @ s)"
  using inside [of p s] by (simp add: cursor_of_def)

lemma cursor_whole: "crd (cursor_of (p, s)) = Ok (x, k, r) \<Longrightarrow> rd (p @ s) = Ok (x, r)"
  by (auto simp: cursor_of_def dest: whole)

text \<open>A parser that starts with \<open>rd\<close> and drops what is left.\<close>

lemma parser_alone:
  "bind_res (crd (cursor_of (p, []))) (\<lambda>(x, c). f x) = bind_res (rd p) (\<lambda>(x, r). f x)"
  by (cases "rd p") (auto simp: cursor_alone)

lemma parser_inside:
  "\<forall>q. rd p \<noteq> Panic q \<Longrightarrow>
     bind_res (crd (cursor_of (p, s))) (\<lambda>(x, c). f x) = bind_res (rd p) (\<lambda>(x, r). f x)"
  using inside [of p s] by (cases "rd p") (auto simp: cursor_of_def)

end

lemma slice_reader_return: "slice_reader (\<lambda>b. Ok (x, b)) (\<lambda>c. Ok (x, c))"
  by unfold_locales simp_all

lemma slice_reader_Err: "slice_reader (\<lambda>b. Err e) (\<lambda>c. Err e)"
  by unfold_locales simp_all

lemma slice_reader_if:
  "(P \<Longrightarrow> slice_reader f cf) \<Longrightarrow> (\<not> P \<Longrightarrow> slice_reader g cg) \<Longrightarrow>
     slice_reader (\<lambda>b. if P then f b else g b) (\<lambda>c. if P then cf c else cg c)"
  by (cases P) simp_all

lemma slice_reader_bind:
  assumes "slice_reader rd crd" "\<And>x. slice_reader (f x) (cf x)"
  shows "slice_reader (\<lambda>b. bind_res (rd b) (\<lambda>(x, r). f x r)) (\<lambda>c. bind_res (crd c) (\<lambda>(x, c'). cf x c'))"
proof
  fix p s :: bytes and k x k' r
  show "bind_res (crd (int (length p), p)) (\<lambda>(x, c'). cf x c') =
      bind_res (bind_res (rd p) (\<lambda>(x, r). f x r)) (\<lambda>(x, r). Ok (x, int (length r), r))"
    unfolding slice_reader.alone [OF assms(1)]
    by (cases "rd p") (auto simp: slice_reader.alone [OF assms(2)])
  show "bind_res (crd (int (length p), p @ s)) (\<lambda>(x, c'). cf x c') =
      bind_res (bind_res (rd p) (\<lambda>(x, r). f x r)) (\<lambda>(x, r). Ok (x, int (length r), r @ s))"
    if "\<forall>q. bind_res (rd p) (\<lambda>(x, r). f x r) \<noteq> Panic q"
    using that slice_reader.inside [OF assms(1), of p s]
    by (cases "rd p") (auto simp: slice_reader.inside [OF assms(2)])
  show "bind_res (rd bs) (\<lambda>(x, r). f x r) = Ok (x, r)"
    if "bind_res (crd (k, bs)) (\<lambda>(x, c'). cf x c') = Ok (x, k', r)" for bs
    using that
    by (auto simp: bind_res_eq_Ok dest!: slice_reader.whole [OF assms(1)] slice_reader.whole [OF assms(2)])
qed

lemma NewVarIntFromBytes_append:
  "NewVarIntFromBytes p = Ok (x, n) \<Longrightarrow> NewVarIntFromBytes (p @ s) = Ok (x, n)"
  by (cases p) (auto simp: NewVarIntFromBytes_def go_simps go_index_def go_slice_def split: if_splits)

lemma NewVarIntFromBytes_Nil [simp]: "NewVarIntFromBytes [] = Panic IndexOutOfRange"
  by (simp add: NewVarIntFromBytes_def go_index_def)

interpretation slice_byte: slice_reader next_byte slice_byte
proof
  show "slice_byte (int (length p), p) = bind_res (next_byte p) (\<lambda>(x, r). Ok (x, int (length r), r))" for p
    by (cases p) (simp_all add: slice_byte_def)
  show "slice_byte (int (length p), p @ s) = bind_res (next_byte p) (\<lambda>(x, r). Ok (x, int (length r), r @ s))"
    if "\<forall>q. next_byte p \<noteq> Panic q" for p s
    using that by (cases p) (simp_all add: slice_byte_def)
qed (auto simp: slice_byte_def go_simps split: if_splits)

interpretation slice_take: slice_reader "take_bytes n" "slice_take n" for n
  by unfold_locales (auto simp: slice_take_def take_bytes_def go_simps split: if_splits)

interpretation slice_varint: slice_reader read_varint slice_varint
proof
  show "slice_varint (int (length p), p) = bind_res (read_varint p) (\<lambda>(x, r). Ok (x, int (length r), r))" for p
  proof (cases "p = []")
    case False
    then show ?thesis
      by (cases "NewVarIntFromBytes p")
        (auto simp: slice_varint_def read_varint_def of_nat_diff dest: NewVarIntFromBytes_OkD)
  qed (simp add: slice_varint_def read_varint_def)
  show "slice_varint (int (length p), p @ s) = bind_res (read_varint p) (\<lambda>(x, r). Ok (x, int (length r), r @ s))"
    if "\<forall>q. read_varint p \<noteq> Panic q" for p s
  proof (cases "NewVarIntFromBytes p")
    case (Ok y)
    then obtain x n where "NewVarIntFromBytes p = Ok (x, n)" by (cases y) simp
    with NewVarIntFromBytes_OkD [OF this] NewVarIntFromBytes_append [OF this, of s] show ?thesis
      by (auto simp: slice_varint_def read_varint_def of_nat_diff)
  qed (use that in \<open>auto simp: read_varint_def\<close>)
qed (auto simp: slice_varint_def read_varint_def go_simps split: if_splits)

text \<open>Reading what was written at the start of a slice.\<close>

lemma slice_byte_Cons [simp]: "slice_byte (cursor_of (b # p, s)) = Ok (b, cursor_of (p, s))"
  by (simp add: slice_byte_def cursor_of_def)

lemma slice_take_append [simp]:
  "length a = n \<Longrightarrow> slice_take n (cursor_of (a @ p, s)) = Ok (a, cursor_of (p, s))"
  by (simp add: slice_take_def cursor_of_def)

lemma slice_varint_Bytes [simp]:
  "slice_varint (cursor_of (VarInt_Bytes v @ p, s)) = Ok (v, cursor_of (p, s))"
  using slice_varint.cursor_inside [OF read_varint_Bytes, of v p s] by (simp add: cursor_of_def)

lemma cursor_at_end [simp]: "fst (cursor_of (p, s)) \<le> 0 \<longleftrightarrow> p = []"
  by (simp add: cursor_of_def)

lemma hex_DecodeSlice_Encode [simp]: "hex_DecodeSlice spare (hex_EncodeToString b) = Ok (b, spare)"
  by (simp add: hex_DecodeSlice_def)

lemma fst_cursor_of: "fst (cursor_of b) = int (length (fst b))"
  by (simp add: cursor_of_def)

text \<open>A counted sequence.\<close>

lemma slice_many_OkD: "slice_many rd n c = Ok (xs, c') \<Longrightarrow> length xs = n"
  by (induction n arbitrary: c xs) (auto simp: go_simps split: prod.splits)

lemma slice_many_all:
  assumes "\<And>c x c'. rd c = Ok (x, c') \<Longrightarrow> P x" "slice_many rd n c = Ok (xs, c')"
  shows "list_all P xs"
  using assms(2) by (induction n arbitrary: c xs) (auto simp: go_simps dest: assms(1) split: prod.splits)

text \<open>The contract of a serialiser and the reader of its format on any slice, as \<open>stream_codec\<close>.\<close>

locale slice_codec =
  fixes wf :: "'a \<Rightarrow> bool" and enc :: "'a \<Rightarrow> bytes" and crd :: "'a cursor_reader"
  assumes crd_enc: "wf x \<Longrightarrow> crd (cursor_of (enc x @ p, s)) = Ok (x, cursor_of (p, s))"
begin

lemma slice_many_enc:
  "list_all wf xs \<Longrightarrow>
     slice_many crd (length xs) (cursor_of (concat (map enc xs) @ p, s)) = Ok (xs, cursor_of (p, s))"
  by (induction xs) (auto simp: crd_enc)

lemma crd_inject:
  assumes "wf x" "wf y" "enc x @ p = enc y @ q"
  shows "x = y \<and> p = q"
proof -
  have "Ok (x, cursor_of (p, [])) = Ok (y, cursor_of (q, []))"
    using crd_enc [OF assms(1), of p "[]"] crd_enc [OF assms(2), of q "[]"] assms(3) by simp
  then show ?thesis by (simp add: cursor_of_def)
qed

end

interpretation varint_slice: slice_codec "\<lambda>_. True" VarInt_Bytes slice_varint
  by unfold_locales simp

text \<open>Progress.\<close>

lemma slice_varint_less: "slice_varint c = Ok (v, c') \<Longrightarrow> length (snd c') < length (snd c)"
  by (auto simp: slice_varint_def go_simps dest!: NewVarIntFromBytes_OkD split: if_splits)

lemma slice_take_rest: "slice_take n c = Ok (x, c') \<Longrightarrow> length (snd c') \<le> length (snd c)"
  by (auto simp: slice_take_def take_bytes_def go_simps split: if_splits)

end
