(* ===== verification/Byte_Manip.thy ===== *)
theory Byte_Manip
  imports Sha256 Go_Slices "HOL-Library.List_Lexorder" "HOL-Library.Multiset"
begin

text \<open>
  \<open>bytemanipulation.go\<close> and \<open>endian.go\<close>: sorting byte arrays, reversing hex strings,
  comparing and decoding, and the byte-reversed hex form in which hashes are displayed.
\<close>

section \<open>bytemanipulation.go\<close>

text \<open>\<open>bytes.Compare\<close>: lexicographic, a proper prefix is smaller.\<close>

fun bytes_Compare :: "bytes \<Rightarrow> bytes \<Rightarrow> int" where
  "bytes_Compare [] [] = 0"
| "bytes_Compare [] (_ # _) = - 1"
| "bytes_Compare (_ # _) [] = 1"
| "bytes_Compare (x # xs) (y # ys) =
     (if x < y then - 1 else if y < x then 1 else bytes_Compare xs ys)"

definition sortByteArrays_Less :: "bytes list \<Rightarrow> nat \<Rightarrow> nat \<Rightarrow> bool" where
  "sortByteArrays_Less b i j \<longleftrightarrow> bytes_Compare (b ! i) (b ! j) = - 1"

definition sortByteArrays_Swap :: "bytes list \<Rightarrow> nat \<Rightarrow> nat \<Rightarrow> bytes list" where
  "sortByteArrays_Swap b i j = b[j := b ! i, i := b ! j]"

text \<open>
  \<open>sort.Sort\<close> reorders through \<open>Swap\<close> until \<open>Less\<close> holds for no pair that is out of
  order. The model moves each element down by adjacent swaps; the result does not depend on
  the strategy (\<open>SortByteArrays_unique\<close>).
\<close>

fun sift_down :: "nat \<Rightarrow> bytes list \<Rightarrow> bytes list" where
  "sift_down 0 b = b"
| "sift_down (Suc j) b =
     (if sortByteArrays_Less b (Suc j) j then sift_down j (sortByteArrays_Swap b j (Suc j)) else b)"

definition SortByteArrays :: "bytes list \<Rightarrow> bytes list" where
  "SortByteArrays src = fold sift_down [0..<length src] src"

text \<open>\<open>for i := len(hex); i >= 2; i -= 2 { res += hex[i-2 : i] }\<close>\<close>

fun reverse_pairs :: "string \<Rightarrow> nat \<Rightarrow> string" where
  "reverse_pairs h (Suc (Suc i)) = take 2 (drop i h) @ reverse_pairs h i"
| "reverse_pairs h _ = []"

definition ReverseHexString :: "string \<Rightarrow> string" where
  "ReverseHexString hx =
     (let h = (if length hx mod 2 \<noteq> 0 then CHR ''0'' # hx else hx)
      in reverse_pairs h (length h))"

text \<open>\<open>for i, x := range b1 { if x != b2[i] { return false } }\<close>\<close>

fun equal_from :: "bytes \<Rightarrow> bytes \<Rightarrow> nat \<Rightarrow> bool res" where
  "equal_from [] b2 i = Ok True"
| "equal_from (x # xs) b2 i =
     bind_res (go_index b2 i) (\<lambda>y. if x \<noteq> y then Ok False else equal_from xs b2 (Suc i))"

definition Equals :: "bytes \<Rightarrow> bytes \<Rightarrow> bool res" where
  "Equals b1 b2 = (if length b1 \<noteq> length b2 then Ok False else equal_from b1 b2 0)"

text \<open>\<open>b[0:32]\<close> is bounded by the capacity of what was decoded.\<close>

definition Decode32Byte :: "bytes \<Rightarrow> string \<Rightarrow> bytes res" where
  "Decode32Byte spare hexStr =
     bind_res (hex_DecodeSlice spare hexStr) (\<lambda>b.
     bind_res (slice_take 32 (cursor_of b)) (\<lambda>(b32, _). Ok b32))"

definition UInt32ToBytes :: "u32 \<Rightarrow> bytes" where
  "UInt32ToBytes num = le32 num"

section \<open>endian.go\<close>

text \<open>The error of \<open>hex.DecodeString\<close> is dropped, the bytes before it are used.\<close>

definition BytesFromStringReverse :: "string \<Rightarrow> bytes" where
  "BytesFromStringReverse s = ReverseBytes (fst (hexDecode s))"

definition StringFromBytesReverse :: "bytes \<Rightarrow> string" where
  "StringFromBytesReverse h = hex_EncodeToString (ReverseBytes h)"

definition Sha256Sha256 :: "bytes \<Rightarrow> bytes" where
  "Sha256Sha256 digest = sha256 (sha256 digest)"

section \<open>Sorting\<close>

lemma bytes_Compare_less: "bytes_Compare x y = - 1 \<longleftrightarrow> x < y"
  by (induction x y rule: bytes_Compare.induct) auto

lemma bytes_Compare_range: "bytes_Compare x y \<in> {- 1, 0, 1}"
  by (induction x y rule: bytes_Compare.induct) auto

lemma sortByteArrays_Less_iff: "sortByteArrays_Less b i j \<longleftrightarrow> b ! i < b ! j"
  by (simp add: sortByteArrays_Less_def bytes_Compare_less)

lemma length_sift_down [simp]: "length (sift_down j b) = length b"
  by (induction j b rule: sift_down.induct) (simp_all add: sortByteArrays_Swap_def)

lemma mset_sift_down [simp]: "j < length b \<Longrightarrow> mset (sift_down j b) = mset b"
proof (induction j b rule: sift_down.induct)
  case (2 j b)
  then show ?case by (auto simp: sortByteArrays_Swap_def mset_swap)
qed simp

text \<open>Inserting at \<open>j\<close> into a sorted prefix leaves a sorted prefix one longer.\<close>

definition sorted_upto :: "nat \<Rightarrow> bytes list \<Rightarrow> bool" where
  "sorted_upto n b \<longleftrightarrow> (\<forall>i k. i < k \<longrightarrow> k < n \<longrightarrow> b ! i \<le> b ! k)"

text \<open>All pairs below \<open>n\<close> but those that end at position \<open>j\<close> are in order.\<close>

definition sorted_but :: "nat \<Rightarrow> nat \<Rightarrow> bytes list \<Rightarrow> bool" where
  "sorted_but j n b \<longleftrightarrow>
     (\<forall>i k. i < k \<longrightarrow> k < n \<longrightarrow> k \<noteq> j \<longrightarrow> b ! i \<le> b ! k)"

lemma sift_down_sorted:
  assumes "sorted_but j n b" "j < n" "n \<le> length b"
  shows "sorted_upto n (sift_down j b)"
  using assms
proof (induction j b rule: sift_down.induct)
  case (1 b)
  then show ?case by (auto simp: sorted_upto_def sorted_but_def)
next
  case (2 j b)
  show ?case
  proof (cases "b ! Suc j < b ! j")
    case True
    let ?b = "sortByteArrays_Swap b j (Suc j)"
    have "sorted_but j n ?b"
      unfolding sorted_but_def
    proof (intro allI impI)
      fix i k
      assume ik: "i < k" "k < n" "k \<noteq> j"
      have swap: "?b ! m = (if m = j then b ! Suc j else if m = Suc j then b ! j else b ! m)"
        if "m < n" for m
        using that "2.prems" by (auto simp: sortByteArrays_Swap_def nth_list_update)
      have ord: "b ! a \<le> b ! c" if "a < c" "c < n" "c \<noteq> Suc j" for a c
        using "2.prems"(1) that by (auto simp: sorted_but_def)
      show "?b ! i \<le> ?b ! k"
        using ik True "2.prems" ord [of i k] ord [of j k] ord [of i j]
        by (auto simp: swap less_Suc_eq intro: less_imp_le order_trans ord)
    qed
    with True 2 show ?thesis by (simp add: sortByteArrays_Less_iff sortByteArrays_Swap_def)
  next
    case False
    have "b ! i \<le> b ! k" if "i < k" "k < n" for i k
    proof (cases "k = Suc j")
      case True
      have "b ! i \<le> b ! j"
        using "2.prems" that True by (cases "i = j") (auto simp: sorted_but_def)
      with False True show ?thesis by (metis not_less order_trans)
    next
      case neq: False
      with "2.prems"(1) that show ?thesis by (auto simp: sorted_but_def)
    qed
    with False show ?thesis by (auto simp: sortByteArrays_Less_iff sorted_upto_def)
  qed
qed

lemma SortByteArrays_prefix:
  assumes "n \<le> length b"
  shows "sorted_upto n (fold sift_down [0..<n] b) \<and> mset (fold sift_down [0..<n] b) = mset b"
  using assms
proof (induction n)
  case 0
  then show ?case by (simp add: sorted_upto_def)
next
  case (Suc n)
  let ?b = "fold sift_down [0..<n] b"
  from Suc have IH: "sorted_upto n ?b" "mset ?b = mset b" by simp_all
  then have len: "length ?b = length b" by (metis size_mset)
  from IH(1) have "sorted_but n (Suc n) ?b"
    by (auto simp: sorted_but_def sorted_upto_def)
  with Suc.prems len have "sorted_upto (Suc n) (sift_down n ?b)"
    by (intro sift_down_sorted) simp_all
  with IH Suc.prems len show ?case by simp
qed

lemma SortByteArrays_sorted: "sorted (SortByteArrays src)"
  and mset_SortByteArrays: "mset (SortByteArrays src) = mset src"
  using SortByteArrays_prefix [of "length src" src]
  by (auto simp: SortByteArrays_def sorted_upto_def sorted_iff_nth_mono_less dest!: mset_eq_length)

text \<open>
  Whatever \<open>sort.Sort\<close> does with \<open>Less\<close> and \<open>Swap\<close>, a rearrangement in which no later
  element is \<open>Less\<close> than an earlier one is this list.
\<close>

lemma SortByteArrays_eq_sort: "SortByteArrays src = sort src"
  by (metis SortByteArrays_sorted mset_SortByteArrays properties_for_sort)

section \<open>Reversal of hex strings\<close>

lemma reverse_pairs_append:
  "k \<le> length a \<Longrightarrow> reverse_pairs (a @ b) k = reverse_pairs a k"
  by (induction a k rule: reverse_pairs.induct) auto

lemma reverse_pairs_snoc:
  "even (length a) \<Longrightarrow>
     reverse_pairs (a @ [x, y]) (length (a @ [x, y])) = x # y # reverse_pairs a (length a)"
  by (simp add: reverse_pairs_append numeral_2_eq_2)

text \<open>On an encoded byte string it is the encoding of the reversed bytes.\<close>

lemma ReverseHexString_Encode:
  "ReverseHexString (hex_EncodeToString b) = hex_EncodeToString (rev b)"
proof -
  have "reverse_pairs (hex_EncodeToString b) (length (hex_EncodeToString b)) =
      hex_EncodeToString (rev b)"
  proof (induction b rule: rev_induct)
    case (snoc x b)
    let ?e = "hex_EncodeToString [x]"
    obtain p q where e: "?e = [p, q]" by (simp add: hex_EncodeToString_Cons)
    have "hex_EncodeToString (b @ [x]) = hex_EncodeToString b @ [p, q]" by (simp add: e)
    moreover have "reverse_pairs (hex_EncodeToString b @ [p, q])
        (length (hex_EncodeToString b @ [p, q])) =
        p # q # reverse_pairs (hex_EncodeToString b) (length (hex_EncodeToString b))"
      by (rule reverse_pairs_snoc) simp
    moreover have "hex_EncodeToString (rev (b @ [x])) = [p, q] @ hex_EncodeToString (rev b)"
      using e hex_EncodeToString_append [of "[x]" "rev b"] by simp
    ultimately show ?case using snoc by simp
  qed simp
  then show ?thesis by (simp add: ReverseHexString_def)
qed

section \<open>Equality and decoding\<close>

lemma equal_from_eq:
  "i + length xs = length b2 \<Longrightarrow> equal_from xs b2 i = Ok (xs = drop i b2)"
proof (induction xs arbitrary: i)
  case (Cons x xs)
  then have "drop i b2 = b2 ! i # drop (Suc i) b2" by (simp add: Cons_nth_drop_Suc)
  with Cons show ?case by auto
qed simp

lemma Equals_iff: "Equals b1 b2 = Ok (b1 = b2)"
  using equal_from_eq [of 0 b1 b2] by (auto simp: Equals_def)

lemma Decode32Byte_Encode: "length b = 32 \<Longrightarrow> Decode32Byte spare (hex_EncodeToString b) = Ok b"
  using slice_take_append [of b 32 "[]" spare] by (simp add: Decode32Byte_def)

text \<open>A shorter text is filled up with whatever lies behind its bytes.\<close>

lemma Decode32Byte_short:
  "length b < 32 \<Longrightarrow> Decode32Byte spare (hex_EncodeToString b) =
     (if 32 \<le> length b + length spare then Ok (b @ take (32 - length b) spare) else Panic SliceOutOfRange)"
  by (simp add: Decode32Byte_def cursor_of_def slice_take_def take_bytes_def)

lemma Sha256Sha256_Sha256d: "Sha256Sha256 = Sha256d"
  by (simp add: fun_eq_iff Sha256Sha256_def Sha256d_def)

lemma length_Sha256Sha256 [simp]: "length (Sha256Sha256 d) = 32"
  by (simp add: Sha256Sha256_def)

lemma BytesFromStringReverse_String [simp]:
  "BytesFromStringReverse (StringFromBytesReverse h) = h"
  by (simp add: BytesFromStringReverse_def StringFromBytesReverse_def)

lemma length_StringFromBytesReverse [simp]: "length (StringFromBytesReverse h) = 2 * length h"
  by (simp add: StringFromBytesReverse_def)

lemma StringFromBytesReverse_inject [simp]:
  "StringFromBytesReverse a = StringFromBytesReverse b \<longleftrightarrow> a = b"
  by (simp add: StringFromBytesReverse_def)

lemma StringFromBytesReverse_Bytes:
  "canonical_hex s \<Longrightarrow> StringFromBytesReverse (BytesFromStringReverse s) = s"
  by (simp add: BytesFromStringReverse_def StringFromBytesReverse_def canonical_hex_def)

section \<open>Properties\<close>

text \<open>\<open>SortByteArrays\<close> returns the lexicographic sort of its argument: a rearrangement
  of the same arrays in which no array is smaller than an earlier one.\<close>

theorem SortByteArrays_spec:
  "SortByteArrays src = sort src \<and> sorted (SortByteArrays src) \<and>
   mset (SortByteArrays src) = mset src"
  by (simp add: SortByteArrays_eq_sort)

text \<open>\<open>ReverseHexString\<close> on the hex of a byte string is the hex of the reversed bytes, so
  it turns the internal form of a hash into the displayed one and back.\<close>

theorem ReverseHexString_spec:
  "ReverseHexString (hex_EncodeToString b) = StringFromBytesReverse b \<and>
   ReverseHexString (StringFromBytesReverse b) = hex_EncodeToString b"
  by (simp add: ReverseHexString_Encode StringFromBytesReverse_def)

end
