(* ===== verification/Bt_Tx.thy ===== *)
theory Bt_Tx
  imports Var_Int Sha256
begin

text \<open>
  The transactions of \<open>go-bt/v2\<close> (vendored): \<open>Input\<close>, \<open>Output\<close> and \<open>Tx\<close> with their
  binary format, as far as go-bc uses them: \<open>Tx.Bytes\<close>, \<open>Tx.TxID\<close>, \<open>NewTxFromStream\<close>,
  \<open>NewTxFromBytes\<close>, \<open>NewTxFromString\<close>. The readers run over an \<open>io.Reader\<close> on the
  slice; the byte count they return with an error is used by no caller and is left out.
\<close>

record Input =
  in_previousTxID :: bytes
  in_PreviousTxSatoshis :: u64
  in_PreviousTxScript :: "bytes option"
  in_UnlockingScript :: "bytes option"
  in_PreviousTxOutIndex :: u32
  in_SequenceNumber :: u32

text \<open>Every output the code builds or parses carries a locking script.\<close>

record Output =
  out_Satoshis :: u64
  out_LockingScript :: bytes

record Tx =
  tx_Inputs :: "Input list"
  tx_Outputs :: "Output list"
  tx_Version :: u32
  tx_LockTime :: u32

section \<open>Writing\<close>

definition Input_Bytes :: "Input \<Rightarrow> bytes" where
  "Input_Bytes i =
     ReverseBytes (in_previousTxID i) @ le32 (in_PreviousTxOutIndex i) @
     (case in_UnlockingScript i of
        None \<Rightarrow> VarInt_Bytes 0
      | Some s \<Rightarrow> VarInt_Bytes (of_nat (length s)) @ s) @
     le32 (in_SequenceNumber i)"

definition Output_Bytes :: "Output \<Rightarrow> bytes" where
  "Output_Bytes out =
     le64 (out_Satoshis out) @
     VarInt_Bytes (of_nat (length (out_LockingScript out))) @ out_LockingScript out"

definition Tx_Bytes :: "Tx \<Rightarrow> bytes" where
  "Tx_Bytes tx =
     le32 (tx_Version tx) @
     VarInt_Bytes (of_nat (length (tx_Inputs tx))) @ concat (map Input_Bytes (tx_Inputs tx)) @
     VarInt_Bytes (of_nat (length (tx_Outputs tx))) @ concat (map Output_Bytes (tx_Outputs tx)) @
     le32 (tx_LockTime tx)"

definition Tx_String :: "Tx \<Rightarrow> string" where
  "Tx_String tx = hex_EncodeToString (Tx_Bytes tx)"

definition TxIDBytes :: "Tx \<Rightarrow> bytes" where
  "TxIDBytes tx = ReverseBytes (Sha256d (Tx_Bytes tx))"

definition TxID :: "Tx \<Rightarrow> string" where
  "TxID tx = hex_EncodeToString (ReverseBytes (Sha256d (Tx_Bytes tx)))"

definition PreviousTxIDStr :: "Input \<Rightarrow> string" where
  "PreviousTxIDStr i = hex_EncodeToString (in_previousTxID i)"

text \<open>\<open>OutputIdx\<close> gives \<open>nil\<close> past the end.\<close>

definition OutputIdx :: "Tx \<Rightarrow> nat \<Rightarrow> Output option" where
  "OutputIdx tx i = (if i < length (tx_Outputs tx) then Some (tx_Outputs tx ! i) else None)"

section \<open>Reading\<close>

text \<open>
  \<open>make([]byte, l)\<close> panics when the size is beyond the address space of the runtime,
  \<open>2^48\<close> bytes on 64-bit platforms.
\<close>

definition max_alloc :: nat where
  "max_alloc = 2 ^ 48"

definition make_bytes :: "u64 \<Rightarrow> nat res" where
  "make_bytes l = (if unat l \<le> max_alloc then Ok (unat l) else Panic MakeSliceLen)"

definition got_msg :: "string \<Rightarrow> bytes \<Rightarrow> string" where
  "got_msg what r = what @ '': got '' @ show_nat (length r) @ '' bytes''"

definition Input_readFrom :: "bool \<Rightarrow> Input reader" where
  "Input_readFrom extended r0 =
     bind_res (wrap_err (got_msg ''previousTxID(32)'' r0) (io_ReadFull 32 r0)) (\<lambda>(prev, r1).
     bind_res (wrap_err (got_msg ''previousTxID(4)'' r1) (io_ReadFull 4 r1)) (\<lambda>(idx, r2).
     bind_res (VarInt_ReadFrom r2) (\<lambda>(l, r3).
     bind_res (make_bytes l) (\<lambda>n.
     bind_res (wrap_err (got_msg (''script('' @ show_nat n @ '')'') r3) (io_ReadFull n r3))
       (\<lambda>(script, r4).
     bind_res (wrap_err (got_msg ''sequence(4)'' r4) (io_ReadFull 4 r4)) (\<lambda>(sq, r5).
     bind_res (uint32_le idx) (\<lambda>out_index.
     bind_res (uint32_le sq) (\<lambda>sequence.
       let i = \<lparr> in_previousTxID = ReverseBytes prev, in_PreviousTxSatoshis = 0,
                 in_PreviousTxScript = None, in_UnlockingScript = Some script,
                 in_PreviousTxOutIndex = out_index, in_SequenceNumber = sequence \<rparr>
       in if extended then
            bind_res (wrap_err (got_msg ''prevSatoshis(8)'' r5) (io_ReadFull 8 r5)) (\<lambda>(sat, r6).
            bind_res (VarInt_ReadFrom r6) (\<lambda>(sl, r7).
            bind_res (make_bytes sl) (\<lambda>m.
            bind_res (wrap_err (got_msg (''script('' @ show_nat (VarInt_Length sl) @ '')'') r7)
                        (io_ReadFull m r7)) (\<lambda>(pscript, r8).
            bind_res (uint64_le sat) (\<lambda>satoshis.
              Ok (i\<lparr> in_PreviousTxSatoshis := satoshis, in_PreviousTxScript := Some pscript \<rparr>,
                  r8))))))
          else Ok (i, r5)))))))))"

definition Output_ReadFrom :: "Output reader" where
  "Output_ReadFrom r0 =
     bind_res (wrap_err (got_msg ''satoshis(8)'' r0) (io_ReadFull 8 r0)) (\<lambda>(sat, r1).
     bind_res (VarInt_ReadFrom r1) (\<lambda>(l, r2).
     bind_res (make_bytes l) (\<lambda>n.
     bind_res (wrap_err (got_msg (''lockingScript('' @ show_nat n @ '')'') r2) (io_ReadFull n r2))
       (\<lambda>(script, r3).
     bind_res (uint64_le sat) (\<lambda>satoshis.
       Ok (\<lparr> out_Satoshis = satoshis, out_LockingScript = script \<rparr>, r3))))))"

text \<open>
  The tail of \<open>Tx.ReadFrom\<close>: the inputs, the output count again unless it has been read
  already, the outputs and the lock time.
\<close>

definition Tx_ReadBody :: "u32 \<Rightarrow> bool \<Rightarrow> u64 \<Rightarrow> u64 \<Rightarrow> Tx reader" where
  "Tx_ReadBody version extended inputCount outputCount0 r0 =
     bind_res (read_many (Input_readFrom extended) (unat inputCount) r0) (\<lambda>(inputs, r1).
     bind_res (if inputCount > 0 \<or> extended then VarInt_ReadFrom r1 else Ok (outputCount0, r1))
       (\<lambda>(outputCount, r2).
     bind_res (read_many Output_ReadFrom (unat outputCount) r2) (\<lambda>(outputs, r3).
     bind_res (io_ReadFull 4 r3) (\<lambda>(lt, r4).
     bind_res (uint32_le lt) (\<lambda>locktime.
       Ok (\<lparr> tx_Inputs = inputs, tx_Outputs = outputs, tx_Version = version,
             tx_LockTime = locktime \<rparr>, r4))))))"

text \<open>
  \<open>Tx.ReadFrom\<close>: a zero input count followed by a zero output count is either a
  transaction with neither (the next four bytes are its lock time) or, when those bytes are
  \<open>000000EF\<close>, the marker of the extended format.
\<close>

definition Tx_ReadFrom :: "Tx reader" where
  "Tx_ReadFrom r0 =
     bind_res (io_ReadFull 4 r0) (\<lambda>(v, r1).
     bind_res (uint32_le v) (\<lambda>version.
     bind_res (VarInt_ReadFrom r1) (\<lambda>(inputCount, r2).
       if inputCount = 0 then
         bind_res (VarInt_ReadFrom r2) (\<lambda>(outputCount, r3).
           if outputCount = 0 then
             bind_res (io_ReadFull 4 r3) (\<lambda>(lt, r4).
             bind_res (uint32_be lt) (\<lambda>marker.
               if marker \<noteq> 0xEF then
                 bind_res (uint32_le lt) (\<lambda>locktime.
                   Ok (\<lparr> tx_Inputs = [], tx_Outputs = [], tx_Version = version,
                         tx_LockTime = locktime \<rparr>, r4))
               else
                 bind_res (VarInt_ReadFrom r4) (\<lambda>(inputCount', r5).
                   Tx_ReadBody version True inputCount' outputCount r5)))
           else Tx_ReadBody version False inputCount outputCount r3)
       else Tx_ReadBody version False inputCount 0 r2)))"

definition NewTxFromStream :: "bytes \<Rightarrow> (Tx \<times> nat) res" where
  "NewTxFromStream b = bind_res (Tx_ReadFrom b) (\<lambda>(tx, r). Ok (tx, length b - length r))"

definition NewTxFromBytes :: "bytes \<Rightarrow> Tx res" where
  "NewTxFromBytes b =
     bind_res (NewTxFromStream b) (\<lambda>(tx, used).
       if used \<noteq> length b then Err (Msg ''nLockTime length must be 4 bytes long'') else Ok tx)"

definition NewTxFromString :: "string \<Rightarrow> Tx res" where
  "NewTxFromString s = bind_res (hex_DecodeString s) NewTxFromBytes"

section \<open>Round trip\<close>

text \<open>
  The transactions the standard format represents: 32-byte outpoint hashes, unlocking
  scripts present, no extended-format fields, lengths below the limits of the format, and,
  for a transaction with neither inputs nor outputs, a lock time that is not the
  extended-format marker.
\<close>

definition wf_script :: "bytes \<Rightarrow> bool" where
  "wf_script s \<longleftrightarrow> length s \<le> max_alloc"

definition wf_Input :: "Input \<Rightarrow> bool" where
  "wf_Input i \<longleftrightarrow>
     length (in_previousTxID i) = 32 \<and> in_PreviousTxSatoshis i = 0 \<and>
     in_PreviousTxScript i = None \<and>
     (case in_UnlockingScript i of None \<Rightarrow> False | Some s \<Rightarrow> wf_script s)"

definition wf_Output :: "Output \<Rightarrow> bool" where
  "wf_Output out \<longleftrightarrow> wf_script (out_LockingScript out)"

definition wf_Tx :: "Tx \<Rightarrow> bool" where
  "wf_Tx tx \<longleftrightarrow>
     list_all wf_Input (tx_Inputs tx) \<and> list_all wf_Output (tx_Outputs tx) \<and>
     length (tx_Inputs tx) < 2 ^ 64 \<and> length (tx_Outputs tx) < 2 ^ 64 \<and>
     (tx_Inputs tx \<noteq> [] \<or> tx_Outputs tx \<noteq> [] \<or>
      uint32_be (le32 (tx_LockTime tx)) \<noteq> Ok 0xEF)"

lemma unat_of_nat_u64: "n < 2 ^ 64 \<Longrightarrow> unat (of_nat n :: u64) = n"
  by (simp add: unat_of_nat take_bit_nat_eq_self)

lemma unat_of_nat_script:
  "wf_script s \<Longrightarrow> unat (of_nat (length s) :: u64) = length s"
  by (rule unat_of_nat_u64) (simp add: wf_script_def max_alloc_def)

lemma make_bytes_script [simp]:
  "wf_script s \<Longrightarrow> make_bytes (of_nat (length s)) = Ok (length s)"
  by (simp add: make_bytes_def unat_of_nat_script) (simp add: wf_script_def)

lemma Input_readFrom_Bytes:
  assumes "wf_Input i"
  shows "Input_readFrom False (Input_Bytes i @ r) = Ok (i, r)"
proof -
  from assms obtain s where s: "in_UnlockingScript i = Some s" "wf_script s"
    by (auto simp: wf_Input_def split: option.splits)
  with assms show ?thesis
    by (cases i) (simp add: Input_readFrom_def Input_Bytes_def wf_Input_def VarInt_ReadFrom_Bytes)
qed

lemma Output_ReadFrom_Bytes:
  "wf_Output out \<Longrightarrow> Output_ReadFrom (Output_Bytes out @ r) = Ok (out, r)"
  by (cases out) (simp add: Output_ReadFrom_def Output_Bytes_def wf_Output_def VarInt_ReadFrom_Bytes)

interpretation input: stream_codec wf_Input Input_Bytes "Input_readFrom False"
  by unfold_locales (rule Input_readFrom_Bytes)

interpretation outp: stream_codec wf_Output Output_Bytes Output_ReadFrom
  by unfold_locales (rule Output_ReadFrom_Bytes)

lemma uint32_be_Ok: "length bs = 4 \<Longrightarrow> \<exists>v. uint32_be bs = Ok v"
  by (simp add: uint32_be_def)

lemma Tx_ReadBody_inputs:
  assumes "list_all wf_Input ins" "list_all wf_Output outs"
    and "unat ni = length ins" "unat no = length outs" "ni \<noteq> 0"
  shows "Tx_ReadBody v False ni c (concat (map Input_Bytes ins) @ VarInt_Bytes no @
      concat (map Output_Bytes outs) @ le32 lt @ r) =
    Ok (\<lparr> tx_Inputs = ins, tx_Outputs = outs, tx_Version = v, tx_LockTime = lt \<rparr>, r)"
proof -
  from assms(5) have "0 < ni" by (simp add: word_gt_0)
  with assms show ?thesis
    by (simp add: Tx_ReadBody_def input.read_many_enc outp.read_many_enc VarInt_ReadFrom_Bytes)
qed

lemma Tx_ReadBody_outputs:
  assumes "list_all wf_Output outs" "unat no = length outs"
  shows "Tx_ReadBody v False 0 no (concat (map Output_Bytes outs) @ le32 lt @ r) =
    Ok (\<lparr> tx_Inputs = [], tx_Outputs = outs, tx_Version = v, tx_LockTime = lt \<rparr>, r)"
  using assms by (simp add: Tx_ReadBody_def outp.read_many_enc)

lemma Tx_ReadFrom_Bytes:
  assumes wf: "wf_Tx tx"
  shows "Tx_ReadFrom (Tx_Bytes tx @ r) = Ok (tx, r)"
proof -
  obtain ins outs v lt where tx: "tx = \<lparr> tx_Inputs = ins, tx_Outputs = outs,
      tx_Version = v, tx_LockTime = lt \<rparr>"
    by (cases tx) auto
  define ni no :: u64 where "ni = of_nat (length ins)" and "no = of_nat (length outs)"
  note wf' = wf [unfolded tx wf_Tx_def, simplified]
  have n: "unat ni = length ins" "unat no = length outs"
    using wf' by (simp_all add: ni_def no_def unat_of_nat_u64)
  then have z: "ni = 0 \<longleftrightarrow> ins = []" "no = 0 \<longleftrightarrow> outs = []"
    by (metis length_0_conv unat_eq_zero)+
  have bytes: "Tx_Bytes tx @ r = le32 v @ VarInt_Bytes ni @ concat (map Input_Bytes ins) @
      VarInt_Bytes no @ concat (map Output_Bytes outs) @ le32 lt @ r"
    by (simp add: tx Tx_Bytes_def ni_def no_def)
  show ?thesis
  proof (cases "ins = []")
    case False
    then show ?thesis
      unfolding bytes using wf' n z
      by (simp add: Tx_ReadFrom_def VarInt_ReadFrom_Bytes Tx_ReadBody_inputs tx)
  next
    case True
    note ins = this
    show ?thesis
    proof (cases "outs = []")
      case False
      with ins show ?thesis
        unfolding bytes using wf' n z
        by (simp add: Tx_ReadFrom_def VarInt_ReadFrom_Bytes Tx_ReadBody_outputs tx)
    next
      case True
      obtain m where m: "uint32_be (le32 lt) = Ok m"
        using uint32_be_Ok [of "le32 lt"] by auto
      with wf' ins True have "m \<noteq> 0xEF" by auto
      with ins True m z show ?thesis
        unfolding bytes by (simp add: Tx_ReadFrom_def VarInt_ReadFrom_Bytes tx)
    qed
  qed
qed

interpretation tx: stream_codec wf_Tx Tx_Bytes Tx_ReadFrom
  by unfold_locales (rule Tx_ReadFrom_Bytes)

lemma NewTxFromStream_Bytes:
  "wf_Tx t \<Longrightarrow> NewTxFromStream (Tx_Bytes t @ r) = Ok (t, length (Tx_Bytes t))"
  by (simp add: NewTxFromStream_def Tx_ReadFrom_Bytes)

lemma NewTxFromBytes_Bytes: "wf_Tx t \<Longrightarrow> NewTxFromBytes (Tx_Bytes t) = Ok t"
  using NewTxFromStream_Bytes [of t "[]"] by (simp add: NewTxFromBytes_def)

lemma NewTxFromString_String: "wf_Tx t \<Longrightarrow> NewTxFromString (Tx_String t) = Ok t"
  by (simp add: NewTxFromString_def Tx_String_def NewTxFromBytes_Bytes)

lemma length_TxIDBytes [simp]: "length (TxIDBytes t) = 32"
  by (simp add: TxIDBytes_def)

lemma length_TxID [simp]: "length (TxID t) = 64"
  by (simp add: TxID_def)


section \<open>The extended format\<close>

text \<open>\<open>Tx.ExtendedBytes\<close>: a marker, and behind every input the output it spends.\<close>

definition Input_ExtendedBytes :: "Input \<Rightarrow> bytes" where
  "Input_ExtendedBytes i =
     Input_Bytes i @ le64 (in_PreviousTxSatoshis i) @
     (case in_PreviousTxScript i of
        None \<Rightarrow> [0]
      | Some s \<Rightarrow> VarInt_Bytes (of_nat (length s)) @ s)"

definition Tx_ExtendedBytes :: "Tx \<Rightarrow> bytes" where
  "Tx_ExtendedBytes tx =
     le32 (tx_Version tx) @ [0, 0, 0, 0, 0, 0xEF] @
     VarInt_Bytes (of_nat (length (tx_Inputs tx))) @ concat (map Input_ExtendedBytes (tx_Inputs tx)) @
     VarInt_Bytes (of_nat (length (tx_Outputs tx))) @ concat (map Output_Bytes (tx_Outputs tx)) @
     le32 (tx_LockTime tx)"

definition wf_extended_Input :: "Input \<Rightarrow> bool" where
  "wf_extended_Input i \<longleftrightarrow>
     length (in_previousTxID i) = 32 \<and>
     pred_option wf_script (in_UnlockingScript i) \<and> in_UnlockingScript i \<noteq> None \<and>
     pred_option wf_script (in_PreviousTxScript i) \<and> in_PreviousTxScript i \<noteq> None"

definition wf_extended_Tx :: "Tx \<Rightarrow> bool" where
  "wf_extended_Tx tx \<longleftrightarrow>
     list_all wf_extended_Input (tx_Inputs tx) \<and> list_all wf_Output (tx_Outputs tx) \<and>
     length (tx_Inputs tx) < 2 ^ 64 \<and> length (tx_Outputs tx) < 2 ^ 64"

lemma Input_readFrom_ExtendedBytes:
  assumes "wf_extended_Input i"
  shows "Input_readFrom True (Input_ExtendedBytes i @ r) = Ok (i, r)"
proof -
  from assms obtain s p where s: "in_UnlockingScript i = Some s" "wf_script s"
    "in_PreviousTxScript i = Some p" "wf_script p"
    by (auto simp: wf_extended_Input_def)
  with assms show ?thesis
    by (cases i) (simp add: Input_readFrom_def Input_ExtendedBytes_def Input_Bytes_def
        wf_extended_Input_def VarInt_ReadFrom_Bytes)
qed

interpretation extended_input: stream_codec wf_extended_Input Input_ExtendedBytes "Input_readFrom True"
  by unfold_locales (rule Input_readFrom_ExtendedBytes)

lemma Tx_ReadFrom_ExtendedBytes:
  assumes "wf_extended_Tx tx"
  shows "Tx_ReadFrom (Tx_ExtendedBytes tx @ r) = Ok (tx, r)"
proof -
  have zero: "VarInt_ReadFrom (0 # x) = Ok (0, x)" for x
    using VarInt_ReadFrom_Bytes [of 0 x] by (simp add: VarInt_Bytes_def)
  have n: "unat (of_nat (length (tx_Inputs tx)) :: u64) = length (tx_Inputs tx)"
    "unat (of_nat (length (tx_Outputs tx)) :: u64) = length (tx_Outputs tx)"
    using assms by (simp_all add: wf_extended_Tx_def unat_of_nat_u64)
  have marker: "uint32_be [0, 0, 0, 0xEF] = Ok 0xEF" by code_simp
  show ?thesis
    using assms
    by (simp add: Tx_ReadFrom_def Tx_ExtendedBytes_def zero marker Tx_ReadBody_def wf_extended_Tx_def n
        VarInt_ReadFrom_Bytes extended_input.read_many_enc outp.read_many_enc io_ReadFull_def)
qed

interpretation extended_tx: stream_codec wf_extended_Tx Tx_ExtendedBytes Tx_ReadFrom
  by unfold_locales (rule Tx_ReadFrom_ExtendedBytes)

lemma NewTxFromBytes_ExtendedBytes: "wf_extended_Tx t \<Longrightarrow> NewTxFromBytes (Tx_ExtendedBytes t) = Ok t"
  using extended_tx.dec_enc_all [of t] by (simp add: NewTxFromBytes_def NewTxFromStream_def)

lemma length_Input_ExtendedBytes: "length (Input_Bytes i) \<le> length (Input_ExtendedBytes i)"
  by (simp add: Input_ExtendedBytes_def)

lemma length_Tx_ExtendedBytes: "length (Tx_Bytes t) < length (Tx_ExtendedBytes t)"
proof -
  have "length (concat (map Input_Bytes ins)) \<le> length (concat (map Input_ExtendedBytes ins))" for ins
    using length_Input_ExtendedBytes by (induction ins) (simp_all add: add_le_mono)
  from this [of "tx_Inputs t"] show ?thesis by (simp add: Tx_Bytes_def Tx_ExtendedBytes_def)
qed

section \<open>What is read is well-formed\<close>

text \<open>Every transaction read is one the standard or the extended format represents.\<close>

lemma make_bytes_OkD: "make_bytes l = Ok n \<Longrightarrow> n \<le> max_alloc \<and> n = unat l"
  by (auto simp: make_bytes_def split: if_splits)

lemmas reader_dests = make_bytes_OkD io_ReadFull_OkD

lemma Input_readFrom_typed:
  assumes "Input_readFrom extended r0 = Ok (i, r)"
  shows "if extended then wf_extended_Input i else wf_Input i"
proof -
  from assms obtain prev r1 idx r2 l r3 n script r4 sq r5 where *:
    "io_ReadFull 32 r0 = Ok (prev, r1)" "io_ReadFull 4 r1 = Ok (idx, r2)" "VarInt_ReadFrom r2 = Ok (l, r3)"
    "make_bytes l = Ok n" "io_ReadFull n r3 = Ok (script, r4)" "io_ReadFull 4 r4 = Ok (sq, r5)"
    by (auto simp: Input_readFrom_def go_simps)
  then have len: "length prev = 32" "wf_script script"
    by (auto simp: wf_script_def dest!: reader_dests)
  show ?thesis
  proof (cases extended)
    case False
    then show ?thesis using assms * len
      by (auto simp: Input_readFrom_def go_simps Let_def wf_Input_def)
  next
    case True
    with assms * obtain sat r6 sl r7 m p where "make_bytes sl = Ok m" "io_ReadFull m r7 = Ok (p, r)"
      and i: "in_PreviousTxScript i = Some p" "in_UnlockingScript i = Some script"
        "in_previousTxID i = ReverseBytes prev"
      by (auto simp: Input_readFrom_def go_simps Let_def)
    then have "wf_script p" by (auto simp: wf_script_def dest!: reader_dests)
    then show ?thesis using True i len by (simp add: wf_extended_Input_def)
  qed
qed

lemma Output_ReadFrom_typed: "Output_ReadFrom r0 = Ok (out, r) \<Longrightarrow> wf_Output out"
  by (auto simp: Output_ReadFrom_def go_simps wf_Output_def wf_script_def dest!: reader_dests)

lemma u64_less: "unat (n :: u64) < 2 ^ 64"
  using unsigned_less [where ?'a = nat and w = n] by simp

lemma Tx_ReadBody_typed:
  assumes "Tx_ReadBody version extended ni no r0 = Ok (t, r)"
  shows "list_all (if extended then wf_extended_Input else wf_Input) (tx_Inputs t) \<and>
    list_all wf_Output (tx_Outputs t) \<and> length (tx_Inputs t) = unat ni \<and>
    length (tx_Outputs t) < 2 ^ 64 \<and> (ni = 0 \<longrightarrow> \<not> extended \<longrightarrow> length (tx_Outputs t) = unat no)"
proof -
  from assms obtain r1 count r2 r3 where
    ins: "read_many (Input_readFrom extended) (unat ni) r0 = Ok (tx_Inputs t, r1)"
    and count: "(if ni > 0 \<or> extended then VarInt_ReadFrom r1 else Ok (no, r1)) = Ok (count, r2)"
    and outs: "read_many Output_ReadFrom (unat count) r2 = Ok (tx_Outputs t, r3)"
    by (auto simp: Tx_ReadBody_def go_simps)
  have "list_all (if extended then wf_extended_Input else wf_Input) (tx_Inputs t)"
    by (rule read_many_all [OF _ ins]) (use Input_readFrom_typed [of extended] in \<open>auto split: if_splits\<close>)
  moreover have "list_all wf_Output (tx_Outputs t)"
    by (rule read_many_all [OF _ outs]) (rule Output_ReadFrom_typed)
  ultimately show ?thesis
    using read_many_OkD [OF ins] read_many_OkD [OF outs] count u64_less [of count] by (auto simp: word_gt_0)
qed

lemma Tx_ReadFrom_typed:
  assumes "Tx_ReadFrom r0 = Ok (t, r)"
  shows "wf_Tx t \<or> wf_extended_Tx t"
proof -
  from assms obtain v r1 version ni r2 where start: "io_ReadFull 4 r0 = Ok (v, r1)"
    "uint32_le v = Ok version" "VarInt_ReadFrom r1 = Ok (ni, r2)"
    by (auto simp: Tx_ReadFrom_def go_simps)
  consider (extended) no n r' where "Tx_ReadBody version True n no r' = Ok (t, r)"
    | (inputs) "ni \<noteq> 0" "Tx_ReadBody version False ni 0 r2 = Ok (t, r)"
    | (outputs) no r3 where "ni = 0" "no \<noteq> 0" "Tx_ReadBody version False 0 no r3 = Ok (t, r)"
    | (empty) lt r3 marker where "tx_Inputs t = []" "tx_Outputs t = []" "io_ReadFull 4 r3 = Ok (lt, r)"
      "uint32_be lt = Ok marker" "marker \<noteq> 0xEF" "uint32_le lt = Ok (tx_LockTime t)"
    using assms start by (auto simp: Tx_ReadFrom_def go_simps split: if_splits)
  then show ?thesis
  proof cases
    case extended
    then show ?thesis using Tx_ReadBody_typed [OF extended] u64_less [of n] by (simp add: wf_extended_Tx_def)
  next
    case inputs
    then have "0 < unat ni" by (simp add: unat_gt_0)
    then show ?thesis using Tx_ReadBody_typed [OF inputs(2)] u64_less [of ni] by (auto simp: wf_Tx_def)
  next
    case outputs
    then have "0 < unat no" by (simp add: unat_gt_0)
    then show ?thesis using Tx_ReadBody_typed [OF outputs(3)] by (auto simp: wf_Tx_def)
  next
    case empty
    have "length lt = 4" using empty(3) by (auto dest: io_ReadFull_OkD)
    then have "le32 (tx_LockTime t) = lt" using empty(6) by (rule le32_uint32_le)
    then show ?thesis using empty by (simp add: wf_Tx_def)
  qed
qed

end
