(* ===== verification/Merkle_Tree.thy ===== *)
theory Merkle_Tree
  imports Merkle_Spec Byte_Manip Bt_Tx
begin

text \<open>
  \<open>merkletreeparent.go\<close> and \<open>merkleroot.go\<close>: parents of tree nodes, the tree stored in a
  linear array and its root, in the string form and in the \<open>chainhash\<close> form. Both array
  builders are interpretations of the cell contracts of \<open>Merkle_Spec\<close>.
\<close>

section \<open>merkletreeparent.go\<close>

definition MerkleTreeParent :: "bytes \<Rightarrow> bytes \<Rightarrow> bytes" where
  "MerkleTreeParent leftNode rightNode =
     (let l = ReverseBytes leftNode; r = ReverseBytes rightNode;
          hash = Sha256d (l @ r)
      in ReverseBytes hash)"

definition MerkleTreeParentStr :: "string \<Rightarrow> string \<Rightarrow> string res" where
  "MerkleTreeParentStr leftNode rightNode =
     bind_res (hex_DecodeString leftNode) (\<lambda>l.
     bind_res (hex_DecodeString rightNode) (\<lambda>r.
       Ok (hex_EncodeToString (MerkleTreeParent l r))))"

text \<open>\<open>chainhash.Hash\<close> (vendored): 32 bytes behind a pointer, displayed in reverse.\<close>

definition chainhash_NewHash :: "bytes \<Rightarrow> bytes res" where
  "chainhash_NewHash newHash =
     (if length newHash \<noteq> 32 then Err (Msg ''invalid hash length'') else Ok newHash)"

definition chainhash_String :: "bytes \<Rightarrow> string" where
  "chainhash_String hash = hex_EncodeToString (ReverseBytes hash)"

definition chainhash_CloneBytes :: "bytes option \<Rightarrow> bytes res" where
  "chainhash_CloneBytes hash = (case hash of None \<Rightarrow> Panic NilDereference | Some h \<Rightarrow> Ok h)"

definition MerkleTreeParentBytes :: "bytes option \<Rightarrow> bytes option \<Rightarrow> bytes option res" where
  "MerkleTreeParentBytes l r =
     bind_res (chainhash_CloneBytes l) (\<lambda>lb.
     bind_res (chainhash_CloneBytes r) (\<lambda>rb.
       case chainhash_NewHash (Sha256d (lb @ rb)) of
         Ok hash \<Rightarrow> Ok (Some hash)
       | _ \<Rightarrow> Ok (Some (replicate 32 0))))"

section \<open>merkleroot.go\<close>

text \<open>
  The loop \<open>for i, tx := range txs\<close>; the error reports the index.
\<close>

fun TxsToTxIDs_from :: "nat \<Rightarrow> string list \<Rightarrow> string list res" where
  "TxsToTxIDs_from i [] = Ok []"
| "TxsToTxIDs_from i (tx # txs) =
     (case NewTxFromString tx of
        Err _ \<Rightarrow> Err (MsgIndex ''invalid transaction at index: '' i)
      | Panic p \<Rightarrow> Panic p
      | Ok t \<Rightarrow> bind_res (TxsToTxIDs_from (i + 1) txs) (\<lambda>ids. Ok (TxID t # ids)))"

definition TxsToTxIDs :: "string list \<Rightarrow> string list res" where
  "TxsToTxIDs txs = TxsToTxIDs_from 0 txs"

definition BuildMerkleRootFromCoinbase :: "bytes \<Rightarrow> string list \<Rightarrow> bytes" where
  "BuildMerkleRootFromCoinbase coinbaseHash merkleBranches =
     foldl (\<lambda>acc b. let branch = fst (hexDecode b) in Sha256d (acc @ branch))
       coinbaseHash merkleBranches"

text \<open>
  \<open>int(math.Log2(float64(n)))\<close> is the position of the highest bit: \<open>float64\<close> represents
  every slice length below \<open>2^53\<close>, and \<open>math.Log2\<close> splits off the exponent first, so its
  result cannot round up to the next integer for lengths below \<open>2^47\<close>.
\<close>

fun floor_log2 :: "nat \<Rightarrow> nat" where
  "floor_log2 n = (if n < 2 then 0 else Suc (floor_log2 (n div 2)))"

declare floor_log2.simps [simp del]

definition nextPowerOfTwo :: "nat \<Rightarrow> nat" where
  "nextPowerOfTwo n =
     (if n AND (n - 1) = 0 then n
      else let exponent = floor_log2 n + 1 in push_bit exponent 1)"

text \<open>
  The array loop. Indexes are in range: \<open>i + 1 < arraySize\<close>, and
  \<open>offset = nextPoT + i / 2 < arraySize\<close>.
\<close>

function tree_loop_str :: "nat \<Rightarrow> nat \<Rightarrow> nat \<Rightarrow> string list \<Rightarrow> string list res" where
  "tree_loop_str arraySize i offset merkles =
     (if i < arraySize - 1 then
        bind_res
          (if merkles ! i = '''' then Ok ''''
           else if merkles ! (i + 1) = '''' then MerkleTreeParentStr (merkles ! i) (merkles ! i)
           else MerkleTreeParentStr (merkles ! i) (merkles ! (i + 1)))
          (\<lambda>c. tree_loop_str arraySize (i + 2) (offset + 1) (merkles[offset := c]))
      else Ok merkles)"
  by pat_completeness auto
termination
  by (relation "measure (\<lambda>(n, i, off, m). n - i)") auto

declare tree_loop_str.simps [simp del]

text \<open>\<open>make\<close> with the size \<open>-1\<close> of an empty list of transactions panics.\<close>

definition BuildMerkleTreeStore :: "string list \<Rightarrow> string list res" where
  "BuildMerkleTreeStore txids =
     (let nextPoT = nextPowerOfTwo (length txids); arraySize = int nextPoT * 2 - 1
      in if arraySize < 0 then Panic MakeSliceLen
         else let merkles = take (nat arraySize) txids @
                    replicate (nat arraySize - length txids) ''''
              in tree_loop_str (nat arraySize) 0 nextPoT merkles)"

definition BuildMerkleRoot :: "string list \<Rightarrow> string res" where
  "BuildMerkleRoot txids =
     bind_res (BuildMerkleTreeStore txids) (\<lambda>merkles. go_index merkles (length merkles - 1))"

function tree_loop_hash :: "nat \<Rightarrow> nat \<Rightarrow> nat \<Rightarrow> bytes option list \<Rightarrow> bytes option list res" where
  "tree_loop_hash arraySize i offset merkles =
     (if i < arraySize - 1 then
        bind_res
          (if merkles ! i = None then Ok None
           else if merkles ! (i + 1) = None then MerkleTreeParentBytes (merkles ! i) (merkles ! i)
           else MerkleTreeParentBytes (merkles ! i) (merkles ! (i + 1)))
          (\<lambda>c. tree_loop_hash arraySize (i + 2) (offset + 1) (merkles[offset := c]))
      else Ok merkles)"
  by pat_completeness auto
termination
  by (relation "measure (\<lambda>(n, i, off, m). n - i)") auto

declare tree_loop_hash.simps [simp del]

definition BuildMerkleTreeStoreChainHash :: "bytes option list \<Rightarrow> bytes option list res" where
  "BuildMerkleTreeStoreChainHash txids =
     (let nextPoT = nextPowerOfTwo (length txids); arraySize = int nextPoT * 2 - 1
      in if arraySize < 0 then Panic MakeSliceLen
         else let merkles = take (nat arraySize) txids @
                    replicate (nat arraySize - length txids) None
              in tree_loop_hash (nat arraySize) 0 nextPoT merkles)"

section \<open>The next power of two\<close>

lemma floor_log2_bounds: "1 \<le> n \<Longrightarrow> 2 ^ floor_log2 n \<le> n \<and> n < 2 * 2 ^ floor_log2 n"
proof (induction n rule: floor_log2.induct)
  case (1 n)
  show ?case
  proof (cases "n < 2")
    case True
    with "1.prems" show ?thesis by (simp add: floor_log2.simps)
  next
    case False
    with 1 show ?thesis by (simp add: floor_log2.simps [of n])  linarith
  qed
qed

lemma and_pred_eq_0_pow2: "1 \<le> n \<Longrightarrow> n AND (n - 1) = (0 :: nat) \<Longrightarrow> \<exists>k. n = 2 ^ k"
proof (induction n rule: less_induct)
  case (less n)
  show ?case
  proof (cases "even n")
    case True
    then obtain m where n: "n = 2 * m" by blast
    with less.prems have m: "1 \<le> m" by simp
    have "n AND (n - 1) = 2 * (m AND (m - 1))"
    proof -
      have "(2 * m - 1) div 2 = m - 1" using m by presburger
      with m show ?thesis by (subst and_rec) (simp add: n)
    qed
    with less.prems have "m AND (m - 1) = 0" by simp
    with less.IH [of m] m n obtain k where "m = 2 ^ k" by auto
    with n show ?thesis by (metis power_Suc)
  next
    case False
    then obtain m where n: "n = 2 * m + 1" by (metis oddE)
    have "n AND (n - 1) = 2 * m" by (subst and_rec) (simp add: n)
    with less.prems have "m = 0" by simp
    with n show ?thesis by (intro exI [of _ 0]) simp
  qed
qed

lemma pow2_and_pred: "(2 ^ k :: nat) AND (2 ^ k - 1) = 0"
  by (metis mask_eq_exp_minus_1 mod_self take_bit_eq_mask take_bit_eq_mod)

text \<open>The least power of two that is at least \<open>n\<close>.\<close>

lemma nextPowerOfTwo_bounds:
  assumes "1 \<le> n"
  obtains k where "nextPowerOfTwo n = 2 ^ k" "n \<le> 2 ^ k" "2 ^ k < 2 * n"
proof (cases "n AND (n - 1) = 0")
  case True
  with assms obtain k where "n = 2 ^ k" using and_pred_eq_0_pow2 by blast
  with assms True that [of k] show thesis by (simp add: nextPowerOfTwo_def)
next
  case False
  have "n \<noteq> 2 ^ floor_log2 n"
    using False pow2_and_pred by metis
  with False floor_log2_bounds [OF assms] that [of "floor_log2 n + 1"] show thesis
    by (simp add: nextPowerOfTwo_def push_bit_eq_mult)
qed

lemma nextPowerOfTwo_0 [simp]: "nextPowerOfTwo 0 = 0"
  by (simp add: nextPowerOfTwo_def)

section \<open>Parent functions\<close>

text \<open>
  The node order is the internal one (bytes as hashed); strings display it reversed. The
  string parent is total on the bytes \<open>hex.DecodeString\<close> returns beside its error.
\<close>

definition node_parent :: "bytes \<Rightarrow> bytes \<Rightarrow> bytes" where
  "node_parent l r = Sha256d (l @ r)"

definition str_parent :: "string \<Rightarrow> string \<Rightarrow> string" where
  "str_parent l r =
     StringFromBytesReverse (node_parent (BytesFromStringReverse l) (BytesFromStringReverse r))"

definition chain_parent :: "bytes option \<Rightarrow> bytes option \<Rightarrow> bytes option" where
  "chain_parent l r = Some (node_parent (the l) (the r))"

definition hash_str :: "string \<Rightarrow> bool" where
  "hash_str s \<longleftrightarrow> canonical_hex s \<and> length s = 64"

definition node_str :: "string \<Rightarrow> bool" where
  "node_str s \<longleftrightarrow> valid_hex s \<and> s \<noteq> ''''"

definition chain_node :: "bytes option \<Rightarrow> bool" where
  "chain_node c \<longleftrightarrow> (\<exists>h. c = Some h \<and> length h = 32)"

lemma length_node_parent [simp]: "length (node_parent l r) = 32"
  by (simp add: node_parent_def)

lemma str_parent_String:
  "StringFromBytesReverse (node_parent l r) =
     str_parent (StringFromBytesReverse l) (StringFromBytesReverse r)"
  by (simp add: str_parent_def)

lemma BytesFromStringReverse_str_parent [simp]:
  "BytesFromStringReverse (str_parent l r) =
     node_parent (BytesFromStringReverse l) (BytesFromStringReverse r)"
  by (simp add: str_parent_def)

lemma hash_str_String [simp]: "length h = 32 \<Longrightarrow> hash_str (StringFromBytesReverse h)"
  by (simp add: hash_str_def StringFromBytesReverse_def)

lemma hash_str_str_parent [simp]: "hash_str (str_parent l r)"
  by (simp add: str_parent_def)

lemma hash_str_node: "hash_str s \<Longrightarrow> node_str s"
  by (auto simp: hash_str_def node_str_def canonical_hex_valid)

lemma hash_strE:
  assumes "hash_str s"
  obtains h where "s = StringFromBytesReverse h" "length h = 32" "BytesFromStringReverse s = h"
proof -
  let ?h = "BytesFromStringReverse s"
  have s: "StringFromBytesReverse ?h = s"
    using assms by (simp add: hash_str_def StringFromBytesReverse_Bytes)
  then have "2 * length ?h = length s" by (metis length_StringFromBytesReverse)
  with assms s that [of ?h] show thesis by (simp add: hash_str_def)
qed

lemma hash_str_length [simp]: "hash_str s \<Longrightarrow> length (BytesFromStringReverse s) = 32"
  by (metis hash_strE)

lemma hash_str_inject:
  "hash_str a \<Longrightarrow> hash_str b \<Longrightarrow> BytesFromStringReverse a = BytesFromStringReverse b \<longleftrightarrow> a = b"
  by (metis hash_strE)

lemma MerkleTreeParent_node: "MerkleTreeParent l r = rev (node_parent (rev l) (rev r))"
  by (simp add: MerkleTreeParent_def node_parent_def)

lemma MerkleTreeParentStr_valid:
  "valid_hex l \<Longrightarrow> valid_hex r \<Longrightarrow> MerkleTreeParentStr l r = Ok (str_parent l r)"
  by (simp add: MerkleTreeParentStr_def hex_DecodeString_valid MerkleTreeParent_node
      str_parent_def BytesFromStringReverse_def StringFromBytesReverse_def)

lemma MerkleTreeParentBytes_node:
  "MerkleTreeParentBytes (Some l) (Some r) = Ok (Some (node_parent l r))"
  by (simp add: MerkleTreeParentBytes_def chainhash_CloneBytes_def chainhash_NewHash_def
      node_parent_def)

interpretation str_cells: merkle_cells "''''" str_parent node_str
  by unfold_locales (auto simp: hash_str_node node_str_def [of "''''"])

interpretation str_hash: binding_cells "''''" str_parent hash_str
    "\<lambda>l r. BytesFromStringReverse l @ BytesFromStringReverse r" Sha256d
proof unfold_locales
  fix a b c d
  assume wf: "hash_str a" "hash_str b" "hash_str c" "hash_str d"
  show "Sha256d (BytesFromStringReverse a @ BytesFromStringReverse b) =
      Sha256d (BytesFromStringReverse c @ BytesFromStringReverse d)"
    if "str_parent a b = str_parent c d"
    using that by (simp only: str_parent_def node_parent_def StringFromBytesReverse_inject)
  show "a = c \<and> b = d"
    if "BytesFromStringReverse a @ BytesFromStringReverse b =
      BytesFromStringReverse c @ BytesFromStringReverse d"
    using that wf by (simp add: hash_str_inject)
qed (simp_all add: hash_str_def [of "''''"])

interpretation nodes: binding_cells "[]" node_parent "\<lambda>h. length h = 32" "(@)" Sha256d
  by unfold_locales (auto simp: node_parent_def)

interpretation chain_cells: merkle_cells None chain_parent chain_node
  by unfold_locales (auto simp: chain_node_def chain_parent_def)

section \<open>The array is the tree\<close>

lemma valid_hex_str_parent [simp]: "valid_hex (str_parent l r)"
  using hash_str_node [OF hash_str_str_parent] by (simp add: node_str_def)

lemma valid_hex_Nil [simp]: "valid_hex ''''"
  by (simp add: valid_hex_def)

lemma tree_loop_str_cells:
  "list_all valid_hex m \<Longrightarrow> length m = arraySize \<Longrightarrow>
     tree_loop_str arraySize i offset m =
     Ok (cell_loop (cell_parent '''' str_parent) arraySize i offset m)"
proof (induction arraySize i offset m rule: tree_loop_str.induct)
  case (1 n i offset m)
  show ?case
  proof (cases "i < n - 1")
    case True
    let ?c = "cell_parent '''' str_parent (m ! i) (m ! (i + 1))"
    have "valid_hex (m ! i)" "valid_hex (m ! (i + 1))"
      using True "1.prems" by (auto simp: list_all_length)
    then have c: "(if m ! i = '''' then Ok ''''
           else if m ! (i + 1) = '''' then MerkleTreeParentStr (m ! i) (m ! i)
           else MerkleTreeParentStr (m ! i) (m ! (i + 1))) = Ok ?c"
      by (simp add: cell_parent_def MerkleTreeParentStr_valid)
    have "valid_hex ?c" by (simp add: cell_parent_def)
    then have "list_all valid_hex (m[offset := ?c])"
      using "1.prems" set_update_subset_insert [of m offset ?c] by (auto simp: list_all_iff)
    with True "1.IH" [OF True, of ?c] "1.prems" c show ?thesis
      by (subst tree_loop_str.simps, subst cell_loop.simps) simp
  qed (simp add: tree_loop_str.simps [of n] cell_loop.simps [of _ n])
qed

lemma tree_loop_hash_cells:
  "list_all (\<lambda>c. c = None \<or> chain_node c) m \<Longrightarrow> length m = arraySize \<Longrightarrow>
     tree_loop_hash arraySize i offset m =
     Ok (cell_loop (cell_parent None chain_parent) arraySize i offset m)"
proof (induction arraySize i offset m rule: tree_loop_hash.induct)
  case (1 n i offset m)
  show ?case
  proof (cases "i < n - 1")
    case True
    let ?c = "cell_parent None chain_parent (m ! i) (m ! (i + 1))"
    have "m ! i = None \<or> chain_node (m ! i)" "m ! (i + 1) = None \<or> chain_node (m ! (i + 1))"
      using True "1.prems" by (auto simp: list_all_length)
    then have c: "(if m ! i = None then Ok None
           else if m ! (i + 1) = None then MerkleTreeParentBytes (m ! i) (m ! i)
           else MerkleTreeParentBytes (m ! i) (m ! (i + 1))) = Ok ?c"
      by (auto simp: cell_parent_def chain_node_def chain_parent_def MerkleTreeParentBytes_node)
    have "?c = None \<or> chain_node ?c"
      by (simp add: cell_parent_def chain_node_def chain_parent_def)
    then have "list_all (\<lambda>c. c = None \<or> chain_node c) (m[offset := ?c])"
      using "1.prems" set_update_subset_insert [of m offset ?c] unfolding list_all_iff by blast
    with True "1.IH" [OF True, of ?c] "1.prems" c show ?thesis
      by (subst tree_loop_hash.simps, subst cell_loop.simps) simp
  qed (simp add: tree_loop_hash.simps [of n] cell_loop.simps [of _ n])
qed

text \<open>The array the loop starts from agrees with the padded leaves on its first half.\<close>

lemma initial_cells:
  assumes "length xs \<le> 2 ^ k" "2 ^ k < 2 * length xs"
    and "m = take (2 * 2 ^ k - 1) xs @ replicate (2 * 2 ^ k - 1 - length xs) nil"
  shows "length m = 2 * 2 ^ k - 1"
    and "\<forall>l < 2 ^ k. m ! l = tree_store f k (padded nil (2 ^ k) xs) ! l"
    and "length (padded nil (2 ^ k) xs) = 2 ^ k"
  using assms by (auto simp: padded_def nth_tree_store_leaf nth_append)

lemma array_size: "nat (int p * 2 - 1) = 2 * p - 1"
  by linarith

lemma array_size_nonneg: "\<not> int (2 ^ k) * 2 - 1 < 0"
proof -
  have "1 \<le> (2 :: nat) ^ k" by simp
  then show ?thesis by linarith
qed

lemma BuildMerkleTreeStore_store:
  assumes "list_all node_str txids" "txids \<noteq> []"
  shows "\<exists>k. nextPowerOfTwo (length txids) = 2 ^ k \<and> length txids \<le> 2 ^ k \<and> 2 ^ k < 2 * length txids \<and>
    BuildMerkleTreeStore txids =
    Ok (tree_store (cell_parent '''' str_parent) k (padded '''' (2 ^ k) txids))"
proof -
  from assms(2) have "1 \<le> length txids" by (cases txids) auto
  then obtain k where k: "nextPowerOfTwo (length txids) = 2 ^ k" "length txids \<le> 2 ^ k"
      "2 ^ k < 2 * length txids"
    by (rule nextPowerOfTwo_bounds)
  let ?S = "tree_store (cell_parent '''' str_parent) k (padded '''' (2 ^ k) txids)"
  define m where "m = take (2 * 2 ^ k - 1) txids @ replicate (2 * 2 ^ k - 1 - length txids) ''''"
  note init = initial_cells [OF k(2,3) m_def]
  have nodes: "list_all valid_hex m"
    using assms(1) unfolding m_def list_all_iff by (auto simp: node_str_def dest: in_set_takeD)

  have "cell_loop (cell_parent '''' str_parent) (2 * 2 ^ k - 1) 0 (2 ^ k) m = ?S"
    by (rule cell_loop_store [where j = 0]) (use init in simp_all)
  with nodes init(1) have "tree_loop_str (2 * 2 ^ k - 1) 0 (2 ^ k) m = Ok ?S"
    by (simp add: tree_loop_str_cells)
  then have "BuildMerkleTreeStore txids = Ok ?S"
    unfolding BuildMerkleTreeStore_def k(1) Let_def array_size
    by (simp only: m_def array_size_nonneg if_False)
  with k show ?thesis by blast
qed

lemma BuildMerkleTreeStoreChainHash_store:
  assumes "list_all chain_node txids" "txids \<noteq> []"
  shows "\<exists>k. nextPowerOfTwo (length txids) = 2 ^ k \<and> length txids \<le> 2 ^ k \<and> 2 ^ k < 2 * length txids \<and>
    BuildMerkleTreeStoreChainHash txids =
    Ok (tree_store (cell_parent None chain_parent) k (padded None (2 ^ k) txids))"
proof -
  from assms(2) have "1 \<le> length txids" by (cases txids) auto
  then obtain k where k: "nextPowerOfTwo (length txids) = 2 ^ k" "length txids \<le> 2 ^ k"
      "2 ^ k < 2 * length txids"
    by (rule nextPowerOfTwo_bounds)
  let ?S = "tree_store (cell_parent None chain_parent) k (padded None (2 ^ k) txids)"
  define m where "m = take (2 * 2 ^ k - 1) txids @ replicate (2 * 2 ^ k - 1 - length txids) None"
  note init = initial_cells [OF k(2,3) m_def]
  have nodes: "list_all (\<lambda>c. c = None \<or> chain_node c) m"
    using assms(1) unfolding m_def list_all_iff by (auto dest: in_set_takeD)
  have "cell_loop (cell_parent None chain_parent) (2 * 2 ^ k - 1) 0 (2 ^ k) m = ?S"
    by (rule cell_loop_store [where j = 0]) (use init in simp_all)
  with nodes init(1) have "tree_loop_hash (2 * 2 ^ k - 1) 0 (2 ^ k) m = Ok ?S"
    by (simp add: tree_loop_hash_cells)
  then have "BuildMerkleTreeStoreChainHash txids = Ok ?S"
    unfolding BuildMerkleTreeStoreChainHash_def k(1) Let_def array_size
    by (simp only: m_def array_size_nonneg if_False)
  with k show ?thesis by blast
qed

section \<open>The root\<close>

lemma BuildMerkleRoot_node_str:
  assumes "list_all node_str txids" "txids \<noteq> []"
  shows "BuildMerkleRoot txids = Ok (merkle_root str_parent txids)"
proof -
  obtain k where k: "length txids \<le> 2 ^ k" "2 ^ k < 2 * length txids"
      "BuildMerkleTreeStore txids =
        Ok (tree_store (cell_parent '''' str_parent) k (padded '''' (2 ^ k) txids))"
    using BuildMerkleTreeStore_store [OF assms] by blast
  let ?S = "tree_store (cell_parent '''' str_parent) k (padded '''' (2 ^ k) txids)"
  have "length (padded '''' (2 ^ k) txids) = 2 ^ k" using k(1) by (simp add: padded_def)
  then have S: "?S \<noteq> []" by (rule last_tree_store)
  then have "go_index ?S (length ?S - 1) = Ok (last ?S)" by (simp add: last_conv_nth)
  with k str_cells.last_tree_store_root [OF assms k(1,2)] show ?thesis
    by (simp add: BuildMerkleRoot_def)
qed

lemma merkle_root_str_bytes:
  "list_all hash_str txids \<Longrightarrow> txids \<noteq> [] \<Longrightarrow>
     merkle_root str_parent txids =
     StringFromBytesReverse (merkle_root node_parent (map BytesFromStringReverse txids))"
proof -
  assume txids: "list_all hash_str txids" "txids \<noteq> []"
  have "map StringFromBytesReverse (map BytesFromStringReverse txids) = txids"
    using txids(1) by (intro nth_equalityI)
      (auto simp: list_all_length hash_str_def StringFromBytesReverse_Bytes)
  with txids show ?thesis
    using map_merkle_root [where g = StringFromBytesReverse and comb = node_parent
        and comb' = str_parent, OF str_parent_String, of "map BytesFromStringReverse txids"]
    by simp
qed

lemma list_all_node_str: "list_all hash_str txids \<Longrightarrow> list_all node_str txids"
  by (auto simp: list_all_iff hash_str_node)

text \<open>The leaf lists \<open>merkle_level\<close> cannot tell apart: an odd level and the level with its
  last node repeated.\<close>

lemma merkle_level_dup:
  "odd (length xs) \<Longrightarrow> merkle_level comb (xs @ [last xs]) = merkle_level comb xs"
  by (induction comb xs rule: merkle_level.induct) auto

lemma merkle_root_dup:
  assumes "odd (length xs)" "3 \<le> length xs"
  shows "merkle_root comb (xs @ [last xs]) = merkle_root comb xs"
  using assms merkle_root_step [of xs comb] merkle_root_step [of "xs @ [last xs]" comb]
  by (simp add: merkle_level_dup)

text \<open>The two array builders hold the same tree, in the two node types.\<close>

definition cell_string :: "bytes option \<Rightarrow> string" where
  "cell_string c = (case c of None \<Rightarrow> '''' | Some h \<Rightarrow> chainhash_String h)"

lemma cell_string_eq_Nil: "chain_node c \<Longrightarrow> cell_string c \<noteq> ''''"
  by (auto simp: cell_string_def chain_node_def chainhash_String_def)

lemma cell_string_parent:
  assumes "a = None \<or> chain_node a" "b = None \<or> chain_node b"
  shows "cell_string (cell_parent None chain_parent a b) =
    cell_parent '''' str_parent (cell_string a) (cell_string b)"
proof -
  have S: "chainhash_String h = StringFromBytesReverse h" for h
    by (simp add: chainhash_String_def StringFromBytesReverse_def)
  have "StringFromBytesReverse h \<noteq> ''''" if "length h = 32" for h
    using that by (auto simp: StringFromBytesReverse_def)
  with assms show ?thesis
    by (auto simp: cell_parent_def chain_node_def cell_string_def chain_parent_def S str_parent_String)
qed

lemma chain_node_parent: "cell_parent None chain_parent a b = None \<or> chain_node (cell_parent None chain_parent a b)"
  by (simp add: cell_parent_def chain_node_def chain_parent_def)

lemma node_str_cell_string: "chain_node c \<Longrightarrow> node_str (cell_string c)"
  by (auto simp: chain_node_def cell_string_def chainhash_String_def node_str_def)

section \<open>Properties\<close>

text \<open>C28: the linear array \<open>BuildMerkleTreeStore\<close> returns holds, for a non-empty list of
  hex nodes, exactly the levels of the tree one after the other: leaves padded with empty
  cells to the next power of two, then each level of parents, where a missing right child
  repeats the left one and a missing left child leaves the parent empty.\<close>

theorem BuildMerkleTreeStore_levels:
  assumes "list_all node_str txids" "txids \<noteq> []"
  shows "\<exists>k. 2 ^ k = nextPowerOfTwo (length txids) \<and> length txids \<le> 2 ^ k \<and> 2 ^ k < 2 * length txids \<and>
    BuildMerkleTreeStore txids =
    Ok (tree_store (cell_parent '''' str_parent) k (txids @ replicate (2 ^ k - length txids) ''''))"
  using BuildMerkleTreeStore_store [OF assms] unfolding padded_def by metis

theorem BuildMerkleTreeStore_levels_witness:
  "\<exists>cells. BuildMerkleTreeStore [''00'', ''01'', ''02''] = Ok cells"
  using BuildMerkleTreeStore_levels [of "[''00'', ''01'', ''02'']"]
  by (auto simp: node_str_def valid_hex_def from_hex_char_def)

text \<open>C6: \<open>BuildMerkleRoot\<close> returns the Merkle root of the transaction ids: the root of the
  tree of double SHA-256 parents over the ids in internal byte order, displayed reversed.\<close>

theorem BuildMerkleRoot_spec:
  assumes "list_all hash_str txids" "txids \<noteq> []"
  shows "BuildMerkleRoot txids =
    Ok (StringFromBytesReverse (merkle_root node_parent (map BytesFromStringReverse txids)))"
  using BuildMerkleRoot_node_str [OF list_all_node_str [OF assms(1)] assms(2)]
    merkle_root_str_bytes [OF assms]
  by simp

theorem BuildMerkleRoot_spec_witness:
  "BuildMerkleRoot (map (\<lambda>b. StringFromBytesReverse (replicate 32 b)) [1, 2, 3]) =
   Ok (StringFromBytesReverse (node_parent
     (node_parent (replicate 32 1) (replicate 32 2)) (node_parent (replicate 32 3) (replicate 32 3))))"
  using BuildMerkleRoot_spec [of "map (\<lambda>b. StringFromBytesReverse (replicate 32 b)) [1, 2, 3]"]
  by (simp add: merkle_root.simps)

text \<open>\<open>BuildMerkleTreeStoreChainHash\<close> never fails on non-nil hashes, and its array is
  cell by cell the one \<open>BuildMerkleTreeStore\<close> builds from the displayed hashes, \<open>nil\<close>
  standing for the empty string.\<close>

theorem BuildMerkleTreeStoreChainHash_equiv:
  assumes "list_all chain_node txids" "txids \<noteq> []"
  shows "\<exists>cells. BuildMerkleTreeStoreChainHash txids = Ok cells \<and>
    BuildMerkleTreeStore (map cell_string txids) = Ok (map cell_string cells)"
proof -
  let ?n = "length txids"
  obtain k where k: "nextPowerOfTwo ?n = 2 ^ k" "?n \<le> 2 ^ k"
    "BuildMerkleTreeStoreChainHash txids =
      Ok (tree_store (cell_parent None chain_parent) k (padded None (2 ^ k) txids))"
    using BuildMerkleTreeStoreChainHash_store [OF assms] by blast
  have "list_all node_str (map cell_string txids)"
    using assms(1) by (auto simp: list_all_iff node_str_cell_string)
  then obtain l where l: "2 ^ k = (2 :: nat) ^ l" "BuildMerkleTreeStore (map cell_string txids) =
      Ok (tree_store (cell_parent '''' str_parent) l (padded '''' (2 ^ l) (map cell_string txids)))"
    using BuildMerkleTreeStore_store [of "map cell_string txids"] assms(2) k(1) by auto
  from l(1) have "l = k" by simp
  have "list_all (\<lambda>c. c = None \<or> chain_node c) (padded None (2 ^ k) txids)"
    using assms(1) by (auto simp: padded_def list_all_iff)
  then have "map cell_string (tree_store (cell_parent None chain_parent) k (padded None (2 ^ k) txids)) =
      tree_store (cell_parent '''' str_parent) k (map cell_string (padded None (2 ^ k) txids))"
    by (intro map_tree_store [where P = "\<lambda>c. c = None \<or> chain_node c"] chain_node_parent cell_string_parent)
  moreover have "map cell_string (padded None (2 ^ k) txids) =
      padded '''' (2 ^ k) (map cell_string txids)"
    by (simp add: padded_def cell_string_def)
  ultimately show ?thesis using k(3) l(2) \<open>l = k\<close> by simp
qed

theorem BuildMerkleTreeStoreChainHash_equiv_witness:
  "\<exists>cells. BuildMerkleTreeStoreChainHash [Some (replicate 32 1), Some (replicate 32 2)] = Ok cells \<and>
    BuildMerkleTreeStore (map chainhash_String [replicate 32 1, replicate 32 2]) =
    Ok (map cell_string cells)"
  using BuildMerkleTreeStoreChainHash_equiv [of "[Some (replicate 32 1), Some (replicate 32 2)]"]
  by (simp add: chain_node_def cell_string_def)

text \<open>A list of odd length (at least three) and the same list with its last id repeated
  have the same Merkle root, so the root alone does not determine the transactions.\<close>

theorem BuildMerkleRoot_duplicate:
  assumes "list_all hash_str txids" "odd (length txids)" "3 \<le> length txids"
  shows "BuildMerkleRoot (txids @ [last txids]) = BuildMerkleRoot txids"
proof -
  have "txids \<noteq> []" using assms(3) by auto
  moreover have "list_all node_str (txids @ [last txids])"
    using assms(1) \<open>txids \<noteq> []\<close> by (auto simp: list_all_iff hash_str_node)
  ultimately show ?thesis
    using assms by (simp add: BuildMerkleRoot_node_str merkle_root_dup)
qed

theorem BuildMerkleRoot_duplicate_witness:
  "BuildMerkleRoot (map (\<lambda>b. StringFromBytesReverse (replicate 32 b)) [1, 2, 3, 3]) =
   BuildMerkleRoot (map (\<lambda>b. StringFromBytesReverse (replicate 32 b)) [1, 2, 3])"
  using BuildMerkleRoot_duplicate [of "map (\<lambda>b. StringFromBytesReverse (replicate 32 b)) [1, 2, 3]"]
  by simp

text \<open>On an empty list of ids both array builders and \<open>BuildMerkleRoot\<close> panic: the
  array size \<open>nextPoT*2 - 1\<close> is \<open>-1\<close>.\<close>

theorem BuildMerkleRoot_empty_panics:
  "BuildMerkleRoot [] = Panic MakeSliceLen \<and> BuildMerkleTreeStore [] = Panic MakeSliceLen \<and>
   BuildMerkleTreeStoreChainHash [] = Panic MakeSliceLen"
  by (simp add: BuildMerkleRoot_def BuildMerkleTreeStore_def BuildMerkleTreeStoreChainHash_def)

end
