(* ===== verification/Merkle_Path.thy ===== *)
theory Merkle_Path
  imports Merkle_Tree
begin

text \<open>
  \<open>merklepath.go\<close>: Merkle paths in the BRC-58 and BRC-71 formats, the root computed from a
  transaction id and a path, and the extraction of a path from the array of
  \<open>BuildMerkleTreeStore\<close>.
\<close>

record MerklePath =
  mp_Index :: u64
  mp_Path :: "string list"

section \<open>Binary format\<close>

definition read_leaf :: "string cursor_reader" where
  "read_leaf c = bind_res (slice_take 32 c) (\<lambda>(leaf, c'). Ok (StringFromBytesReverse leaf, c'))"

text \<open>Bytes after the last leaf are ignored; a leaf may be read past the end of the slice.\<close>

definition NewMerklePathFromBytes :: "slice \<Rightarrow> MerklePath res" where
  "NewMerklePathFromBytes bytes =
     bind_res (slice_varint (cursor_of bytes)) (\<lambda>(index, c1).
     bind_res (slice_varint c1) (\<lambda>(nLeaves, c2).
     bind_res (slice_many read_leaf (int_count nLeaves) c2) (\<lambda>(path, _).
       Ok \<lparr> mp_Index = index, mp_Path = path \<rparr>)))"

definition NewMerklePathFromStr :: "bytes \<Rightarrow> string \<Rightarrow> MerklePath res" where
  "NewMerklePathFromStr spare str = bind_res (hex_DecodeSlice spare str) NewMerklePathFromBytes"

definition MerklePath_Bytes :: "MerklePath \<Rightarrow> bytes res" where
  "MerklePath_Bytes mp =
     (let index = mp_Index mp; nLeaves = of_nat (length (mp_Path mp))
      in Ok (VarInt_Bytes index @ VarInt_Bytes nLeaves @
             concat (map BytesFromStringReverse (mp_Path mp))))"

definition MerklePath_String :: "MerklePath \<Rightarrow> string res" where
  "MerklePath_String mp = bind_res (MerklePath_Bytes mp) (\<lambda>b. Ok (hex_EncodeToString b))"

section \<open>Root and path\<close>

fun CalculateRoot_loop :: "bytes \<Rightarrow> u64 \<Rightarrow> string list \<Rightarrow> bytes" where
  "CalculateRoot_loop workingHash lsb [] = workingHash"
| "CalculateRoot_loop workingHash lsb (leaf # path) =
     (let leafBytes = BytesFromStringReverse leaf;
          digest = (if lsb AND 1 > 0 then leafBytes @ workingHash else workingHash @ leafBytes)
      in CalculateRoot_loop (Sha256Sha256 digest) (drop_bit 1 lsb) path)"

definition CalculateRoot :: "MerklePath \<Rightarrow> string \<Rightarrow> string res" where
  "CalculateRoot mp txid =
     Ok (StringFromBytesReverse
       (CalculateRoot_loop (BytesFromStringReverse txid) (mp_Index mp) (mp_Path mp)))"

text \<open>
  Go's division truncates; a negative index panics at the lookup before it is halved.
\<close>

function getPathElements :: "int \<Rightarrow> string list \<Rightarrow> string list res" where
  "getPathElements txIndex hashes =
     bind_res (if txIndex mod 2 = 0 then go_index_int hashes (txIndex + 1)
               else go_index_int hashes (txIndex - 1)) (\<lambda>hash.
     bind_res (if hash = '''' then bind_res (go_index_int hashes txIndex) (\<lambda>h. Ok [h])
               else Ok [hash]) (\<lambda>path.
       if length hashes = 3 then Ok path
       else bind_res (getPathElements (txIndex div 2) (drop ((length hashes + 1) div 2) hashes))
              (\<lambda>rest. Ok (path @ rest))))"
  by pat_completeness auto
termination
  by (relation "measure (\<lambda>(i, hashes). length hashes)")
    (auto dest!: go_index_int_OkD split: if_splits)

declare getPathElements.simps [simp del]

definition GetTxMerklePath :: "int \<Rightarrow> string list \<Rightarrow> MerklePath res" where
  "GetTxMerklePath txIndex merkleTree =
     bind_res (if length merkleTree \<noteq> 1 then getPathElements txIndex merkleTree else Ok [])
       (\<lambda>path. Ok \<lparr> mp_Index = of_int txIndex, mp_Path = path \<rparr>)"

section \<open>Round trip\<close>

definition wf_MerklePath :: "MerklePath \<Rightarrow> bool" where
  "wf_MerklePath mp \<longleftrightarrow> list_all hash_str (mp_Path mp) \<and> length (mp_Path mp) < 2 ^ 63"

interpretation path_leaf: slice_codec hash_str BytesFromStringReverse read_leaf
  by unfold_locales (simp add: read_leaf_def, simp add: hash_str_def StringFromBytesReverse_Bytes)

lemma NewMerklePathFromBytes_append:
  assumes "wf_MerklePath mp" "MerklePath_Bytes mp = Ok b"
  shows "NewMerklePathFromBytes (b @ r, s) = Ok mp"
  using assms
  by (cases mp) (auto simp: NewMerklePathFromBytes_def MerklePath_Bytes_def wf_MerklePath_def
      path_leaf.slice_many_enc)

section \<open>Folding\<close>



lemma CalculateRoot_loop_fold:
  "CalculateRoot_loop h i path =
     fold_path node_parent h (unat i) (map BytesFromStringReverse path)"
proof (induction h i path rule: CalculateRoot_loop.induct)
  case (2 h i leaf path)
  have "i AND 1 > 0 \<longleftrightarrow> odd i"
    by (simp add: and_one_eq word_gt_0 odd_iff_mod_2_eq_one)
  also have "\<dots> \<longleftrightarrow> odd (unat i)" by (rule odd_unat)
  finally have "i AND 1 > 0 \<longleftrightarrow> odd (unat i)" .
  moreover have "unat (drop_bit 1 i) = unat i div 2"
    unfolding unat_drop_bit_eq by (simp add: drop_bit_eq_div)
  ultimately show ?case
    using 2 by (simp add: Let_def Sha256Sha256_Sha256d node_parent_def)
qed simp

lemma CalculateRoot_fold:
  "CalculateRoot mp txid =
     Ok (StringFromBytesReverse (fold_path node_parent (BytesFromStringReverse txid)
       (unat (mp_Index mp)) (map BytesFromStringReverse (mp_Path mp))))"
  by (simp add: CalculateRoot_def CalculateRoot_loop_fold)

lemma map_String_Bytes:
  "list_all hash_str xs \<Longrightarrow> map StringFromBytesReverse (map BytesFromStringReverse xs) = xs"
  by (induction xs) (auto simp: hash_str_def StringFromBytesReverse_Bytes)

lemma CalculateRoot_fold_str:
  assumes "hash_str txid" "list_all hash_str (mp_Path mp)"
  shows "CalculateRoot mp txid = Ok (fold_path str_parent txid (unat (mp_Index mp)) (mp_Path mp))"
  using map_fold_path [where g = StringFromBytesReverse and comb = node_parent and comb' = str_parent,
      OF str_parent_String, of "BytesFromStringReverse txid" "unat (mp_Index mp)"
      "map BytesFromStringReverse (mp_Path mp)"] assms
  by (simp only: CalculateRoot_fold map_String_Bytes)
    (simp add: hash_str_def StringFromBytesReverse_Bytes)

section \<open>The path in the array\<close>

lemma getPathElements_sibling:
  assumes "list_all node_str xs" "i < length xs" "length xs \<le> 2 * n"
    and "hashes = padded '''' (2 * n) xs @ rest"
  shows "getPathElements (int i) hashes =
    (if length hashes = 3 then Ok [sibling xs i]
     else bind_res (getPathElements (int (i div 2)) (drop ((length hashes + 1) div 2) hashes))
            (\<lambda>r. Ok (sibling xs i # r)))"
proof -
  let ?P = "padded '''' (2 * n) xs"
  define j where "j = (if even i then i + 1 else i - 1)"
  have len: "length ?P = 2 * n" using assms(3) by (simp add: padded_def)
  have sib: "j < 2 * n" "(if ?P ! j = '''' then ?P ! i else ?P ! j) = sibling xs i"
    using str_cells.padded_sibling [OF assms(1-3) j_def] by auto
  have P: "hashes ! l = ?P ! l" "l < length hashes" if "l < 2 * n" for l
    using that len assms(4) by (auto simp: nth_append)
  have i: "i < 2 * n" using assms(2,3) by simp
  have "(if int i mod 2 = 0 then go_index_int hashes (int i + 1)
      else go_index_int hashes (int i - 1)) = go_index_int hashes (int j)"
  proof (cases "even i")
    case True
    then have "int i mod 2 = 0" by presburger
    with True show ?thesis by (simp add: j_def add.commute)
  next
    case False
    then have "int i mod 2 \<noteq> 0" "int i - 1 = int j" by (presburger, simp add: j_def of_nat_diff odd_pos Suc_leI)
    with False show ?thesis by simp
  qed
  also have "\<dots> = Ok (?P ! j)" using P [OF sib(1)] by simp
  finally have hash: "(if int i mod 2 = 0 then go_index_int hashes (int i + 1)
      else go_index_int hashes (int i - 1)) = Ok (?P ! j)" .
  have "(if ?P ! j = '''' then bind_res (go_index_int hashes (int i)) (\<lambda>h. Ok [h])
      else Ok [?P ! j]) = Ok [sibling xs i]"
    using P [OF i] sib(2) by auto
  with hash show ?thesis
    by (subst getPathElements.simps) (simp only: bind_res.simps zdiv_int, simp)
qed

lemma getPathElements_store:
  assumes "list_all node_str xs" "i < length xs" "length xs \<le> 2 ^ Suc k" "2 ^ Suc k < 2 * length xs"
  shows "getPathElements (int i)
      (tree_store (cell_parent '''' str_parent) (Suc k) (padded '''' (2 ^ Suc k) xs)) =
    Ok (merkle_path str_parent xs i)"
  using assms
proof (induction k arbitrary: xs i)
  case 0
  then have xs: "length xs = 2" by simp
  have "length (tree_store (cell_parent '''' str_parent) (Suc 0) (padded '''' (2 ^ Suc 0) xs)) = 3"
    using xs by (simp add: padded_def)
  with 0 xs show ?case
    by (subst getPathElements_sibling [OF 0(1,2), of 1])
      (auto simp: merkle_path_step merkle_path_short)
next
  case (Suc k)
  let ?f = "cell_parent '''' str_parent"
  let ?l = "merkle_level str_parent xs"
  let ?rest = "tree_store ?f (Suc k) (padded '''' (2 ^ Suc k) ?l)"
  from Suc.prems have l: "length ?l \<le> 2 ^ Suc k" "2 ^ Suc k < 2 * length ?l" "i div 2 < length ?l"
    "list_all node_str ?l" by (auto intro: str_cells.wf_level)
  have lenP: "length (padded '''' (2 ^ Suc (Suc k)) xs) = 2 ^ Suc (Suc k)"
    using Suc.prems by (simp add: padded_def)
  have "length (padded '''' (2 ^ Suc k) ?l) = 2 ^ Suc k" using l by (simp add: padded_def)
  then have lenR: "length ?rest = 2 * 2 ^ Suc k - 1" by (rule length_tree_store)
  have store: "tree_store ?f (Suc (Suc k)) (padded '''' (2 ^ Suc (Suc k)) xs) =
      padded '''' (2 * 2 ^ Suc k) xs @ ?rest"
    using str_cells.tree_store_padded_Suc [of xs "Suc k"] Suc.prems by simp
  let ?S = "padded '''' (2 * 2 ^ Suc k) xs @ ?rest"
  have "length ?S = 8 * 2 ^ k - 1" using lenP lenR by simp
  moreover have "(1 :: nat) \<le> 2 ^ k" by simp
  ultimately have lenS: "length ?S \<noteq> 3" "(length ?S + 1) div 2 = 2 ^ Suc (Suc k)"
    by (linarith, simp)
  then have "drop ((length ?S + 1) div 2) ?S = ?rest" using lenP by simp
  with lenS Suc.IH [OF l(4,3,1,2)] Suc.prems show ?case
    unfolding store
    by (subst getPathElements_sibling [where n = "2 ^ Suc k" and rest = ?rest])
      (simp_all add: merkle_path_step)
qed

lemma GetTxMerklePath_store:
  assumes "list_all node_str txids" "i < length txids"
  shows "\<exists>store. BuildMerkleTreeStore txids = Ok store \<and>
    GetTxMerklePath (int i) store =
    Ok \<lparr> mp_Index = of_nat i, mp_Path = merkle_path str_parent txids i \<rparr>"
proof -
  have "txids \<noteq> []" using assms(2) by auto
  then obtain k where k: "length txids \<le> 2 ^ k" "2 ^ k < 2 * length txids"
      "BuildMerkleTreeStore txids =
        Ok (tree_store (cell_parent '''' str_parent) k (padded '''' (2 ^ k) txids))"
    using BuildMerkleTreeStore_store [OF assms(1)] by blast
  let ?S = "tree_store (cell_parent '''' str_parent) k (padded '''' (2 ^ k) txids)"
  have "length (padded '''' (2 ^ k) txids) = 2 ^ k" using k(1) by (simp add: padded_def)
  then have len: "length ?S = 2 * 2 ^ k - 1" by (rule length_tree_store)
  have "(if length ?S \<noteq> 1 then getPathElements (int i) ?S else Ok []) =
      Ok (merkle_path str_parent txids i)"
  proof (cases k)
    case 0
    with k(1,2) len show ?thesis by (simp add: merkle_path_short)
  next
    case (Suc k')
    have "(1 :: nat) \<le> 2 ^ k'" by simp
    with len have "length ?S \<noteq> 1" unfolding Suc power_Suc by linarith
    then show ?thesis
      using getPathElements_store [of txids i k'] assms k(1,2) by (simp only: Suc if_True simp_thms)
  qed
  then have "GetTxMerklePath (int i) ?S =
      Ok \<lparr> mp_Index = of_nat i, mp_Path = merkle_path str_parent txids i \<rparr>"
    by (simp only: GetTxMerklePath_def bind_res.simps of_int_of_nat_eq)
  with k(3) show ?thesis by blast
qed

section \<open>Properties\<close>

text \<open>\<open>NewMerklePathFromBytes\<close> reads back what \<open>MerklePath.Bytes\<close> writes (32-byte
  hashes in lower-case hex), whatever follows it, in the slice or behind it, and \<open>NewMerklePathFromStr\<close> reads back
  \<open>MerklePath.String\<close>.\<close>

theorem MerklePath_roundtrip:
  assumes "wf_MerklePath mp"
  shows "\<exists>b t. MerklePath_Bytes mp = Ok b \<and> NewMerklePathFromBytes (b @ r, s) = Ok mp \<and>
    MerklePath_String mp = Ok t \<and> NewMerklePathFromStr s t = Ok mp"
proof -
  obtain b where b: "MerklePath_Bytes mp = Ok b" by (simp add: MerklePath_Bytes_def)
  with NewMerklePathFromBytes_append [OF assms b, of r s] NewMerklePathFromBytes_append [OF assms b, of "[]" s]
  show ?thesis by (simp add: MerklePath_String_def NewMerklePathFromStr_def)
qed

theorem MerklePath_roundtrip_witness:
  "\<exists>b. MerklePath_Bytes \<lparr> mp_Index = 5, mp_Path = [StringFromBytesReverse (replicate 32 7)] \<rparr> = Ok b \<and>
    NewMerklePathFromBytes (b @ [1], [2]) =
    Ok \<lparr> mp_Index = 5, mp_Path = [StringFromBytesReverse (replicate 32 7)] \<rparr>"
  using MerklePath_roundtrip
    [of "\<lparr> mp_Index = 5, mp_Path = [StringFromBytesReverse (replicate 32 7)] \<rparr>" "[1]" "[2]"]
  by (auto simp: wf_MerklePath_def)

text \<open>The path \<open>GetTxMerklePath\<close> extracts from the array of \<open>BuildMerkleTreeStore\<close> for
  a transaction of the block is the list of siblings up to the root, the node itself where
  an odd level has no right sibling.\<close>

theorem GetTxMerklePath_siblings:
  assumes "list_all node_str txids" "i < length txids"
  shows "\<exists>store. BuildMerkleTreeStore txids = Ok store \<and>
    GetTxMerklePath (int i) store =
    Ok \<lparr> mp_Index = of_nat i, mp_Path = merkle_path str_parent txids i \<rparr>"
  using assms by (rule GetTxMerklePath_store)

theorem GetTxMerklePath_siblings_witness:
  "\<exists>store. BuildMerkleTreeStore [''00'', ''01'', ''02''] = Ok store \<and>
    GetTxMerklePath 2 store =
    Ok \<lparr> mp_Index = 2, mp_Path = [''02'', str_parent ''00'' ''01''] \<rparr>"
  using GetTxMerklePath_siblings [of "[''00'', ''01'', ''02'']" 2]
  by (simp add: node_str_def valid_hex_def from_hex_char_def merkle_path.simps sibling_def)

text \<open>C8: for every transaction of a block, the root \<open>CalculateRoot\<close> computes from its id and
  the path \<open>GetTxMerklePath\<close> extracts is the root \<open>BuildMerkleRoot\<close> returns for the block.\<close>

theorem CalculateRoot_GetTxMerklePath:
  assumes "list_all hash_str txids" "i < length txids" "length txids < 2 ^ 63"
  shows "\<exists>store mp. BuildMerkleTreeStore txids = Ok store \<and> GetTxMerklePath (int i) store = Ok mp \<and>
    CalculateRoot mp (txids ! i) = BuildMerkleRoot txids"
proof -
  have ne: "txids \<noteq> []" using assms(2) by auto
  note nodes = list_all_node_str [OF assms(1)]
  have idx: "unat (of_nat i :: u64) = i" using assms(2,3) by (intro unat_of_nat_u64) simp
  have "list_all hash_str (merkle_path str_parent txids i)"
    by (rule str_hash.wf_path [OF assms(1,2)])
  moreover have "hash_str (txids ! i)" using assms(1,2) by (simp add: list_all_length)
  ultimately have "CalculateRoot \<lparr> mp_Index = of_nat i, mp_Path = merkle_path str_parent txids i \<rparr>
      (txids ! i) = Ok (merkle_root str_parent txids)"
    using fold_merkle_path [OF assms(2), of str_parent] by (simp add: CalculateRoot_fold_str idx)
  with GetTxMerklePath_store [OF nodes assms(2)] BuildMerkleRoot_node_str [OF nodes ne]
  show ?thesis by metis
qed

theorem CalculateRoot_GetTxMerklePath_witness:
  "\<exists>store mp. BuildMerkleTreeStore (map (\<lambda>b. StringFromBytesReverse (replicate 32 b)) [1, 2, 3]) = Ok store \<and>
    GetTxMerklePath 2 store = Ok mp \<and>
    CalculateRoot mp (StringFromBytesReverse (replicate 32 3)) =
    BuildMerkleRoot (map (\<lambda>b. StringFromBytesReverse (replicate 32 b)) [1, 2, 3])"
  using CalculateRoot_GetTxMerklePath
    [of "map (\<lambda>b. StringFromBytesReverse (replicate 32 b)) [1, 2, 3]" 2]
  by simp

text \<open>Merkle paths bind: take two ids with paths of the same length at the same index.
  Either \<open>path_collision\<close> computes from them two different byte strings with the same
  double SHA-256 digest, or \<open>CalculateRoot\<close> gives the same root only if the ids and the
  paths are the same.\<close>

theorem CalculateRoot_binding:
  assumes "hash_str txid" "hash_str txid'" "list_all hash_str path" "list_all hash_str path'"
    and "length path = length path'"
  shows "case path_collision str_parent (\<lambda>l r. BytesFromStringReverse l @ BytesFromStringReverse r)
      txid path txid' path' (unat i) of
      None \<Rightarrow> CalculateRoot \<lparr> mp_Index = i, mp_Path = path \<rparr> txid =
          CalculateRoot \<lparr> mp_Index = i, mp_Path = path' \<rparr> txid' \<longleftrightarrow> txid = txid' \<and> path = path'
    | Some (x, y) \<Rightarrow> x \<noteq> y \<and> Sha256d x = Sha256d y"
  using str_hash.fold_path_case [OF assms, of "unat i"] assms
  by (simp add: CalculateRoot_fold_str cong: option.case_cong)

theorem CalculateRoot_binding_witness:
  "case path_collision str_parent (\<lambda>l r. BytesFromStringReverse l @ BytesFromStringReverse r)
      (StringFromBytesReverse (replicate 32 1)) [StringFromBytesReverse (replicate 32 2)]
      (StringFromBytesReverse (replicate 32 3)) [StringFromBytesReverse (replicate 32 2)] 0 of
      None \<Rightarrow> CalculateRoot \<lparr> mp_Index = 0, mp_Path = [StringFromBytesReverse (replicate 32 2)] \<rparr>
            (StringFromBytesReverse (replicate 32 1)) \<noteq>
          CalculateRoot \<lparr> mp_Index = 0, mp_Path = [StringFromBytesReverse (replicate 32 2)] \<rparr>
            (StringFromBytesReverse (replicate 32 3))
    | Some (x, y) \<Rightarrow> x \<noteq> y \<and> Sha256d x = Sha256d y"
  using CalculateRoot_binding [of "StringFromBytesReverse (replicate 32 1)"
      "StringFromBytesReverse (replicate 32 3)" "[StringFromBytesReverse (replicate 32 2)]"
      "[StringFromBytesReverse (replicate 32 2)]" 0]
  by (simp del: path_collision.simps split: option.splits prod.splits)

end
