(* ===== verification/Merkle_Branches.thy ===== *)
theory Merkle_Branches
  imports Merkle_Path
begin

text \<open>
  \<open>merklebranches.go\<close>: the branches of the first transaction of a block (the coinbase), and
  the root computed from an id, an index and branches.
\<close>

text \<open>\<open>hashes\<close> is made with length 0, so the first assignment is already out of range.\<close>

fun getHashes_loop :: "nat \<Rightarrow> string list \<Rightarrow> string list \<Rightarrow> string list res" where
  "getHashes_loop i hashes [] = Ok hashes"
| "getHashes_loop i hashes (tx # txs) =
     (if i < length hashes then getHashes_loop (i + 1) (hashes[i := ReverseHexString tx]) txs
      else Panic IndexOutOfRange)"

definition getHashes :: "string list \<Rightarrow> string list res" where
  "getHashes txHashes = getHashes_loop 0 [] txHashes"

text \<open>One level of \<open>walkBranch\<close>: \<open>for i := 0; i < tot; i += 2\<close>.\<close>

definition walk_level :: "string list \<Rightarrow> string list" where
  "walk_level hashes =
     map (\<lambda>j. let i = 2 * j;
                  a = fst (hexDecode (hashes ! i));
                  b = (if i + 1 < length hashes then fst (hexDecode (hashes ! (i + 1))) else a);
                  hash = Sha256d (a @ b)
              in hex_EncodeToString hash)
       [0..<(length hashes + 1) div 2]"

text \<open>The closure \<open>walkBranch\<close> appends to the captured \<open>branches\<close>; its result is not used.\<close>

function walkBranch :: "string list \<Rightarrow> string list \<Rightarrow> string list" where
  "walkBranch branches hashes =
     (if length hashes < 2 then branches
      else walkBranch (branches @ [hashes ! 1]) (walk_level hashes))"
  by pat_completeness auto
termination
  by (relation "measure (\<lambda>(b, h). length h)") (auto simp: walk_level_def)

declare walkBranch.simps [simp del]

definition GetMerkleBranches :: "string list \<Rightarrow> string list res" where
  "GetMerkleBranches template =
     bind_res (getHashes template) (\<lambda>hashes. Ok (walkBranch [] hashes))"

fun branches_loop :: "bytes \<Rightarrow> int \<Rightarrow> string list \<Rightarrow> (bytes \<times> int) res" where
  "branches_loop hash txIndex [] = Ok (hash, txIndex)"
| "branches_loop hash txIndex (b # branches) =
     bind_res (hex_DecodeString b) (\<lambda>h0.
       let h = ReverseBytes h0;
           hash' = (if txIndex AND 1 > 0 then Sha256d (h @ hash) else Sha256d (hash @ h))
       in branches_loop hash' (drop_bit 1 txIndex) branches)"

definition MerkleRootFromBranches :: "string \<Rightarrow> int \<Rightarrow> string list \<Rightarrow> string res" where
  "MerkleRootFromBranches txHash txIndex branches =
     bind_res (hex_DecodeString txHash) (\<lambda>hash0.
     bind_res (branches_loop (ReverseBytes hash0) txIndex branches) (\<lambda>(hash, txIndex').
       if txIndex' > 0 then
         Err (Msg (''index '' @ show_nat (nat txIndex') @ '' out of range for proof of length '' @
                   show_nat (length branches)))
       else Ok (hex_EncodeToString (ReverseBytes hash))))"

section \<open>Branches of the coinbase\<close>

definition raw_parent :: "string \<Rightarrow> string \<Rightarrow> string" where
  "raw_parent a b = hex_EncodeToString (node_parent (fst (hexDecode a)) (fst (hexDecode b)))"

lemma walk_level_merkle_level: "walk_level hashes = merkle_level raw_parent hashes"
proof (rule nth_equalityI)
  fix j
  assume "j < length (walk_level hashes)"
  then have j: "2 * j < length hashes" by (simp add: walk_level_def)
  then have "walk_level hashes ! j = raw_parent (hashes ! (2 * j)) (sibling hashes (2 * j))"
    by (auto simp: walk_level_def Let_def raw_parent_def node_parent_def sibling_def)
  with nth_merkle_level [OF j, of raw_parent] show "walk_level hashes ! j = merkle_level raw_parent hashes ! j"
    by simp
qed (simp add: walk_level_def)

lemma walkBranch_path:
  "walkBranch branches hashes = branches @ merkle_path raw_parent hashes 0"
proof (induction branches hashes rule: walkBranch.induct)
  case (1 branches hashes)
  show ?case
  proof (cases "length hashes < 2")
    case True
    then show ?thesis by (simp add: walkBranch.simps merkle_path_short)
  next
    case False
    with 1 show ?thesis
      by (subst walkBranch.simps)
        (simp add: merkle_path_step walk_level_merkle_level sibling_def)
  qed
qed

lemma BuildMerkleRootFromCoinbase_fold:
  "BuildMerkleRootFromCoinbase h branches =
     fold_path node_parent h 0 (map (\<lambda>b. fst (hexDecode b)) branches)"
  unfolding BuildMerkleRootFromCoinbase_def
  by (induction branches arbitrary: h) (simp_all add: Let_def node_parent_def)

lemma fold_raw_path:
  "fst (hexDecode (fold_path raw_parent h i p)) =
     fold_path node_parent (fst (hexDecode h)) i (map (\<lambda>b. fst (hexDecode b)) p)"
  by (rule map_fold_path) (simp add: raw_parent_def)

lemma walkBranch_root:
  assumes "hashes \<noteq> []"
  shows "BuildMerkleRootFromCoinbase (fst (hexDecode (hashes ! 0))) (walkBranch [] hashes) =
    merkle_root node_parent (map (\<lambda>b. fst (hexDecode b)) hashes)"
proof -
  from assms have "fold_path raw_parent (hashes ! 0) 0 (merkle_path raw_parent hashes 0) =
      merkle_root raw_parent hashes"
    by (intro fold_merkle_path) simp
  then have "BuildMerkleRootFromCoinbase (fst (hexDecode (hashes ! 0))) (walkBranch [] hashes) =
      fst (hexDecode (merkle_root raw_parent hashes))"
    by (simp add: BuildMerkleRootFromCoinbase_fold walkBranch_path flip: fold_raw_path)
  also have "\<dots> = merkle_root node_parent (map (\<lambda>b. fst (hexDecode b)) hashes)"
    by (rule map_merkle_root) (simp_all add: raw_parent_def assms)
  finally show ?thesis .
qed

lemma hexDecode_ReverseHexString:
  assumes "hash_str s"
  shows "fst (hexDecode (ReverseHexString s)) = BytesFromStringReverse s"
proof -
  from assms obtain h where h: "s = StringFromBytesReverse h" "BytesFromStringReverse s = h"
    by (rule hash_strE)
  have "ReverseHexString s = hex_EncodeToString h"
    unfolding h(1) by (simp add: StringFromBytesReverse_def ReverseHexString_Encode)
  with h(2) show ?thesis by simp
qed

section \<open>Root from branches\<close>

text \<open>An arithmetic shift keeps the sign: a negative index never becomes positive, and its low bits
  are those of two's complement.\<close>

lemma branches_loop_int:
  "list_all valid_hex branches \<Longrightarrow> branches_loop h i branches =
     Ok (fold_path node_parent h (nat (i mod 2 ^ length branches)) (map BytesFromStringReverse branches),
         i div 2 ^ length branches)"
proof (induction branches arbitrary: h i)
  case (Cons b branches)
  let ?m = "2 ^ length branches :: int"
  have "i mod (2 * ?m) = 2 * (i div 2 mod ?m) + i mod 2" by (rule zmod_zmult2_eq) simp
  moreover have "0 \<le> i div 2 mod ?m" by simp
  ultimately have low: "nat (i mod (2 * ?m)) = 2 * nat (i div 2 mod ?m) + nat (i mod 2)"
    by (simp add: nat_add_distrib nat_mult_distrib)
  have "nat (i mod 2) = (if even i then 0 else 1)" by (simp add: odd_iff_mod_2_eq_one)
  with low have parity: "even (nat (i mod (2 * ?m))) = even i"
    "nat (i mod (2 * ?m)) div 2 = nat (i div 2 mod ?m)" by simp_all
  have hash: "(if i AND 1 > 0 then Sha256d (x @ h) else Sha256d (h @ x)) =
      (if odd i then node_parent x h else node_parent h x)" for x
    by (simp add: node_parent_def and_one_eq) presburger
  have div: "drop_bit 1 i = i div 2" "i div (2 * ?m) = i div 2 div ?m"
    by (simp add: drop_bit_eq_div, rule zdiv_zmult2_eq) simp
  have "branches_loop h i (b # branches) =
      branches_loop (if i AND 1 > 0 then Sha256d (BytesFromStringReverse b @ h)
        else Sha256d (h @ BytesFromStringReverse b)) (drop_bit 1 i) branches"
    using Cons.prems by (simp add: hex_DecodeString_valid Let_def BytesFromStringReverse_def)
  also have "\<dots> = Ok (fold_path node_parent (if odd i then node_parent (BytesFromStringReverse b) h
            else node_parent h (BytesFromStringReverse b)) (nat (i div 2 mod ?m))
            (map BytesFromStringReverse branches), i div (2 * ?m))"
    unfolding hash div using Cons.prems by (intro Cons.IH) simp
  finally have step: "branches_loop h i (b # branches) = \<dots>" .
  show ?case
    unfolding step list.map length_Cons power_Suc fold_path.simps parity by (cases "even i") simp_all
qed simp

lemma MerkleRootFromBranches_int:
  assumes "valid_hex txHash" "list_all valid_hex branches"
  shows "MerkleRootFromBranches txHash i branches =
    (if i < 2 ^ length branches then
       Ok (StringFromBytesReverse (fold_path node_parent (BytesFromStringReverse txHash)
         (nat (i mod 2 ^ length branches)) (map BytesFromStringReverse branches)))
     else Err (Msg (''index '' @ show_nat (nat (i div 2 ^ length branches)) @
       '' out of range for proof of length '' @ show_nat (length branches))))"
proof -
  have "0 < i div 2 ^ length branches \<longleftrightarrow> \<not> i < 2 ^ length branches"
    using pos_imp_zdiv_pos_iff [of "2 ^ length branches" i] by auto
  then show ?thesis
    using branches_loop_int [OF assms(2)] assms(1)
    by (simp add: MerkleRootFromBranches_def hex_DecodeString_valid
        BytesFromStringReverse_def StringFromBytesReverse_def)
qed


lemma branches_loop_invalid:
  "\<not> list_all valid_hex branches \<Longrightarrow> \<exists>e. branches_loop h i branches = Err e"
proof (induction branches arbitrary: h i)
  case (Cons b branches)
  then show ?case
    by (cases "valid_hex b")
      (auto simp: hex_DecodeString_valid Let_def dest!: hex_DecodeString_invalid)
qed simp

section \<open>Properties\<close>

text \<open>\<open>GetMerkleBranches\<close> panics on every non-empty template: \<open>getHashes\<close> assigns into
  a slice it has made with length 0. On the empty template it returns no branches.\<close>

theorem GetMerkleBranches_panics:
  "GetMerkleBranches template = (if template = [] then Ok [] else Panic IndexOutOfRange)"
  by (cases template) (simp_all add: GetMerkleBranches_def getHashes_def walkBranch.simps)

text \<open>The branches \<open>walkBranch\<close> collects from the ids of a block in internal byte order
  (what \<open>getHashes\<close> is to compute) lead \<open>BuildMerkleRootFromCoinbase\<close> from the id of the
  coinbase to the root \<open>BuildMerkleRoot\<close> returns.\<close>

theorem walkBranch_BuildMerkleRoot:
  assumes "list_all hash_str txids" "txids \<noteq> []"
  shows "BuildMerkleRoot txids = Ok (StringFromBytesReverse
    (BuildMerkleRootFromCoinbase (BytesFromStringReverse (txids ! 0))
      (walkBranch [] (map ReverseHexString txids))))"
proof -
  have ids: "map ((\<lambda>b. fst (hexDecode b)) \<circ> ReverseHexString) txids =
      map BytesFromStringReverse txids"
    using assms(1) by (auto simp: list_all_iff hexDecode_ReverseHexString)
  have "hash_str (txids ! 0)" using assms by (cases txids) auto
  then show ?thesis
    using walkBranch_root [of "map ReverseHexString txids"] assms
      BuildMerkleRoot_node_str [OF list_all_node_str [OF assms(1)] assms(2)]
    by (simp add: merkle_root_str_bytes hexDecode_ReverseHexString ids)
qed

theorem walkBranch_BuildMerkleRoot_witness:
  "BuildMerkleRoot (map (\<lambda>b. StringFromBytesReverse (replicate 32 b)) [1, 2, 3]) =
   Ok (StringFromBytesReverse (BuildMerkleRootFromCoinbase (replicate 32 1)
     (walkBranch [] (map (\<lambda>b. ReverseHexString (StringFromBytesReverse (replicate 32 b))) [1, 2, 3]))))"
  using walkBranch_BuildMerkleRoot [of "map (\<lambda>b. StringFromBytesReverse (replicate 32 b)) [1, 2, 3]"]
  by simp

text \<open>C39: what \<open>MerkleRootFromBranches\<close> does on every 64-bit index. When every string is hex and
  the index is below two to the length of the proof, it returns the fold of the proof along the low
  bits of the index; this is the root \<open>MerklePath.CalculateRoot\<close> computes (for a negative index, of
  the two's complement, and a proof of at most 64 nodes). Otherwise it is an error. Every negative
  index is accepted: what is left of it after the loop is never above 0.\<close>

theorem MerkleRootFromBranches_CalculateRoot:
  assumes "- (2 ^ 63) \<le> i" "i < 2 ^ 63"
  shows "if valid_hex txHash \<and> list_all valid_hex branches \<and> i < 2 ^ length branches
    then MerkleRootFromBranches txHash i branches =
           Ok (StringFromBytesReverse (fold_path node_parent (BytesFromStringReverse txHash)
             (nat (i mod 2 ^ length branches)) (map BytesFromStringReverse branches))) \<and>
         (0 \<le> i \<or> length branches \<le> 64 \<longrightarrow>
           MerkleRootFromBranches txHash i branches =
           CalculateRoot \<lparr> mp_Index = of_int i, mp_Path = branches \<rparr> txHash)
    else (\<exists>e. MerkleRootFromBranches txHash i branches = Err e)"
proof (cases "valid_hex txHash \<and> list_all valid_hex branches")
  case True
  let ?n = "length branches"
  have bits: "nat (i mod 2 ^ ?n) mod 2 ^ ?n = unat (of_int i :: u64) mod 2 ^ ?n"
    if "0 \<le> i \<or> ?n \<le> 64"
  proof -
    have u: "uint (of_int i :: u64) = i mod 2 ^ 64" by (simp add: uint_word_of_int)
    have "i mod 2 ^ 64 mod 2 ^ ?n = i mod 2 ^ ?n"
    proof (cases "0 \<le> i")
      case True
      with assms have "i mod 2 ^ 64 = i" by simp
      then show ?thesis by simp
    next
      case False
      with that have "(2 :: int) ^ ?n dvd 2 ^ 64" by (intro le_imp_power_dvd) simp
      then show ?thesis by (rule mod_mod_cancel)
    qed
    then have "nat (i mod 2 ^ ?n) = nat (uint (of_int i :: u64) mod 2 ^ ?n)" by (simp only: u)
    also have "\<dots> = unat (of_int i :: u64) mod 2 ^ ?n" by (simp add: nat_mod_distrib nat_power_eq)
    finally show ?thesis by simp
  qed
  show ?thesis
    using True fold_path_mod [of "nat (i mod 2 ^ ?n)" "map BytesFromStringReverse branches"] bits
    by (simp add: MerkleRootFromBranches_int CalculateRoot_fold)
next
  case False
  then show ?thesis
    using hex_DecodeString_invalid [of txHash]
      branches_loop_invalid [of branches "ReverseBytes (fst (hexDecode txHash))" i]
    by (cases "valid_hex txHash") (auto simp: MerkleRootFromBranches_def hex_DecodeString_valid)
qed

theorem MerkleRootFromBranches_CalculateRoot_witness:
  "MerkleRootFromBranches ''00'' 1 [''01''] = CalculateRoot \<lparr> mp_Index = 1, mp_Path = [''01''] \<rparr> ''00'' \<and>
   MerkleRootFromBranches ''00'' (- 3) [''01''] = CalculateRoot \<lparr> mp_Index = - 3, mp_Path = [''01''] \<rparr> ''00'' \<and>
   is_Ok (MerkleRootFromBranches ''00'' (- 3) [''01''])"
proof -
  have hex: "valid_hex ''00''" "valid_hex ''01''" by (simp_all add: valid_hex_def from_hex_char_def)
  have "MerkleRootFromBranches ''00'' 1 [''01''] = CalculateRoot \<lparr> mp_Index = 1, mp_Path = [''01''] \<rparr> ''00''"
    using MerkleRootFromBranches_CalculateRoot [of 1 "''00''" "[''01'']"] hex by auto
  moreover have
    "MerkleRootFromBranches ''00'' (- 3) [''01''] = CalculateRoot \<lparr> mp_Index = - 3, mp_Path = [''01''] \<rparr> ''00''"
    "is_Ok (MerkleRootFromBranches ''00'' (- 3) [''01''])"
    using MerkleRootFromBranches_CalculateRoot [of "- 3" "''00''" "[''01'']"] hex by auto
  ultimately show ?thesis by blast
qed

end
