(* ===== verification/Target.thy ===== *)
theory Target
  imports Byte_Manip
begin

text \<open>
  The integer half of \<open>difficulty.go\<close>: expanding the compact \<open>nBits\<close> form of a target,
  and the conversions of \<open>math/big\<close> it uses. The floating-point half is in \<open>Difficulty\<close>.
\<close>

section \<open>math/big\<close>

text \<open>\<open>Int.Bytes\<close>: the absolute value, big endian, without leading zeros; \<open>SetBytes\<close>.\<close>

fun nat_Bytes :: "nat \<Rightarrow> bytes" where
  "nat_Bytes n = (if n = 0 then [] else nat_Bytes (n div 256) @ [of_nat (n mod 256)])"

declare nat_Bytes.simps [simp del]

definition big_Bytes :: "int \<Rightarrow> bytes" where
  "big_Bytes n = nat_Bytes (nat \<bar>n\<bar>)"

definition big_SetBytes :: "bytes \<Rightarrow> nat" where
  "big_SetBytes b = foldl (\<lambda>acc x. 256 * acc + unat x) 0 b"

lemma big_SetBytes_Nil [simp]: "big_SetBytes [] = 0"
  by (simp add: big_SetBytes_def)

lemma big_SetBytes_snoc [simp]: "big_SetBytes (b @ [x]) = 256 * big_SetBytes b + unat x"
  by (simp add: big_SetBytes_def)

lemma unat_byte_less: "unat (x :: byte) < 256"
  using unsigned_less [where ?'a = nat and w = x] by simp

lemma big_SetBytes_less: "big_SetBytes b < 256 ^ length b"
proof (induction b rule: rev_induct)
  case (snoc x b)
  then have "Suc (big_SetBytes b) * 256 \<le> 256 ^ length b * 256" by (intro mult_le_mono1) simp
  with unat_byte_less [of x] show ?case by simp
qed simp

lemma big_SetBytes_nat_Bytes [simp]: "big_SetBytes (nat_Bytes n) = n"
proof (induction n rule: nat_Bytes.induct)
  case (1 n)
  show ?case
  proof (cases "n = 0")
    case False
    have "unat (of_nat (n mod 256) :: byte) = n mod 256"
      by (simp add: unat_of_nat take_bit_nat_eq_self)
    with 1 False show ?thesis
      by (simp add: nat_Bytes.simps [of n] mult_div_mod_eq)
  qed (simp add: nat_Bytes.simps)
qed

lemma length_nat_Bytes_le: "n < 256 ^ k \<Longrightarrow> length (nat_Bytes n) \<le> k"
proof (induction n arbitrary: k rule: nat_Bytes.induct)
  case (1 n)
  show ?case
  proof (cases "n = 0")
    case False
    with "1.prems" obtain j where k: "k = Suc j" by (cases k) auto
    with "1.prems" have "n div 256 < 256 ^ j" by (simp add: less_mult_imp_div_less mult.commute)
    with 1 False k show ?thesis by (simp add: nat_Bytes.simps [of n])
  qed (simp add: nat_Bytes.simps)
qed

lemma nat_Bytes_length_iff: "length (nat_Bytes n) \<le> k \<longleftrightarrow> n < 256 ^ k"
proof
  assume "length (nat_Bytes n) \<le> k"
  then have "(256 :: nat) ^ length (nat_Bytes n) \<le> 256 ^ k" by (simp add: power_increasing)
  moreover have "n < 256 ^ length (nat_Bytes n)" using big_SetBytes_less [of "nat_Bytes n"] by simp
  ultimately show "n < 256 ^ k" by linarith
qed (rule length_nat_Bytes_le)

lemma foldl_SetBytes:
  "foldl (\<lambda>acc x. 256 * acc + unat x) a b = a * 256 ^ length b + big_SetBytes b"
  by (induction b rule: rev_induct) (simp_all add: algebra_simps)

lemma big_SetBytes_append:
  "big_SetBytes (a @ b) = big_SetBytes a * 256 ^ length b + big_SetBytes b"
  using foldl_SetBytes [of "big_SetBytes a" b] by (simp add: big_SetBytes_def)

lemma big_SetBytes_replicate_0 [simp]: "big_SetBytes (replicate n 0) = 0"
proof (induction n)
  case (Suc n)
  then show ?case
    by (simp only: replicate_Suc flip: replicate_append_same) simp
qed simp

section \<open>Compact targets\<close>

definition ExpandTargetFromAsInt :: "string \<Rightarrow> int res" where
  "ExpandTargetFromAsInt bits =
     bind_res (hex_DecodeString bits) (\<lambda>binaryBits.
     bind_res (uint32_be binaryBits) (\<lambda>compact.
       let mantissa = compact AND 0x007fffff;
           isNegative = (compact AND 0x00800000 \<noteq> 0);
           exponent = unat (drop_bit 24 compact);
           bn = (if exponent \<le> 3 then uint (drop_bit (8 * (3 - exponent)) mantissa)
                 else push_bit (8 * (exponent - 3)) (uint mantissa))
       in Ok (if isNegative then - bn else bn)))"

text \<open>
  \<open>dst := make([]byte, 32); copy(dst[32-len(b):], b)\<close>: the start of the slice is negative,
  a panic, when the number has more than 32 bytes.
\<close>

definition ExpandTargetFrom :: "string \<Rightarrow> string res" where
  "ExpandTargetFrom bits =
     bind_res (ExpandTargetFromAsInt bits) (\<lambda>bn.
       let b = big_Bytes bn
       in if 32 < length b then Panic SliceOutOfRange
          else Ok (hex_EncodeToString (replicate (32 - length b) 0 @ b)))"

text \<open>
  The meaning of the compact form: sign, a 23-bit mantissa and a base-256 exponent,
  \<open>mantissa * 256 ^ (exponent - 3)\<close> rounded towards zero.
\<close>

definition compact_value :: "u32 \<Rightarrow> int" where
  "compact_value c =
     (let m = int (unat c mod 2 ^ 23); e = unat c div 2 ^ 24;
          v = m * 256 ^ e div 256 ^ 3
      in if bit c 23 then - v else v)"

lemma compact_mantissa: "uint (c AND 0x007fffff :: u32) = int (unat c mod 2 ^ 23)"
proof -
  have "c AND 0x007fffff = take_bit 23 c"
    by (simp only: take_bit_eq_mask) (simp add: mask_eq_exp_minus_1)
  then have "uint (c AND 0x007fffff) = take_bit 23 (uint c)"
    by (simp only: unsigned_take_bit_eq)
  also have "\<dots> = int (unat c mod 2 ^ 23)"
    by (simp only: take_bit_eq_mod zmod_int) simp
  finally show ?thesis .
qed

lemma compact_sign: "c AND 0x00800000 \<noteq> (0 :: u32) \<longleftrightarrow> bit c 23"
proof -
  have b: "bit (0x00800000 :: u32) n \<longleftrightarrow> n = 23" for n
  proof -
    have "(0x00800000 :: u32) = push_bit 23 1" by simp
    then show ?thesis by (simp only: bit_simps) (auto simp: bit_simps)
  qed
  have "c AND 0x00800000 = 0 \<longleftrightarrow> \<not> bit c 23"
  proof
    assume "c AND 0x00800000 = 0"
    then have "\<not> bit (c AND 0x00800000) 23" by simp
    then show "\<not> bit c 23" by (simp only: bit_and_iff b) simp
  next
    assume "\<not> bit c 23"
    then have "\<not> bit (c AND 0x00800000) n" for n
      by (simp only: bit_and_iff b) auto
    then show "c AND 0x00800000 = 0" by (intro bit_word_eqI) (simp only: bit_0_eq bot_apply bot_bool_def)
  qed
  then show ?thesis by simp
qed

lemma compact_exponent: "unat (drop_bit 24 (c :: u32)) = unat c div 2 ^ 24"
  by (simp only: unat_drop_bit_eq) (simp only: drop_bit_eq_div)

lemma compact_shift:
  fixes m :: int
  assumes "0 \<le> m"
  shows "(if e \<le> 3 then drop_bit (8 * (3 - e)) m else push_bit (8 * (e - 3)) m)
    = m * 256 ^ e div 256 ^ 3"
proof (cases "e \<le> 3")
  case True
  have p: "(2 :: int) ^ (8 * k) = 256 ^ k" for k by (simp add: power_mult)
  have "(256 :: int) ^ 3 = 256 ^ (3 - e) * 256 ^ e" using True by (simp only: flip: power_add) simp
  then have "m * 256 ^ e div 256 ^ 3 = m div 256 ^ (3 - e)"
    by (simp only: div_mult_mult2 power_not_zero zero_neq_numeral not_False_eq_True simp_thms)
  with True show ?thesis by (simp only: drop_bit_eq_div p if_True)
next
  case False
  have p: "(2 :: int) ^ (8 * k) = 256 ^ k" for k by (simp add: power_mult)
  have "(256 :: int) ^ e = 256 ^ (e - 3) * 256 ^ 3" using False by (simp only: flip: power_add) simp
  then have "m * 256 ^ e div 256 ^ 3 = m * 256 ^ (e - 3)"
    by (simp only: mult.assoc [symmetric]) simp
  with False show ?thesis by (simp only: push_bit_eq_mult p if_False)
qed

lemma ExpandTargetFromAsInt_value:
  assumes "hex_DecodeString bits = Ok bb" and "uint32_be bb = Ok c"
  shows "ExpandTargetFromAsInt bits = Ok (compact_value c)"
proof -
  let ?m = "c AND 0x007fffff" and ?e = "unat (drop_bit 24 c)"
  have "(if ?e \<le> 3 then uint (drop_bit (8 * (3 - ?e)) ?m)
         else push_bit (8 * (?e - 3)) (uint ?m)) = uint ?m * 256 ^ ?e div 256 ^ 3"
  proof -
    have u: "uint (drop_bit k w) = drop_bit k (uint w)" for k and w :: u32
      by (simp only: uint_nat unat_drop_bit_eq of_nat_drop_bit)
    show ?thesis by (simp only: u compact_shift [OF uint_ge_0])
  qed
  with assms show ?thesis
    unfolding ExpandTargetFromAsInt_def compact_value_def
    by (simp only: bind_res.simps Let_def compact_sign compact_mantissa compact_exponent)
qed

lemma ExpandTargetFrom_value:
  assumes "ExpandTargetFromAsInt bits = Ok n" and "nat \<bar>n\<bar> < 2 ^ 256"
  obtains d where "ExpandTargetFrom bits = Ok (hex_EncodeToString d)" "length d = 32"
    "big_SetBytes d = nat \<bar>n\<bar>"
proof
  let ?d = "replicate (32 - length (big_Bytes n)) 0 @ big_Bytes n"
  have "(2 :: nat) ^ 256 = 256 ^ 32" by simp
  with assms(2) have len: "length (big_Bytes n) \<le> 32"
    by (simp only: big_Bytes_def length_nat_Bytes_le)
  with assms(1) show "ExpandTargetFrom bits = Ok (hex_EncodeToString ?d)"
    by (simp add: ExpandTargetFrom_def Let_def)
  from len show "length ?d = 32" by simp
  show "big_SetBytes ?d = nat \<bar>n\<bar>" by (simp add: big_SetBytes_append) (simp add: big_Bytes_def)
qed

text \<open>
  \<open>toCompactSize\<close> (the target of \<open>DifficultyFromBits\<close>). \<open>big.Int.Exp\<close> without a modulus
  gives 1 for a negative exponent.
\<close>

definition big_Exp :: "int \<Rightarrow> int \<Rightarrow> int" where
  "big_Exp x y = (if y \<le> 0 then 1 else x ^ nat y)"

definition toCompactSize :: "u32 \<Rightarrow> int" where
  "toCompactSize bits =
     int (unat (bits mod 0x01000000)) *
     big_Exp 2 (8 * (int (unat (bits div 0x01000000)) - 3))"

lemma toCompactSize_eq:
  "toCompactSize c = int (unat c mod 2 ^ 24) * 256 ^ (unat c div 2 ^ 24 - 3)"
proof -
  define e where "e = unat c div 2 ^ 24"
  have d: "unat (c mod 0x01000000) = unat c mod 2 ^ 24" "unat (c div 0x01000000) = e"
    by (simp_all add: unat_mod unat_div e_def)
  have "big_Exp 2 (8 * (int e - 3)) = 256 ^ (e - 3)"
  proof (cases "e \<le> 3")
    case False
    then have "nat (8 * (int e - 3)) = 8 * (e - 3)" by simp
    with False show ?thesis by (simp add: big_Exp_def power_mult)
  qed (simp add: big_Exp_def)
  then show ?thesis by (simp only: toCompactSize_def d flip: e_def)
qed

lemma low_23_bits:
  assumes "\<not> bit c 23"
  shows "unat (c :: u32) mod 2 ^ 24 = unat c mod 2 ^ 23"
proof -
  have "take_bit 24 (unat c) = take_bit 23 (unat c)"
    using assms by (intro bit_eqI) (auto simp: bit_simps less_Suc_eq numeral_eq_Suc)
  then show ?thesis by (simp add: take_bit_eq_mod)
qed

section \<open>Properties\<close>

text \<open>\<open>ExpandTargetFrom\<close> gives, for the hex of at least four bytes, the magnitude of
  the compact target (23-bit mantissa times \<open>256^(exponent-3)\<close>, rounded down) as 32 big-endian
  bytes in hex, dropping its sign; it panics when the target does not fit in 32 bytes.\<close>

theorem ExpandTargetFrom_spec:
  assumes "hex_DecodeString bits = Ok bb" "uint32_be bb = Ok c"
  shows "ExpandTargetFromAsInt bits = Ok (compact_value c) \<and>
    (if nat \<bar>compact_value c\<bar> < 2 ^ 256
     then \<exists>d. ExpandTargetFrom bits = Ok (hex_EncodeToString d) \<and> length d = 32 \<and>
       big_SetBytes d = nat \<bar>compact_value c\<bar>
     else ExpandTargetFrom bits = Panic SliceOutOfRange)"
proof -
  have v: "ExpandTargetFromAsInt bits = Ok (compact_value c)"
    using assms by (rule ExpandTargetFromAsInt_value)
  have p: "(2 :: nat) ^ 256 = 256 ^ 32" by simp
  have big: "32 < length (big_Bytes (compact_value c))" if "\<not> nat \<bar>compact_value c\<bar> < 256 ^ 32"
    using that unfolding big_Bytes_def nat_Bytes_length_iff [symmetric] by (rule not_le [THEN iffD1])
  show ?thesis
  proof (cases "nat \<bar>compact_value c\<bar> < 2 ^ 256")
    case True
    then show ?thesis using v ExpandTargetFrom_value [OF v True] by (metis (no_types))
  next
    case False
    then have "ExpandTargetFrom bits = Panic SliceOutOfRange"
      using big [folded p, OF False] v
      by (simp only: ExpandTargetFrom_def Let_def bind_res.simps if_True)
    with False v show ?thesis by (simp only: if_False simp_thms)
  qed
qed

theorem ExpandTargetFrom_spec_witness:
  "\<exists>d. ExpandTargetFrom ''1d00ffff'' = Ok (hex_EncodeToString d) \<and> length d = 32 \<and>
    big_SetBytes d = 0xffff * 2 ^ 208"
proof -
  have bits: "hex_DecodeString ''1d00ffff'' = Ok [0x1d, 0, 0xff, 0xff]"
    by (simp add: hex_DecodeString_def from_hex_char_def)
  have c: "uint32_be [0x1d, 0, 0xff, 0xff] = Ok 0x1d00ffff" by code_simp
  have v: "compact_value 0x1d00ffff = 0xffff * 2 ^ 208"
    using compact_exponent [of "0x1d00ffff"] by (simp add: compact_value_def Let_def bit_iff_odd)
  from ExpandTargetFrom_spec [OF bits c] v show ?thesis by auto
qed

text \<open>\<open>toCompactSize\<close> agrees with \<open>ExpandTargetFromAsInt\<close> on a positive target with an
  exponent of at least 3; for a smaller exponent it leaves the mantissa unshifted, where the
  target is the mantissa divided by \<open>256^(3-exponent)\<close>.\<close>

theorem toCompactSize_spec:
  assumes "\<not> bit c 23"
  shows "if 3 \<le> unat c div 2 ^ 24 then toCompactSize c = compact_value c
    else toCompactSize c = int (unat c mod 2 ^ 23) \<and>
      compact_value c = toCompactSize c div 256 ^ (3 - unat c div 2 ^ 24)"
proof -
  define e where "e = unat c div 2 ^ 24"
  define m where "m = int (unat c mod 2 ^ 23)"
  have t: "toCompactSize c = m * 256 ^ (e - 3)"
    unfolding toCompactSize_eq low_23_bits [OF assms] e_def m_def ..
  have v: "compact_value c = m * 256 ^ e div 256 ^ 3"
    using assms by (simp add: compact_value_def Let_def m_def e_def)
  show ?thesis
  proof (cases "3 \<le> e")
    case True
    then have "(256 :: int) ^ e = 256 ^ (e - 3) * 256 ^ 3" by (simp only: flip: power_add) simp
    with True t v show ?thesis by (simp add: e_def)
  next
    case False
    then have "(256 :: int) ^ 3 = 256 ^ (3 - e) * 256 ^ e" by (simp only: flip: power_add) simp
    then have "m * 256 ^ e div 256 ^ 3 = m div 256 ^ (3 - e)"
      by (simp only: div_mult_mult2 power_not_zero zero_neq_numeral not_False_eq_True simp_thms)
    with False t v show ?thesis by (simp add: e_def m_def)
  qed
qed

theorem toCompactSize_spec_witness:
  "toCompactSize 0x1d00ffff = compact_value 0x1d00ffff \<and>
   toCompactSize 0x01123456 = 0x123456 \<and> compact_value 0x01123456 = 0x12"
  using toCompactSize_spec [of "0x1d00ffff"] toCompactSize_spec [of "0x01123456"]
  by (simp add: bit_iff_odd)

end
