(* ===== verification/Go_Utf8.thy ===== *)
theory Go_Utf8
  imports Var_Int
begin

text \<open>
  \<open>unicode/utf8\<close>: the runes of a string of bytes, with a replacement character for every byte
  that starts no valid sequence, as \<open>encoding/json\<close> uses them.
\<close>

abbreviation ord_of :: "char \<Rightarrow> nat" where
  "ord_of \<equiv> of_char"

definition in_range :: "nat \<Rightarrow> nat \<Rightarrow> char \<Rightarrow> bool" where
  "in_range lo hi c \<longleftrightarrow> lo \<le> ord_of c \<and> ord_of c \<le> hi"

abbreviation utf8_cont :: "char \<Rightarrow> bool" where
  "utf8_cont \<equiv> in_range 0x80 0xBF"

text \<open>The tables \<open>first\<close> and \<open>acceptRanges\<close> of \<open>unicode/utf8\<close>: the length a first byte announces
  (0 for none) and the second bytes it admits.\<close>

definition utf8_len :: "char \<Rightarrow> nat" where
  "utf8_len a =
     (if ord_of a < 0x80 then 1 else if in_range 0xC2 0xDF a then 2
      else if in_range 0xE0 0xEF a then 3 else if in_range 0xF0 0xF4 a then 4 else 0)"

definition utf8_second :: "char \<Rightarrow> char \<Rightarrow> bool" where
  "utf8_second a =
     in_range (if ord_of a = 0xE0 then 0xA0 else if ord_of a = 0xF0 then 0x90 else 0x80)
              (if ord_of a = 0xED then 0x9F else if ord_of a = 0xF4 then 0x8F else 0xBF)"

text \<open>
  The number of bytes of the rune at the front as \<open>utf8.DecodeRune\<close> reads it; 0 for an invalid
  byte, which it returns as a replacement character of size 1.
\<close>

definition utf8_size :: "string \<Rightarrow> nat" where
  "utf8_size s =
     (case s of [] \<Rightarrow> 0
      | a # t \<Rightarrow>
          (let n = utf8_len a in
           if n \<le> 1 then n
           else if n \<le> length s \<and> utf8_second a (hd t) \<and> list_all utf8_cont (take (n - 2) (tl t)) then n
           else 0))"

text \<open>\<open>utf8.EncodeRune\<close> for the runes an escape can stand for.\<close>

definition encode_rune :: "nat \<Rightarrow> string" where
  "encode_rune r =
     map char_of
       (if r < 0x80 then [r]
        else if r < 0x800 then [0xC0 + r div 64, 0x80 + r mod 64]
        else if r < 0x10000 then [0xE0 + r div 4096, 0x80 + r div 64 mod 64, 0x80 + r mod 64]
        else [0xF0 + r div 262144, 0x80 + r div 4096 mod 64, 0x80 + r div 64 mod 64, 0x80 + r mod 64])"

definition replacement :: string where
  "replacement = encode_rune 0xFFFD"

text \<open>The runes of a string, \<open>None\<close> for an invalid byte.\<close>

lemma utf8_size_le: "utf8_size s \<le> length s"
  by (auto simp: utf8_size_def Let_def split: list.splits)

function runes :: "string \<Rightarrow> string option list" where
  "runes s =
     (if s = [] then []
      else if utf8_size s = 0 then None # runes (tl s)
      else Some (take (utf8_size s) s) # runes (drop (utf8_size s) s))"
  by pat_completeness auto
termination by (relation "measure length") auto

declare runes.simps [simp del]

definition valid_utf8 :: "string \<Rightarrow> bool" where
  "valid_utf8 s \<longleftrightarrow> None \<notin> set (runes s)"

text \<open>A string with a replacement character for every invalid byte.\<close>

definition clean :: "string \<Rightarrow> string" where
  "clean s = concat (map (case_option replacement id) (runes s))"

section \<open>Laws\<close>

lemma utf8_size_1: "s \<noteq> [] \<Longrightarrow> utf8_size s = 1 \<longleftrightarrow> ord_of (hd s) < 0x80"
  by (cases s) (auto simp: utf8_size_def utf8_len_def in_range_def Let_def)

lemma utf8_size_take:
  assumes "0 < utf8_size s"
  shows "utf8_size (take (utf8_size s) s @ t) = utf8_size s"
proof -
  from assms obtain a s' where s: "s = a # s'" by (cases s) (auto simp: utf8_size_def)
  let ?n = "utf8_len a"
  from assms have n: "utf8_size s = ?n" "?n \<le> length s" "0 < ?n"
    by (auto simp: s utf8_size_def Let_def split: if_splits)
  show ?thesis
  proof (cases "?n \<le> 1")
    case True
    with n(3) have "?n = 1" by simp
    with n(1) show ?thesis by (simp add: s utf8_size_def)
  next
    case False
    then obtain m where m: "?n = Suc (Suc m)" by (metis One_nat_def not0_implies_Suc less_eq_nat.simps(1) not_less_eq_eq order_refl)
    with n(2) obtain b s'' where s': "s' = b # s''" "m \<le> length s''" by (cases s') (auto simp: s)
    show ?thesis using n m assms s'(2)
      by (auto simp: s s'(1) utf8_size_def Let_def min_def split: if_splits)
  qed
qed

lemma runes_Nil [simp]: "runes [] = []"
  by (simp add: runes.simps)

lemma runes_append:
  assumes "0 < utf8_size b" "utf8_size b = length b"
  shows "runes (b @ s) = Some b # runes s"
proof -
  have "utf8_size (b @ s) = length b" using utf8_size_take [of b s] assms by simp
  then show ?thesis using assms by (subst runes.simps) auto
qed

lemma utf8_size_take_self: "0 < utf8_size s \<Longrightarrow> utf8_size (take (utf8_size s) s) = utf8_size s"
  using utf8_size_take [of s "[]"] by simp

lemma clean_valid: "valid_utf8 s \<Longrightarrow> clean s = s"
proof (induction s rule: runes.induct)
  case (1 s)
  show ?case
  proof (cases "s = []")
    case False
    with 1(3) have "utf8_size s \<noteq> 0" by (auto simp: valid_utf8_def runes.simps [of s] split: if_splits)
    then have "runes s = Some (take (utf8_size s) s) # runes (drop (utf8_size s) s)"
      using False by (subst runes.simps) simp
    then show ?thesis using 1 False \<open>utf8_size s \<noteq> 0\<close> by (simp add: clean_def valid_utf8_def)
  qed (simp add: clean_def)
qed

lemma div_mod_64: "(u :: nat) div 64 mod 64 = u div 64 - 64 * (u div 4096)"
proof -
  have "u div 64 div 64 = u div 4096" by (simp add: div_mult2_eq [symmetric])
  then show ?thesis using minus_div_mult_eq_mod [of "u div 64" 64] by (simp add: mult.commute)
qed

text \<open>The sequences of two, three and four bytes.\<close>

lemma utf8_size_2:
  "2 \<le> (a :: nat) \<Longrightarrow> a < 32 \<Longrightarrow> b < 64 \<Longrightarrow> utf8_size (map char_of [0xC0 + a, 0x80 + b]) = 2"
  by (simp add: utf8_size_def utf8_len_def utf8_second_def in_range_def)

lemma utf8_size_3:
  "(a :: nat) < 16 \<Longrightarrow> b < 64 \<Longrightarrow> c < 64 \<Longrightarrow> (a = 0 \<Longrightarrow> 32 \<le> b) \<Longrightarrow> (a = 13 \<Longrightarrow> b < 32) \<Longrightarrow>
     utf8_size (map char_of [0xE0 + a, 0x80 + b, 0x80 + c]) = 3"
  by (auto simp: utf8_size_def utf8_len_def utf8_second_def in_range_def)

lemma utf8_size_4:
  "(a :: nat) < 5 \<Longrightarrow> b < 64 \<Longrightarrow> c < 64 \<Longrightarrow> d < 64 \<Longrightarrow> (a = 0 \<Longrightarrow> 16 \<le> b) \<Longrightarrow> (a = 4 \<Longrightarrow> b < 16) \<Longrightarrow>
     utf8_size (map char_of [0xF0 + a, 0x80 + b, 0x80 + c, 0x80 + d]) = 4"
  by (auto simp: utf8_size_def utf8_len_def utf8_second_def in_range_def)

lemma utf8_size_encode_rune:
  assumes "u < 0xD800 \<or> 0xE000 \<le> u" "u < 0x110000"
  shows "0 < utf8_size (encode_rune u)" "utf8_size (encode_rune u) = length (encode_rune u)"
proof -
  consider "u < 0x80" | "0x80 \<le> u" "u < 0x800" | "0x800 \<le> u" "u < 0x10000" | "0x10000 \<le> u" by linarith
  then have "0 < utf8_size (encode_rune u) \<and> utf8_size (encode_rune u) = length (encode_rune u)"
  proof cases
    case 1
    then show ?thesis by (simp add: encode_rune_def utf8_size_def utf8_len_def)
  next
    case 2
    then have "2 \<le> u div 64" "u div 64 < 32" by linarith+
    then have "utf8_size (map char_of [0xC0 + u div 64, 0x80 + u mod 64]) = 2" by (rule utf8_size_2) simp
    then show ?thesis using 2 by (simp add: encode_rune_def)
  next
    case 3
    have "utf8_size (map char_of [0xE0 + u div 4096, 0x80 + u div 64 mod 64, 0x80 + u mod 64]) = 3"
    proof (rule utf8_size_3)
      show "u div 4096 < 16" using 3 by linarith
      show "32 \<le> u div 64 mod 64" if "u div 4096 = 0"
        using that 3 div_mod_64 [of u] by linarith
      show "u div 64 mod 64 < 32" if "u div 4096 = 13"
        using that 3 assms div_mod_64 [of u] by linarith
    qed simp_all
    then show ?thesis using 3 by (simp add: encode_rune_def)
  next
    case 4
    have m: "u div 4096 mod 64 = u div 4096 - 64 * (u div 262144)"
      using div_mod_64 [of "u div 64"] by (simp add: div_mult2_eq [symmetric])
    have "utf8_size (map char_of [0xF0 + u div 262144, 0x80 + u div 4096 mod 64, 0x80 + u div 64 mod 64,
        0x80 + u mod 64]) = 4"
    proof (rule utf8_size_4)
      show "u div 262144 < 5" using assms by linarith
      show "16 \<le> u div 4096 mod 64" if "u div 262144 = 0"
        using that 4 m by linarith
      show "u div 4096 mod 64 < 16" if "u div 262144 = 4"
        using that assms m by linarith
    qed simp_all
    then show ?thesis using 4 by (simp add: encode_rune_def)
  qed
  then show "0 < utf8_size (encode_rune u)" "utf8_size (encode_rune u) = length (encode_rune u)" by auto
qed

lemma valid_utf8_append: "0 < utf8_size b \<Longrightarrow> utf8_size b = length b \<Longrightarrow> valid_utf8 (b @ s) \<longleftrightarrow> valid_utf8 s"
  by (simp add: valid_utf8_def runes_append)

lemma valid_utf8_Nil [simp]: "valid_utf8 []"
  by (simp add: valid_utf8_def)

lemma valid_utf8_ascii: "list_all (\<lambda>c. ord_of c < 0x80) s \<Longrightarrow> valid_utf8 s"
proof (induction s)
  case (Cons c s)
  have "utf8_size [c] = 1" using Cons.prems by (simp add: utf8_size_def utf8_len_def)
  then show ?case using Cons valid_utf8_append [of "[c]" s] by simp
qed simp

lemma runes_ascii: "list_all (\<lambda>c. ord_of c < 0x80) s \<Longrightarrow> runes s = map (\<lambda>c. Some [c]) s"
proof (induction s)
  case (Cons c s)
  then have "utf8_size [c] = 1" by (simp add: utf8_size_def utf8_len_def)
  then show ?case using Cons runes_append [of "[c]" s] by simp
qed simp

end
