(* ===== verification/Go_Json.thy ===== *)
theory Go_Json
  imports Go_Utf8
begin

text \<open>
  The part of \<open>encoding/json\<close> that go-bc uses: the grammar of JSON texts with the decoding of
  strings and the compact printer with the HTML escapes of \<open>json.Marshal\<close>. Texts are strings of
  bytes in UTF-8. The version is the one of \<open>go.mod\<close>, 1.17: later ones write \<open>\b\<close> and \<open>\f\<close> for
  two of the control characters.
\<close>

datatype json =
    JNull
  | JBool bool
  | JNum string
  | JStr string
  | JArr "json list"
  | JObj "(string \<times> json) list"

section \<open>Scanning\<close>

definition skip_ws :: "string \<Rightarrow> string" where
  "skip_ws = dropWhile (\<lambda>c. ord_of c \<in> {0x20, 0x09, 0x0A, 0x0D})"

text \<open>\<open>getu4\<close>: four hexadecimal digits.\<close>

definition hex_value :: "char \<Rightarrow> nat option" where
  "hex_value c = map_option unat (from_hex_char c)"

fun getu4 :: "string \<Rightarrow> (nat \<times> string) option" where
  "getu4 (a # b # c # d # r) =
     (case (hex_value a, hex_value b, hex_value c, hex_value d) of
        (Some w, Some x, Some y, Some z) \<Rightarrow> Some (((w * 16 + x) * 16 + y) * 16 + z, r)
      | _ \<Rightarrow> None)"
| "getu4 _ = None"

definition simple_escape :: "char \<Rightarrow> char option" where
  "simple_escape e =
     (if e \<in> {CHR 0x22, CHR 0x5C, CHR ''/''} then Some e
      else if e = CHR ''b'' then Some (CHR 0x08)
      else if e = CHR ''f'' then Some (CHR 0x0C)
      else if e = CHR ''n'' then Some (CHR 0x0A)
      else if e = CHR ''r'' then Some (CHR 0x0D)
      else if e = CHR ''t'' then Some (CHR 0x09)
      else None)"

text \<open>The low half of a surrogate pair, if it is the next escape.\<close>

definition low_surrogate :: "string \<Rightarrow> (nat \<times> string) option" where
  "low_surrogate r =
     (case r of
        c # e # t \<Rightarrow>
          if c = CHR 0x5C \<and> e = CHR ''u'' then
            (case getu4 t of
               Some (lo, r') \<Rightarrow> if 0xDC00 \<le> lo \<and> lo < 0xE000 then Some (lo, r') else None
             | None \<Rightarrow> None)
          else None
      | _ \<Rightarrow> None)"

text \<open>
  What follows a backslash: the bytes it stands for and the rest. Half a surrogate pair is a
  replacement character.
\<close>

definition scan_escape :: "string \<Rightarrow> (string \<times> string) option" where
  "scan_escape s =
     (case s of [] \<Rightarrow> None
      | e # r \<Rightarrow>
          if e = CHR ''u'' then
            (case getu4 r of None \<Rightarrow> None
             | Some (u, r') \<Rightarrow>
                 if u < 0xD800 \<or> 0xE000 \<le> u then Some (encode_rune u, r')
                 else if u < 0xDC00 then
                   (case low_surrogate r' of
                      Some (lo, r'') \<Rightarrow>
                        Some (encode_rune ((u - 0xD800) * 1024 + (lo - 0xDC00) + 0x10000), r'')
                    | None \<Rightarrow> Some (replacement, r'))
                 else Some (replacement, r'))
          else map_option (\<lambda>c. ([c], r)) (simple_escape e))"

lemma getu4_less: "getu4 s = Some (u, r) \<Longrightarrow> length r < length s"
  by (induction s rule: getu4.induct) (auto split: option.splits)

lemma low_surrogate_less: "low_surrogate s = Some (u, r) \<Longrightarrow> length r < length s"
  by (auto simp: low_surrogate_def split: list.splits if_splits option.splits dest!: getu4_less)

lemma scan_escape_less: "scan_escape s = Some (x, r) \<Longrightarrow> length r < length s"
  by (auto simp: scan_escape_def split: list.splits if_splits option.splits
      dest!: getu4_less low_surrogate_less)

text \<open>A string after its opening quote: what it stands for and what follows its closing quote.\<close>

function scan_string :: "string \<Rightarrow> (string \<times> string) option" where
  "scan_string s =
     (case s of [] \<Rightarrow> None
      | c # r \<Rightarrow>
          if c = CHR 0x22 then Some ([], r)
          else if c = CHR 0x5C then
            (case scan_escape r of None \<Rightarrow> None
             | Some (x, r') \<Rightarrow> map_option (apfst ((@) x)) (scan_string r'))
          else if ord_of c < 0x20 then None
          else if utf8_size s = 0 then map_option (apfst ((@) replacement)) (scan_string r)
          else map_option (apfst ((@) (take (utf8_size s) s))) (scan_string (drop (utf8_size s) s)))"
  by pat_completeness auto
termination by (relation "measure length") (auto dest: scan_escape_less)

declare scan_string.simps [simp del]

text \<open>Numbers: the literal as it stands.\<close>

definition is_digit :: "char \<Rightarrow> bool" where
  "is_digit = in_range 48 57"

definition scan_digits :: "string \<Rightarrow> (string \<times> string) option" where
  "scan_digits s =
     (if takeWhile is_digit s = [] then None else Some (takeWhile is_digit s, dropWhile is_digit s))"

definition scan_int :: "string \<Rightarrow> (string \<times> string) option" where
  "scan_int s =
     (case s of [] \<Rightarrow> None
      | c # r \<Rightarrow> if c = CHR ''0'' then Some ([c], r) else scan_digits s)"

definition scan_frac :: "string \<Rightarrow> (string \<times> string) option" where
  "scan_frac s =
     (case s of c # r \<Rightarrow> if c = CHR ''.'' then map_option (apfst (Cons c)) (scan_digits r) else Some ([], s)
      | [] \<Rightarrow> Some ([], s))"

definition scan_sign :: "char set \<Rightarrow> string \<Rightarrow> string \<times> string" where
  "scan_sign signs s =
     (case s of c # r \<Rightarrow> if c \<in> signs then ([c], r) else ([], s) | [] \<Rightarrow> ([], s))"

definition scan_exp :: "string \<Rightarrow> (string \<times> string) option" where
  "scan_exp s =
     (case s of c # r \<Rightarrow>
        if c \<in> {CHR ''e'', CHR ''E''} then
          (case scan_sign {CHR ''+'', CHR ''-''} r of (sg, r') \<Rightarrow>
             map_option (apfst (\<lambda>ds. c # sg @ ds)) (scan_digits r'))
        else Some ([], s)
      | [] \<Rightarrow> Some ([], s))"

definition scan_number :: "string \<Rightarrow> (string \<times> string) option" where
  "scan_number s =
     (case scan_sign {CHR ''-''} s of (sg, r0) \<Rightarrow>
      case scan_int r0 of None \<Rightarrow> None | Some (i, r1) \<Rightarrow>
      case scan_frac r1 of None \<Rightarrow> None | Some (f, r2) \<Rightarrow>
      case scan_exp r2 of None \<Rightarrow> None | Some (e, r3) \<Rightarrow> Some (sg @ i @ f @ e, r3))"

definition scan_word :: "string \<Rightarrow> 'a \<Rightarrow> string \<Rightarrow> ('a \<times> string) option" where
  "scan_word w x s = (if take (length w) s = w then Some (x, drop (length w) s) else None)"

text \<open>A value that is no array and no object.\<close>

definition scan_scalar :: "string \<Rightarrow> (json \<times> string) option" where
  "scan_scalar s =
     (case s of [] \<Rightarrow> None
      | c # r \<Rightarrow>
          if c = CHR 0x22 then map_option (apfst JStr) (scan_string r)
          else if c = CHR ''t'' then scan_word ''true'' (JBool True) s
          else if c = CHR ''f'' then scan_word ''false'' (JBool False) s
          else if c = CHR ''n'' then scan_word ''null'' JNull s
          else map_option (apfst JNum) (scan_number s))"

text \<open>
  The items of an array or the members of an object up to the closing bracket. An item is never
  empty, so the test of the lengths does not fail.
\<close>

function scan_items :: "char \<Rightarrow> (string \<Rightarrow> ('a \<times> string) option) \<Rightarrow> string \<Rightarrow> ('a list \<times> string) option"
where
  "scan_items close p s =
     (case p s of None \<Rightarrow> None
      | Some (x, r) \<Rightarrow>
          (case skip_ws r of [] \<Rightarrow> None
           | c # r' \<Rightarrow>
               if c = close then Some ([x], r')
               else if c = CHR '','' \<and> length (skip_ws r') < length s then
                 map_option (apfst (Cons x)) (scan_items close p (skip_ws r'))
               else None))"
  by pat_completeness auto
termination by (relation "measure (\<lambda>(close, p, s). length s)") auto

declare scan_items.simps [simp del]

definition scan_list :: "char \<Rightarrow> (string \<Rightarrow> ('a \<times> string) option) \<Rightarrow> string \<Rightarrow> ('a list \<times> string) option"
where
  "scan_list close p s =
     (case skip_ws s of [] \<Rightarrow> None
      | c # r \<Rightarrow> if c = close then Some ([], r) else scan_items close p (c # r))"

definition scan_member :: "(string \<Rightarrow> (json \<times> string) option) \<Rightarrow> string \<Rightarrow> ((string \<times> json) \<times> string) option"
where
  "scan_member p s =
     (case s of [] \<Rightarrow> None
      | q # r \<Rightarrow>
          if q \<noteq> CHR 0x22 then None
          else (case scan_string r of None \<Rightarrow> None
                | Some (k, r1) \<Rightarrow>
                    (case skip_ws r1 of [] \<Rightarrow> None
                     | c # r2 \<Rightarrow>
                         if c \<noteq> CHR '':'' then None
                         else map_option (apfst (Pair k)) (p (skip_ws r2)))))"

text \<open>Arrays and objects, nested at most \<open>d\<close> deep.\<close>

primrec scan_value :: "nat \<Rightarrow> string \<Rightarrow> (json \<times> string) option" where
  "scan_value 0 s = scan_scalar s"
| "scan_value (Suc d) s =
     (case s of [] \<Rightarrow> None
      | c # r \<Rightarrow>
          if c = CHR ''['' then map_option (apfst JArr) (scan_list (CHR '']'') (scan_value d) r)
          else if c = CHR ''{'' then
            map_option (apfst JObj) (scan_list (CHR ''}'') (scan_member (scan_value d)) r)
          else scan_scalar s)"

text \<open>\<open>maxNestingDepth\<close> of the scanner.\<close>

definition max_depth :: nat where
  "max_depth = 10000"

definition json_parse :: "string \<Rightarrow> json option" where
  "json_parse s =
     (case scan_value max_depth (skip_ws s) of None \<Rightarrow> None
      | Some (j, r) \<Rightarrow> if skip_ws r = [] then Some j else None)"

section \<open>Printing\<close>

definition hex_digit :: "nat \<Rightarrow> char" where
  "hex_digit n = hex_digits ! n"

text \<open>One rune inside a string: \<open>htmlSafeSet\<close> and the escapes of \<open>encodeState.string\<close>.\<close>

definition quote_ascii :: "char \<Rightarrow> string" where
  "quote_ascii c =
     (if c \<in> {CHR 0x22, CHR 0x5C} then [CHR 0x5C, c]
      else if c = CHR 0x0A then [CHR 0x5C, CHR ''n'']
      else if c = CHR 0x0D then [CHR 0x5C, CHR ''r'']
      else if c = CHR 0x09 then [CHR 0x5C, CHR ''t'']
      else if ord_of c < 0x20 \<or> c \<in> {CHR ''<'', CHR ''>'', CHR ''&''} then
        [CHR 0x5C, CHR ''u'', CHR ''0'', CHR ''0'', hex_digit (ord_of c div 16), hex_digit (ord_of c mod 16)]
      else [c])"

fun quote_rune :: "string option \<Rightarrow> string" where
  "quote_rune None = CHR 0x5C # ''ufffd''"
| "quote_rune (Some b) =
     (if length b = 1 then quote_ascii (hd b)
      else if b = encode_rune 0x2028 then CHR 0x5C # ''u2028''
      else if b = encode_rune 0x2029 then CHR 0x5C # ''u2029''
      else b)"

definition json_quote :: "string \<Rightarrow> string" where
  "json_quote s = CHR 0x22 # concat (map quote_rune (runes s)) @ [CHR 0x22]"

fun join :: "string \<Rightarrow> string list \<Rightarrow> string" where
  "join sep [] = []"
| "join sep [x] = x"
| "join sep (x # y # xs) = x @ sep @ join sep (y # xs)"

primrec json_print :: "json \<Rightarrow> string" where
  "json_print JNull = ''null''"
| "json_print (JBool b) = (if b then ''true'' else ''false'')"
| "json_print (JNum l) = l"
| "json_print (JStr s) = json_quote s"
| "json_print (JArr js) = ''['' @ join '','' (map json_print js) @ '']''"
| "json_print (JObj ms) =
     ''{'' @ join '','' (map (\<lambda>m. json_quote (fst m) @ '':'' @ snd m) (map (map_prod id json_print) ms)) @ ''}''"

lemma length_quote_rune:
  assumes "s \<noteq> []"
  shows "length (quote_rune (if utf8_size s = 0 then None else Some (take (utf8_size s) s))) \<le>
    6 * (if utf8_size s = 0 then 1 else utf8_size s)"
  using utf8_size_le [of s] by (auto simp: quote_ascii_def)

lemma length_json_quote: "length (json_quote s) \<le> 2 + 6 * length s"
proof -
  have "length (concat (map quote_rune (runes s))) \<le> 6 * length s"
  proof (induction s rule: runes.induct)
    case (1 s)
    show ?case
    proof (cases "s = []")
      case False
      let ?n = "if utf8_size s = 0 then 1 else utf8_size s"
      have runes: "runes s = (if utf8_size s = 0 then None else Some (take (utf8_size s) s)) # runes (drop ?n s)"
        using False by (subst runes.simps) (simp add: drop_Suc)
      have "length (concat (map quote_rune (runes (drop ?n s)))) \<le> 6 * length (drop ?n s)"
        using 1 False by (auto simp: drop_Suc)
      moreover have "?n \<le> length s" using False utf8_size_le [of s] by (cases s) auto
      moreover have "length (concat (map quote_rune (runes s))) =
          length (quote_rune (if utf8_size s = 0 then None else Some (take (utf8_size s) s))) +
          length (concat (map quote_rune (runes (drop ?n s))))"
        unfolding runes by simp
      ultimately show ?thesis using length_quote_rune [OF False] by auto
    qed simp
  qed
  then show ?thesis by (simp add: json_quote_def)
qed

section \<open>Strings are read back\<close>

lemma map_option_apfst_compose [simp]:
  "map_option (apfst f) (map_option (apfst g) x) = map_option (apfst (f \<circ> g)) x"
  by (cases x) auto

lemma apfst_append_Nil [simp]: "map_option (apfst ((@) [])) x = x"
  by (cases x) auto

lemma append_single [simp]: "(@) [c] = Cons c"
  by (rule ext) simp

lemma hex_value_digit: "n < 16 \<Longrightarrow> hex_value (hex_digit n) = Some n"
  by (simp add: hex_value_def hex_digit_def from_hex_char_digit unat_of_nat)

lemma hex_value_digits:
  "hex_value (CHR ''f'') = Some 15" "hex_value (CHR ''d'') = Some 13" "hex_value (CHR ''2'') = Some 2"
  "hex_value (CHR ''0'') = Some 0" "hex_value (CHR ''8'') = Some 8" "hex_value (CHR ''9'') = Some 9"
  using hex_value_digit [of 15] hex_value_digit [of 13] hex_value_digit [of 2] hex_value_digit [of 0]
    hex_value_digit [of 8] hex_value_digit [of 9] by (simp_all add: hex_digit_def hex_digits_def)

lemma scan_string_escape:
  "scan_escape s = Some (x, r) \<Longrightarrow>
     scan_string (CHR 0x5C # s) = map_option (apfst ((@) x)) (scan_string r)"
  by (subst scan_string.simps) simp

lemma scan_string_rune:
  assumes "s \<noteq> []" "0x80 \<le> ord_of (hd s)" "0 < utf8_size s"
  shows "scan_string s = map_option (apfst ((@) (take (utf8_size s) s))) (scan_string (drop (utf8_size s) s))"
proof -
  from assms(1) obtain c r where s: "s = c # r" by (cases s) auto
  then show ?thesis using assms(2,3) by (subst scan_string.simps) auto
qed

lemma scan_string_ascii:
  assumes "ord_of c < 0x80" "0x20 \<le> ord_of c" "c \<noteq> CHR 0x22" "c \<noteq> CHR 0x5C"
  shows "scan_string (c # t) = map_option (apfst (Cons c)) (scan_string t)"
proof -
  have "utf8_size (c # t) = 1" using assms(1) by (simp add: utf8_size_def utf8_len_def)
  with assms show ?thesis by (subst scan_string.simps) simp
qed

lemma ord_of_char_of [simp]: "n < 256 \<Longrightarrow> ord_of (char_of n) = n"
  by simp

lemma scan_quote_ascii:
  assumes "ord_of c < 0x80"
  shows "scan_string (quote_ascii c @ t) = map_option (apfst (Cons c)) (scan_string t)"
proof -
  have hex: "hex_value (CHR ''0'') = Some 0" "hex_value (hex_digit (ord_of c div 16)) = Some (ord_of c div 16)"
    "hex_value (hex_digit (ord_of c mod 16)) = Some (ord_of c mod 16)"
    using assms by (simp_all add: hex_value_digits hex_value_digit)
  have "encode_rune (ord_of c) = [c]" using assms by (simp add: encode_rune_def)
  moreover have "getu4 (CHR ''0'' # CHR ''0'' # hex_digit (ord_of c div 16) # hex_digit (ord_of c mod 16) # t) =
      Some (ord_of c, t)"
    by (simp add: hex)
  ultimately have u: "scan_escape (CHR ''u'' # CHR ''0'' # CHR ''0'' # hex_digit (ord_of c div 16) #
      hex_digit (ord_of c mod 16) # t) = Some ([c], t)"
    using assms by (simp add: scan_escape_def)
  show ?thesis
    using assms by (auto simp: quote_ascii_def scan_string_ascii scan_string_escape [OF u]
        scan_string_escape scan_escape_def simple_escape_def)
qed

lemma scan_string_unicode:
  assumes "getu4 s = Some (u, [])" "u < 0xD800 \<or> 0xE000 \<le> u"
  shows "scan_string (CHR 0x5C # CHR ''u'' # s @ t) = map_option (apfst ((@) (encode_rune u))) (scan_string t)"
proof -
  have "getu4 (s @ t) = Some (u, t)"
    using assms(1) by (cases s rule: getu4.cases) (auto split: option.splits)
  then have "scan_escape (CHR ''u'' # s @ t) = Some (encode_rune u, t)"
    using assms(2) by (auto simp: scan_escape_def)
  then show ?thesis by (rule scan_string_escape)
qed

lemma scan_quote_rune:
  assumes "s \<noteq> []"
  shows "scan_string (quote_rune (if utf8_size s = 0 then None else Some (take (utf8_size s) s)) @ t) =
    map_option (apfst ((@) (if utf8_size s = 0 then replacement else take (utf8_size s) s))) (scan_string t)"
proof (cases "utf8_size s = 0")
  case True
  have "getu4 ''fffd'' = Some (0xFFFD, [])" by (simp add: hex_value_digits)
  from scan_string_unicode [OF this] True show ?thesis by (simp add: replacement_def)
next
  case False
  let ?n = "utf8_size s" and ?b = "take (utf8_size s) s"
  have len: "length ?b = ?n" using utf8_size_le [of s] by simp
  show ?thesis
  proof (cases "?n = 1")
    case True
    then have "?b = [hd s]" using assms by (cases s) simp_all
    moreover have "ord_of (hd s) < 0x80" using True utf8_size_1 [OF assms] by simp
    ultimately show ?thesis using True scan_quote_ascii [of "hd s" t] by simp
  next
    case multi: False
    have "getu4 ''2028'' = Some (0x2028, [])" "getu4 ''2029'' = Some (0x2029, [])"
      by (simp_all add: hex_value_digits)
    note sep = scan_string_unicode [OF this(1), of t] scan_string_unicode [OF this(2), of t]
    have "?b @ t \<noteq> []" "utf8_size (?b @ t) = ?n" "hd (?b @ t) = hd s"
      using False assms utf8_size_take [of s t] by (simp_all add: hd_append)
    then have "scan_string (?b @ t) = map_option (apfst ((@) ?b)) (scan_string t)"
      using multi False utf8_size_1 [OF assms] scan_string_rune [of "?b @ t"] len by simp
    then show ?thesis using multi False len sep by simp
  qed
qed

lemma scan_quote_runes:
  "scan_string (concat (map quote_rune (runes s)) @ CHR 0x22 # r) = Some (clean s, r)"
proof (induction s rule: runes.induct)
  case (1 s)
  show ?case
  proof (cases "s = []")
    case True
    then show ?thesis by (simp add: runes.simps clean_def scan_string.simps)
  next
    case False
    let ?rest = "if utf8_size s = 0 then tl s else drop (utf8_size s) s"
    have runes: "runes s = (if utf8_size s = 0 then None else Some (take (utf8_size s) s)) # runes ?rest"
      using False by (subst runes.simps) simp
    then have "clean s = (if utf8_size s = 0 then replacement else take (utf8_size s) s) @ clean ?rest"
      by (simp add: clean_def)
    moreover have "scan_string (concat (map quote_rune (runes ?rest)) @ CHR 0x22 # r) = Some (clean ?rest, r)"
      using 1 False by simp
    ultimately show ?thesis
      unfolding runes using scan_quote_rune [OF False] by simp
  qed
qed

section \<open>Values are read back\<close>

text \<open>What may follow a number, and how the text of a value starts.\<close>

lemma skip_ws_Nil [simp]: "skip_ws [] = []"
  by (simp add: skip_ws_def)

definition starts_value :: "string \<Rightarrow> bool" where
  "starts_value s \<longleftrightarrow> s \<noteq> [] \<and> ord_of (hd s) \<notin> {0x20, 0x09, 0x0A, 0x0D} \<and> hd s \<notin> {CHR '']'', CHR ''}''}"

lemma skip_ws_value: "starts_value s \<Longrightarrow> skip_ws (s @ r) = s @ r"
  by (cases s) (auto simp: starts_value_def skip_ws_def)

lemma skip_ws_Cons: "ord_of c \<notin> {0x20, 0x09, 0x0A, 0x0D} \<Longrightarrow> skip_ws (c # r) = c # r"
  by (simp add: skip_ws_def)

definition ends_value :: "string \<Rightarrow> bool" where
  "ends_value r \<longleftrightarrow> r = [] \<or> \<not> is_digit (hd r) \<and> hd r \<notin> {CHR ''.'', CHR ''e'', CHR ''E''}"

text \<open>The literal of a natural number.\<close>

definition natural :: "string \<Rightarrow> bool" where
  "natural l \<longleftrightarrow> l \<noteq> [] \<and> list_all is_digit l \<and> (hd l = CHR ''0'' \<longrightarrow> length l = 1)"

lemma is_digit_less: "is_digit c \<longleftrightarrow> 48 \<le> ord_of c \<and> ord_of c \<le> 57"
  by (simp add: is_digit_def in_range_def)

lemma natural_hd: "natural l \<Longrightarrow> l \<noteq> [] \<and> 48 \<le> ord_of (hd l) \<and> ord_of (hd l) \<le> 57"
  by (cases l) (auto simp: natural_def is_digit_less)

lemma scan_digits_append:
  assumes "ds \<noteq> []" "list_all is_digit ds" "r = [] \<or> \<not> is_digit (hd r)"
  shows "scan_digits (ds @ r) = Some (ds, r)"
proof -
  have "takeWhile is_digit r = []" "dropWhile is_digit r = r" using assms(3) by (cases r; auto)+
  then have "takeWhile is_digit (ds @ r) = ds" "dropWhile is_digit (ds @ r) = r"
    using assms(2) by (auto simp: list_all_iff)
  then show ?thesis using assms(1) by (simp add: scan_digits_def)
qed

lemma scan_number_natural:
  assumes "natural l" "ends_value r"
  shows "scan_number (l @ r) = Some (l, r)"
proof -
  from assms(1) obtain c ds where l: "l = c # ds" by (cases l) (auto simp: natural_def)
  have c: "c \<noteq> CHR ''-''" using assms(1) by (auto simp: natural_def l is_digit_less)
  have "scan_int (l @ r) = Some (l, r)"
  proof (cases "c = CHR ''0''")
    case True
    then show ?thesis using assms(1) by (simp add: l natural_def scan_int_def)
  next
    case False
    then show ?thesis using assms scan_digits_append [of l r] by (auto simp: l natural_def scan_int_def ends_value_def)
  qed
  moreover have "scan_sign {CHR ''-''} (l @ r) = ([], l @ r)" using c by (simp add: l scan_sign_def)
  moreover have "scan_frac r = Some ([], r)" "scan_exp r = Some ([], r)"
    using assms(2) by (cases r; simp add: scan_frac_def scan_exp_def ends_value_def)+
  ultimately show ?thesis by (simp add: scan_number_def)
qed

lemma join_append:
  "join sep (x # xs) @ r = x @ (if xs = [] then r else sep @ join sep xs @ r)"
  by (cases xs) auto

lemma scan_items_print:
  assumes "xs \<noteq> []" "close \<in> {CHR '']'', CHR ''}''}"
    and "\<And>x r. x \<in> set xs \<Longrightarrow> ends_value r \<Longrightarrow> p (pr x @ r) = Some (f x, r)"
    and "\<And>x. x \<in> set xs \<Longrightarrow> starts_value (pr x)"
  shows "scan_items close p (join '','' (map pr xs) @ close # r) = Some (map f xs, r)"
  using assms
proof (induction xs)
  case (Cons x xs)
  have close: "ends_value (close # r)" "skip_ws (close # r) = close # r" "close \<noteq> CHR '',''"
    using Cons.prems(2) by (auto simp: ends_value_def is_digit_less skip_ws_Cons)
  show ?case
  proof (cases "xs = []")
    case True
    then show ?thesis using Cons.prems(3) [of x "close # r"] close by (simp add: scan_items.simps)
  next
    case False
    let ?t = "join '','' (map pr xs) @ close # r"
    obtain y ys where xs: "xs = y # ys" using False by (cases xs) auto
    have t: "?t = pr y @ (if ys = [] then close # r else '','' @ join '','' (map pr ys) @ close # r)"
      using join_append [of "'',''" "pr y" "map pr ys" "close # r"] by (simp add: xs)
    then have "skip_ws ?t = ?t" using Cons.prems(4) [of y] skip_ws_value [of "pr y"] by (simp add: xs)
    moreover have "p (pr x @ CHR '','' # ?t) = Some (f x, CHR '','' # ?t)"
      using Cons.prems(3) [of x "CHR '','' # ?t"] by (simp add: ends_value_def is_digit_less)
    moreover have "skip_ws (CHR '','' # ?t) = CHR '','' # ?t" by (simp add: skip_ws_Cons)
    moreover have "scan_items close p ?t = Some (map f xs, r)" using Cons False by simp
    moreover have "join '','' (map pr (x # xs)) @ close # r = pr x @ CHR '','' # ?t" by (simp add: xs)
    ultimately show ?thesis using close(3) by (subst scan_items.simps) simp
  qed
qed simp

lemma scan_list_print:
  assumes "close \<in> {CHR '']'', CHR ''}''}"
    and "\<And>x r. x \<in> set xs \<Longrightarrow> ends_value r \<Longrightarrow> p (pr x @ r) = Some (f x, r)"
    and "\<And>x. x \<in> set xs \<Longrightarrow> starts_value (pr x)"
  shows "scan_list close p (join '','' (map pr xs) @ close # r) = Some (map f xs, r)"
proof (cases xs)
  case Nil
  then show ?thesis using assms(1) by (auto simp: scan_list_def skip_ws_Cons)
next
  case (Cons y ys)
  let ?t = "join '','' (map pr xs) @ close # r"
  have t: "?t = pr y @ (if ys = [] then close # r else '','' @ join '','' (map pr ys) @ close # r)"
    using join_append [of "'',''" "pr y" "map pr ys" "close # r"] by (simp add: Cons)
  have st: "starts_value (pr y)" using assms(3) Cons by simp
  then have "skip_ws ?t = ?t" unfolding t using skip_ws_value by blast
  moreover obtain c t' where "?t = c # t'" "c \<noteq> close"
    using st assms(1) t by (cases "pr y") (auto simp: starts_value_def)
  moreover have "scan_items close p ?t = Some (map f xs, r)"
    using assms Cons by (intro scan_items_print) simp_all
  ultimately show ?thesis by (simp add: scan_list_def)
qed

text \<open>Nested at most \<open>d\<close> deep, with natural numbers only.\<close>

primrec fits :: "nat \<Rightarrow> json \<Rightarrow> bool" where
  "fits 0 j = (case j of JArr js \<Rightarrow> False | JObj ms \<Rightarrow> False | JNum l \<Rightarrow> natural l | _ \<Rightarrow> True)"
| "fits (Suc d) j =
     (case j of JArr js \<Rightarrow> list_all (fits d) js | JObj ms \<Rightarrow> list_all (\<lambda>m. fits d (snd m)) ms
      | JNum l \<Rightarrow> natural l | _ \<Rightarrow> True)"

text \<open>What is read back: the strings with replacement characters.\<close>

primrec clean_json :: "json \<Rightarrow> json" where
  "clean_json JNull = JNull"
| "clean_json (JBool b) = JBool b"
| "clean_json (JNum l) = JNum l"
| "clean_json (JStr s) = JStr (clean s)"
| "clean_json (JArr js) = JArr (map clean_json js)"
| "clean_json (JObj ms) = JObj (map (map_prod clean clean_json) ms)"

lemma starts_value_print: "fits d j \<Longrightarrow> starts_value (json_print j)"
  by (cases d; cases j) (auto simp: starts_value_def json_quote_def dest!: natural_hd)

lemma scan_scalar_print:
  assumes "fits 0 j" "ends_value r"
  shows "scan_scalar (json_print j @ r) = Some (clean_json j, r)"
  using assms
proof (cases j)
  case (JNum l)
  then have "natural l" using assms(1) by simp
  then have "scan_scalar (l @ r) = map_option (apfst JNum) (scan_number (l @ r))"
    by (cases l) (auto simp: scan_scalar_def natural_def is_digit_less)
  then show ?thesis using JNum \<open>natural l\<close> assms(2) by (simp add: scan_number_natural)
qed (auto simp: scan_scalar_def scan_word_def json_quote_def scan_quote_runes)

lemma scan_value_print:
  "fits d j \<Longrightarrow> ends_value r \<Longrightarrow> scan_value d (json_print j @ r) = Some (clean_json j, r)"
proof (induction d arbitrary: j r)
  case 0
  then show ?case by (simp add: scan_scalar_print del: fits.simps)
next
  case (Suc d)
  show ?case
  proof (cases "fits 0 j")
    case True
    then have "hd (json_print j @ r) \<notin> {CHR ''['', CHR ''{''} \<and> json_print j @ r \<noteq> []"
      by (cases j) (auto simp: json_quote_def hd_append dest!: natural_hd)
    then show ?thesis using scan_scalar_print [OF True Suc.prems(2)]
      by (cases "json_print j @ r") auto
  next
    case False
    then consider (arr) js where "j = JArr js" "list_all (fits d) js"
      | (obj) ms where "j = JObj ms" "list_all (\<lambda>m. fits d (snd m)) ms"
      using Suc.prems(1) by (cases j) auto
    then show ?thesis
    proof cases
      case arr
      have "scan_list (CHR '']'') (scan_value d) (join '','' (map json_print js) @ CHR '']'' # r) =
          Some (map clean_json js, r)"
        using arr(2) Suc.IH starts_value_print by (intro scan_list_print) (auto simp: list_all_iff)
      then show ?thesis by (simp add: arr(1))
    next
      case obj
      let ?pr = "\<lambda>m. json_quote (fst m) @ '':'' @ json_print (snd m)"
      have "scan_member (scan_value d) (?pr m @ r) = Some (map_prod clean clean_json m, r)"
        if "m \<in> set ms" "ends_value r" for m r
      proof -
        have fit: "fits d (snd m)" using obj(2) that(1) by (simp add: list_all_iff)
        then have "skip_ws (json_print (snd m) @ r) = json_print (snd m) @ r"
          by (intro skip_ws_value starts_value_print)
        then show ?thesis using Suc.IH [OF fit that(2)]
          by (simp add: scan_member_def json_quote_def scan_quote_runes skip_ws_Cons map_prod_def split_def)
      qed
      then have "scan_list (CHR ''}'') (scan_member (scan_value d)) (join '','' (map ?pr ms) @ CHR ''}'' # r) =
          Some (map (map_prod clean clean_json) ms, r)"
        by (intro scan_list_print) (auto simp: starts_value_def json_quote_def)
      then show ?thesis by (simp add: obj(1) comp_def)
    qed
  qed
qed

text \<open>A printed value is parsed back.\<close>

theorem json_parse_print:
  assumes "fits max_depth j"
  shows "json_parse (json_print j) = Some (clean_json j)"
proof -
  have "skip_ws (json_print j) = json_print j"
    using skip_ws_value [OF starts_value_print [OF assms], of "[]"] by simp
  then show ?thesis using scan_value_print [OF assms, of "[]"] by (simp add: json_parse_def ends_value_def)
qed

section \<open>What is read is UTF-8\<close>

lemma hex_value_less:
  shows "hex_value c = Some n \<Longrightarrow> n < 16"
proof -
  have le: "unat (of_nat k :: byte) < 16" if "k < 16" for k
    using that by (simp add: unat_of_nat)
  show ?thesis if "hex_value c = Some n"
    using that by (auto simp: hex_value_def from_hex_char_def Let_def simp del: of_nat_diff
        split: if_splits intro!: le)
qed

lemma hex4_less: "(w :: nat) < 16 \<Longrightarrow> x < 16 \<Longrightarrow> y < 16 \<Longrightarrow> z < 16 \<Longrightarrow> ((w * 16 + x) * 16 + y) * 16 + z < 0x10000"
  by simp

lemma getu4_bound: "getu4 s = Some (u, r) \<Longrightarrow> u < 0x10000"
proof (induction s rule: getu4.induct)
  case (1 a b c d r)
  then obtain w x y z where "hex_value a = Some w" "hex_value b = Some x" "hex_value c = Some y"
    "hex_value d = Some z" and u: "u = ((w * 16 + x) * 16 + y) * 16 + z"
    by (auto split: option.splits)
  then have "w < 16" "x < 16" "y < 16" "z < 16" by (auto dest!: hex_value_less)
  then show ?case unfolding u by (rule hex4_less)
qed auto

lemma simple_escape_less: "simple_escape e = Some c \<Longrightarrow> ord_of c < 0x80"
  by (auto simp: simple_escape_def split: if_splits)

lemma scan_escape_cases:
  assumes "scan_escape s = Some (x, r)" "\<not> (\<exists>c. x = [c] \<and> ord_of c < 0x80)"
  obtains s' u r' where "getu4 s' = Some (u, r')"
    "if u < 0xD800 \<or> 0xE000 \<le> u then x = encode_rune u
     else if u < 0xDC00 then (case low_surrogate r' of None \<Rightarrow> x = replacement
       | Some (lo, r'') \<Rightarrow> x = encode_rune ((u - 0xD800) * 1024 + (lo - 0xDC00) + 0x10000))
     else x = replacement"
proof -
  obtain e t where s: "s = e # t" using assms(1) by (cases s) (auto simp: scan_escape_def)
  have e: "e = CHR ''u''"
  proof (rule ccontr)
    assume "e \<noteq> CHR ''u''"
    then obtain c where "simple_escape e = Some c" "x = [c]"
      using assms(1) by (auto simp: s scan_escape_def)
    then show False using assms(2) simple_escape_less by blast
  qed
  then obtain u r' where u: "getu4 t = Some (u, r')"
    using assms(1) e by (cases "getu4 t") (auto simp: s scan_escape_def)
  have "low_surrogate r' = None \<or> (\<exists>lo r''. low_surrogate r' = Some (lo, r''))"
    by (cases "low_surrogate r'") auto
  then show ?thesis
    using assms(1) e u by (intro that [OF u]) (auto simp: s scan_escape_def)
qed

lemma scan_escape_valid:
  assumes "scan_escape s = Some (x, r)"
  shows "valid_utf8 (x @ t) \<longleftrightarrow> valid_utf8 t"
proof -
  have low: "lo < 0xE000 \<and> 0xDC00 \<le> lo" if "low_surrogate q = Some (lo, q')" for q q' lo
    using that by (auto simp: low_surrogate_def split: list.splits if_splits option.splits)
  consider (rune) u where "x = encode_rune u" "u < 0xD800 \<or> 0xE000 \<le> u" "u < 0x110000"
    | (char) c where "x = [c]" "ord_of c < 0x80"
  proof (cases "\<exists>c. x = [c] \<and> ord_of c < 0x80")
    case False
    then obtain s' u r' where s: "getu4 s' = Some (u, r')"
      and x: "if u < 0xD800 \<or> 0xE000 \<le> u then x = encode_rune u
        else if u < 0xDC00 then (case low_surrogate r' of None \<Rightarrow> x = replacement
          | Some (lo, r'') \<Rightarrow> x = encode_rune ((u - 0xD800) * 1024 + (lo - 0xDC00) + 0x10000))
        else x = replacement"
      using assms scan_escape_cases by blast
    have u: "u < 0x10000" using s by (rule getu4_bound)
    have repl: "x = replacement \<Longrightarrow> thesis" using rune [of "0xFFFD"] by (simp add: replacement_def)
    show ?thesis
    proof (cases "u < 0xD800 \<or> 0xE000 \<le> u")
      case True
      then show ?thesis using x u rune [of u] by simp
    next
      case False
      show ?thesis
      proof (cases "u < 0xDC00")
        case True
        show ?thesis
        proof (cases "low_surrogate r'")
          case (Some p)
          obtain lo r'' where p: "p = (lo, r'')" by (cases p)
          with Some low have "lo < 0xE000" "0xDC00 \<le> lo" by blast+
          with True False have "(u - 0xD800) * 1024 + (lo - 0xDC00) + 0x10000 < 0x110000" by linarith
          then show ?thesis using x True False Some p
            by (intro rune [of "(u - 0xD800) * 1024 + (lo - 0xDC00) + 0x10000"]) simp_all
        qed (use x True False repl in simp)
      qed (use x False repl in simp)
    qed
  qed blast
  then show ?thesis
  proof cases
    case rune
    with utf8_size_encode_rune [OF rune(2,3)] show ?thesis by (simp add: valid_utf8_append)
  next
    case char
    then show ?thesis using valid_utf8_append [of x t] by (simp add: utf8_size_def utf8_len_def)
  qed
qed

lemma scan_string_valid: "scan_string s = Some (x, r) \<Longrightarrow> valid_utf8 x"
proof (induction s arbitrary: x r rule: scan_string.induct)
  case (1 s)
  show ?case
  proof (cases s)
    case (Cons c t)
    have repl: "valid_utf8 (replacement @ y) \<longleftrightarrow> valid_utf8 y" for y
      using utf8_size_encode_rune [of "0xFFFD"] unfolding replacement_def
      by (intro valid_utf8_append) simp_all
    have take: "valid_utf8 (take (utf8_size s) s @ y) \<longleftrightarrow> valid_utf8 y" if "utf8_size s \<noteq> 0" for y
      using that utf8_size_take_self [of s] utf8_size_le [of s] by (intro valid_utf8_append) simp_all
    have "scan_string (c # t) = Some (x, r)" using 1 Cons by simp
    then show ?thesis using 1(1-3) take repl scan_escape_valid
      by (subst (asm) scan_string.simps) (auto simp: Cons split: if_splits option.splits)
  qed (use 1 in \<open>simp add: scan_string.simps\<close>)
qed

primrec json_utf8 :: "json \<Rightarrow> bool" where
  "json_utf8 JNull \<longleftrightarrow> True"
| "json_utf8 (JBool b) \<longleftrightarrow> True"
| "json_utf8 (JNum l) \<longleftrightarrow> True"
| "json_utf8 (JStr s) \<longleftrightarrow> valid_utf8 s"
| "json_utf8 (JArr js) \<longleftrightarrow> list_all id (map json_utf8 js)"
| "json_utf8 (JObj ms) \<longleftrightarrow> list_all (\<lambda>m. valid_utf8 (fst m) \<and> snd m) (map (map_prod id json_utf8) ms)"

lemma clean_json_utf8: "json_utf8 j \<Longrightarrow> clean_json j = j"
proof (induction j)
  case (JObj ms)
  then have "map_prod clean clean_json m = m" if "m \<in> set ms" for m
    using that by (cases m) (force simp: list_all_iff clean_valid)
  then show ?case by (simp add: map_idI)
qed (auto simp: list_all_iff clean_valid map_idI)

lemma scan_items_all:
  assumes "\<And>s x r. p s = Some (x, r) \<Longrightarrow> P x" "scan_items close p s = Some (xs, r)"
  shows "list_all P xs"
  using assms
proof (induction close p s arbitrary: xs r rule: scan_items.induct)
  case (1 close p s)
  note prem = 1(3) [unfolded scan_items.simps [of close p s]]
  show ?case using 1(1) prem 1(2) by (auto split: option.splits list.splits if_splits)
qed

lemma scan_list_all:
  assumes "\<And>s x r. p s = Some (x, r) \<Longrightarrow> P x" "scan_list close p s = Some (xs, r)"
  shows "list_all P xs"
  using assms(2) scan_items_all [where P = P, OF assms(1)]
  by (auto simp: scan_list_def split: list.splits if_splits)

lemma scan_scalar_utf8: "scan_scalar s = Some (j, r) \<Longrightarrow> json_utf8 j"
  by (auto simp: scan_scalar_def scan_word_def split: list.splits if_splits dest: scan_string_valid)

lemma scan_member_utf8:
  assumes "\<And>s j r. p s = Some (j, r) \<Longrightarrow> json_utf8 j" "scan_member p t = Some (m, q)"
  shows "valid_utf8 (fst m) \<and> json_utf8 (snd m)"
  using assms scan_string_valid by (auto simp: scan_member_def split: list.splits if_splits option.splits)

lemma scan_value_utf8: "scan_value d s = Some (j, r) \<Longrightarrow> json_utf8 j"
proof (induction d arbitrary: s j r)
  case 0
  then show ?case by (simp add: scan_scalar_utf8)
next
  case (Suc d)
  let ?m = "\<lambda>m. valid_utf8 (fst m) \<and> json_utf8 (snd m)"
  obtain c t where s: "s = c # t" using Suc.prems by (cases s) auto
  consider (arr) js where "scan_list (CHR '']'') (scan_value d) t = Some (js, r)" "j = JArr js"
    | (obj) ms where "scan_list (CHR ''}'') (scan_member (scan_value d)) t = Some (ms, r)" "j = JObj ms"
    | (scalar) "scan_scalar s = Some (j, r)"
    using Suc.prems by (auto simp: s split: if_splits)
  then show ?case
  proof cases
    case arr
    then show ?thesis using scan_list_all [where P = json_utf8, OF Suc.IH arr(1)] by (simp add: list.pred_map)
  next
    case obj
    then show ?thesis
      using scan_list_all [where P = ?m, OF scan_member_utf8 [OF Suc.IH] obj(1)]
      by (simp add: list.pred_map comp_def)
  qed (rule scan_scalar_utf8)
qed

text \<open>Every string of a parsed value is UTF-8, whatever the text was.\<close>

theorem json_parse_utf8: "json_parse s = Some j \<Longrightarrow> json_utf8 j"
  by (auto simp: json_parse_def split: option.splits if_splits dest: scan_value_utf8)

lemma json_utf8_nested [simp]:
  "json_utf8 (JArr js) \<longleftrightarrow> list_all json_utf8 js"
  "json_utf8 (JObj ms) \<longleftrightarrow> list_all (\<lambda>m. valid_utf8 (fst m) \<and> json_utf8 (snd m)) ms"
  by (simp_all add: list.pred_map comp_def)

declare json_utf8.simps(5,6) [simp del]

end
