(* ===== verification/Json_Decode.thy ===== *)
theory Json_Decode
  imports Go_Json
begin

text \<open>
  Decoding a JSON value into a Go value, as \<open>json.Unmarshal\<close> does: in place, so that a decoder
  takes the old value. \<open>null\<close> leaves everything but pointers and slices as it is; members are
  matched with the fields of a structure exactly or up to the case of letters, and unknown
  members are skipped. A value of the wrong type is \<open>None\<close>: \<open>Unmarshal\<close> goes on after it but
  returns the error in the end, and go-bc drops the value then.

  The locale \<open>json_codec\<close> is the contract between a structure, its JSON value and its decoder.
\<close>

type_synonym 'a decoder = "json \<Rightarrow> 'a \<Rightarrow> 'a option"

section \<open>Scalars and pointers\<close>

definition dec_string :: "string decoder" where
  "dec_string j old = (case j of JNull \<Rightarrow> Some old | JStr s \<Rightarrow> Some s | _ \<Rightarrow> None)"

definition dec_bool :: "bool decoder" where
  "dec_bool j old = (case j of JNull \<Rightarrow> Some old | JBool b \<Rightarrow> Some b | _ \<Rightarrow> None)"

definition digits_value :: "string \<Rightarrow> nat" where
  "digits_value l = foldl (\<lambda>n c. 10 * n + (ord_of c - 48)) 0 l"

text \<open>\<open>strconv.ParseUint\<close> of the literal, then the test of the width.\<close>

definition dec_uint :: "('w::len word) decoder" where
  "dec_uint j old =
     (case j of JNull \<Rightarrow> Some old
      | JNum l \<Rightarrow>
          if l \<noteq> [] \<and> list_all is_digit l \<and> digits_value l < 2 ^ LENGTH('w)
          then Some (of_nat (digits_value l)) else None
      | _ \<Rightarrow> None)"

definition dec_ptr :: "'a decoder \<Rightarrow> 'a \<Rightarrow> 'a option decoder" where
  "dec_ptr d zero j old =
     (case j of JNull \<Rightarrow> Some None
      | _ \<Rightarrow> map_option Some (d j (case old of None \<Rightarrow> zero | Some x \<Rightarrow> x)))"

section \<open>Slices\<close>

text \<open>
  A slice as a target: its backing array and its length. An array is decoded into the elements
  of the backing array, which keep what an earlier array with the same name has left in them.
\<close>

datatype 'a target = Target (backing: "'a list") (target_len: nat)

definition nil_target :: "'a target" where
  "nil_target = Target [] 0"

definition target_list :: "'a target \<Rightarrow> 'a list" where
  "target_list t = take (target_len t) (backing t)"

fun dec_elems :: "'a decoder \<Rightarrow> 'a \<Rightarrow> json list \<Rightarrow> 'a list \<Rightarrow> 'a list option" where
  "dec_elems d zero [] old = Some old"
| "dec_elems d zero (j # js) old =
     (case d j (case old of [] \<Rightarrow> zero | x # _ \<Rightarrow> x) of None \<Rightarrow> None
      | Some y \<Rightarrow> map_option (Cons y) (dec_elems d zero js (tl old)))"

definition dec_slice :: "'a decoder \<Rightarrow> 'a \<Rightarrow> 'a target decoder" where
  "dec_slice d zero j old =
     (case j of JNull \<Rightarrow> Some nil_target
      | JArr js \<Rightarrow>
          if js = [] then Some nil_target
          else map_option (\<lambda>b. Target b (length js)) (dec_elems d zero js (backing old))
      | _ \<Rightarrow> None)"

section \<open>Structures\<close>

text \<open>Case folding: besides the letters of ASCII, the Kelvin sign and the long s.\<close>

definition fold_rune :: "string option \<Rightarrow> string" where
  "fold_rune r =
     (case r of None \<Rightarrow> replacement
      | Some b \<Rightarrow>
          if b = encode_rune 0x212A then ''k''
          else if b = encode_rune 0x017F then ''s''
          else map (\<lambda>c. if in_range 65 90 c then char_of (ord_of c + 32) else c) b)"

definition fold_name :: "string \<Rightarrow> string" where
  "fold_name s = concat (map fold_rune (runes s))"

definition find_field :: "(string \<times> 'r decoder) list \<Rightarrow> string \<Rightarrow> 'r decoder option" where
  "find_field fs k =
     (case map_of fs k of Some d \<Rightarrow> Some d
      | None \<Rightarrow> map_option snd (find (\<lambda>f. fold_name (fst f) = fold_name k) fs))"

text \<open>A field: its getter, its setter and the decoder of its type.\<close>

definition dec_field :: "'a decoder \<Rightarrow> ('r \<Rightarrow> 'a) \<Rightarrow> (('a \<Rightarrow> 'a) \<Rightarrow> 'r \<Rightarrow> 'r) \<Rightarrow> 'r decoder" where
  "dec_field d get upd j r = map_option (\<lambda>x. upd (\<lambda>_. x) r) (d j (get r))"

fun dec_members :: "(string \<times> 'r decoder) list \<Rightarrow> (string \<times> json) list \<Rightarrow> 'r \<Rightarrow> 'r option" where
  "dec_members fs [] r = Some r"
| "dec_members fs ((k, j) # ms) r =
     (case find_field fs k of None \<Rightarrow> dec_members fs ms r
      | Some d \<Rightarrow> (case d j r of None \<Rightarrow> None | Some r' \<Rightarrow> dec_members fs ms r'))"

definition dec_struct :: "(string \<times> 'r decoder) list \<Rightarrow> 'r decoder" where
  "dec_struct fs j r =
     (case j of JNull \<Rightarrow> Some r | JObj ms \<Rightarrow> dec_members fs ms r | _ \<Rightarrow> None)"

section \<open>Unmarshal and Marshal\<close>

text \<open>The text is checked as a whole before anything is decoded.\<close>

definition json_Unmarshal :: "(json \<Rightarrow> 'a option) \<Rightarrow> string \<Rightarrow> 'a res" where
  "json_Unmarshal decode s =
     (case json_parse s of None \<Rightarrow> Err JsonSyntaxError
      | Some j \<Rightarrow> (case decode j of None \<Rightarrow> Err JsonTypeError | Some x \<Rightarrow> Ok x))"

text \<open>The bytes of a text.\<close>

definition text_bytes :: "string \<Rightarrow> bytes" where
  "text_bytes s = map of_char s"

definition bytes_text :: "bytes \<Rightarrow> string" where
  "bytes_text b = map (\<lambda>x. char_of (unat x)) b"

definition json_uint :: "'w::len word \<Rightarrow> json" where
  "json_uint v = JNum (show_nat (unat v))"

text \<open>A field with \<open>omitempty\<close>, left out when its pointer is nil.\<close>

definition omit_nil :: "string \<Rightarrow> ('a \<Rightarrow> json) \<Rightarrow> 'a option \<Rightarrow> (string \<times> json) list" where
  "omit_nil k f p = (case p of None \<Rightarrow> [] | Some x \<Rightarrow> [(k, f x)])"

lemma unat_of_char [simp]: "unat (of_char c :: byte) = ord_of c"
proof -
  have "unat (of_nat (ord_of c) :: byte) = ord_of c" by (simp only: unat_of_nat) simp
  then show ?thesis by (simp only: of_nat_of_char)
qed

lemma bytes_text_bytes [simp]: "bytes_text (text_bytes s) = s"
  by (simp add: bytes_text_def text_bytes_def comp_def)

lemma text_bytes_inject [simp]: "text_bytes s = text_bytes t \<longleftrightarrow> s = t"
  by (metis bytes_text_bytes)

lemma length_text_bytes [simp]: "length (text_bytes s) = length s"
  by (simp add: text_bytes_def)

section \<open>Numbers and slices are read back\<close>

lemma show_nat_digits:
  "list_all is_digit (show_nat n)" "show_nat n \<noteq> []" "digits_value (show_nat n) = n"
  "0 < n \<Longrightarrow> hd (show_nat n) \<noteq> CHR ''0''"
proof (induction n rule: show_nat.induct)
  case (1 n)
  have c: "is_digit (char_of (48 + m))" "ord_of (char_of (48 + m)) = 48 + m" if "m < 10" for m :: nat
    using that by (simp_all add: is_digit_less)
  have z: "char_of (48 + n) \<noteq> CHR ''0''" if "0 < n" "n < 10"
  proof
    assume "char_of (48 + n) = CHR ''0''"
    then have "ord_of (char_of (48 + n)) = 48" by simp
    with c(2) [OF that(2)] that(1) show False by simp
  qed
  have ten: "n mod 10 < 10" by simp
  { case 1 then show ?case using "1.IH"(1) c(1) c(1) [OF ten] by (subst show_nat.simps) simp }
  { case 2 then show ?case by (subst show_nat.simps) simp }
  { case 3 then show ?case using "1.IH"(3) c(2) c(2) [OF ten]
      by (subst show_nat.simps) (simp add: digits_value_def) }
  { case 4 then show ?case using "1.IH"(2,4) z by (subst show_nat.simps) (simp add: hd_append) }
qed

lemma natural_show_nat [simp]: "natural (show_nat n)"
proof (cases "n = 0")
  case True
  then show ?thesis by (simp add: natural_def show_nat.simps is_digit_less)
next
  case False
  then show ?thesis using show_nat_digits [of n] by (simp add: natural_def)
qed

lemma dec_json_uint [simp]: "dec_uint (json_uint v) old = Some v"
  using unsigned_less [where ?'a = nat and w = v]
  by (simp add: dec_uint_def json_uint_def show_nat_digits)

lemma json_utf8_uint [simp]: "json_utf8 (json_uint v)"
  by (simp add: json_uint_def)

lemma dec_string_JStr [simp]: "dec_string (JStr s) old = Some s"
  by (simp add: dec_string_def)

lemma dec_bool_JBool [simp]: "dec_bool (JBool b) old = Some b"
  by (simp add: dec_bool_def)

lemma dec_field_Some [simp]: "d j (get r) = Some x \<Longrightarrow> dec_field d get upd j r = Some (upd (\<lambda>_. x) r)"
  by (simp add: dec_field_def)

lemma dec_ptr_scalar [simp]:
  "dec_ptr dec_uint zero_u (json_uint v) old_u = Some (Some v)"
  "dec_ptr dec_string zero_s (JStr s) old_s = Some (Some s)"
  "dec_ptr dec_bool zero_b (JBool b) old_b = Some (Some b)"
  by (simp_all add: dec_ptr_def) (simp_all add: json_uint_def dec_ptr_def dec_json_uint [unfolded json_uint_def])

text \<open>An array decoded into a nil slice.\<close>

lemma dec_elems_nil:
  assumes "\<And>x. x \<in> set xs \<Longrightarrow> d (to_j x) zero = Some (f x)"
  shows "dec_elems d zero (map to_j xs) [] = Some (map f xs)"
  using assms by (induction xs) auto

lemma dec_slice_nil:
  assumes "\<And>x. x \<in> set xs \<Longrightarrow> d (to_j x) zero = Some (f x)"
  shows "dec_slice d zero (JArr (map to_j xs)) nil_target = Some (Target (map f xs) (length xs))"
  using dec_elems_nil [of xs d to_j zero f] assms by (auto simp: dec_slice_def nil_target_def)

lemma target_list_Target [simp]: "length xs = n \<Longrightarrow> target_list (Target xs n) = xs"
  by (simp add: target_list_def)

text \<open>Members that match no field change nothing.\<close>

lemma dec_members_append:
  "dec_members fs (ms @ ms') r =
     (case dec_members fs ms r of None \<Rightarrow> None | Some r' \<Rightarrow> dec_members fs ms' r')"
  by (induction fs ms r rule: dec_members.induct) (auto split: option.splits)

lemma dec_members_unknown:
  "find_field fs k = None \<Longrightarrow> dec_members fs (ms @ (k, j) # ms') r = dec_members fs (ms @ ms') r"
  by (simp add: dec_members_append split: option.split)

lemma find_field_exact: "map_of fs k = Some d \<Longrightarrow> find_field fs k = Some d"
  by (simp add: find_field_def)

text \<open>A name of ASCII letters matches up to their case.\<close>

definition lower :: "char \<Rightarrow> char" where
  "lower c = (if in_range 65 90 c then char_of (ord_of c + 32) else c)"

lemma fold_name_ascii: "list_all (\<lambda>c. ord_of c < 0x80) s \<Longrightarrow> fold_name s = map lower s"
proof -
  assume "list_all (\<lambda>c. ord_of c < 0x80) s"
  moreover have "[c] \<noteq> encode_rune 0x212A \<and> [c] \<noteq> encode_rune 0x017F" for c
    by (simp add: encode_rune_def)
  then have "fold_rune (Some [c]) = [lower c]" for c by (simp add: fold_rune_def lower_def)
  ultimately show ?thesis by (simp add: fold_name_def runes_ascii comp_def)
qed

lemma find_field_ascii:
  assumes "list_all (\<lambda>f. list_all (\<lambda>c. ord_of c < 0x80) (fst f)) fs" "list_all (\<lambda>c. ord_of c < 0x80) k"
    and "list_all (\<lambda>f. map lower (fst f) \<noteq> map lower k) fs"
  shows "find_field fs k = None"
proof -
  have "fold_name (fst f) \<noteq> fold_name k" if "f \<in> set fs" for f
    using that assms fold_name_ascii [of "fst f"] fold_name_ascii [of k] by (auto simp: list_all_iff)
  then have "find (\<lambda>f. fold_name (fst f) = fold_name k) fs = None" "map_of fs k = None"
    by (auto simp: find_None_iff map_of_eq_None_iff)
  then show ?thesis by (simp add: find_field_def)
qed

text \<open>Hexadecimal strings are ASCII.\<close>

lemma hex_digits_ascii: "n < 16 \<Longrightarrow> ord_of (hex_digits ! n) < 0x80"
proof -
  assume "n < 16"
  then have "hex_digits ! n \<in> set hex_digits" by (intro nth_mem) (simp add: hex_digits_def)
  moreover have "list_all (\<lambda>c. ord_of c < 0x80) hex_digits" by (simp add: hex_digits_def)
  ultimately show ?thesis by (simp add: list_all_iff)
qed

lemma valid_utf8_hex [simp]: "valid_utf8 (hex_EncodeToString b)"
  by (intro valid_utf8_ascii)
    (auto simp: hex_EncodeToString_def list_all_iff intro!: hex_digits_ascii byte_hi_less byte_lo_less)

lemma valid_utf8_canonical_hex: "canonical_hex s \<Longrightarrow> valid_utf8 s"
  by (elim canonical_hexE) simp

section \<open>Invariants of decoding\<close>

lemma find_field_mem: "find_field fs k = Some d \<Longrightarrow> \<exists>n. (n, d) \<in> set fs"
  by (auto simp: find_field_def find_Some_iff split: option.splits dest: map_of_SomeD)
    (metis nth_mem prod.collapse)

lemma dec_members_inv:
  assumes "\<And>n d j r r'. (n, d) \<in> set fs \<Longrightarrow> json_utf8 j \<Longrightarrow> P r \<Longrightarrow> d j r = Some r' \<Longrightarrow> P r'"
    and "list_all (\<lambda>m. json_utf8 (snd m)) ms" "P r" "dec_members fs ms r = Some r'"
  shows "P r'"
  using assms(2-4)
proof (induction ms arbitrary: r)
  case (Cons m ms)
  then show ?case using assms(1) find_field_mem [of fs "fst m"]
    by (cases m) (fastforce split: option.splits)
qed simp

lemma dec_string_utf8: "json_utf8 j \<Longrightarrow> valid_utf8 old \<Longrightarrow> dec_string j old = Some s \<Longrightarrow> valid_utf8 s"
  by (auto simp: dec_string_def split: json.splits)

lemma dec_string_field_wf:
  assumes "dec_field dec_string get upd j r = Some r'" "json_utf8 j" "valid_utf8 (get r)"
    and "\<And>s. valid_utf8 s \<Longrightarrow> P (upd (\<lambda>_. s) r)"
  shows "P r'"
  using assms dec_string_utf8 by (auto simp: dec_field_def)

lemma json_Unmarshal_OkD:
  "json_Unmarshal decode s = Ok x \<Longrightarrow> \<exists>j. json_parse s = Some j \<and> json_utf8 j \<and> decode j = Some x"
  by (auto simp: json_Unmarshal_def split: option.splits dest: json_parse_utf8)

section \<open>The contract\<close>

lemma fits_Suc: "fits d j \<Longrightarrow> fits (Suc d) j"
proof (induction d arbitrary: j)
  case (Suc d)
  show ?case
    unfolding fits.simps(2) [of "Suc d" j] using Suc.prems [unfolded fits.simps(2) [of d j]] Suc.IH
    by (cases j) (auto simp del: fits.simps simp: list_all_iff)
qed (simp split: json.splits)

lemma fits_mono: "fits d j \<Longrightarrow> d \<le> e \<Longrightarrow> fits e j"
proof (induction e)
  case (Suc e)
  then show ?case using fits_Suc [of e j] by (cases "d = Suc e") (simp_all del: fits.simps)
qed (simp del: fits.simps)

lemma json_print_inject:
  assumes "fits 4 i" "fits 4 j" "json_print i = json_print j"
  shows "clean_json i = clean_json j"
proof -
  have "fits max_depth i" "fits max_depth j"
    using assms(1,2) by (auto intro: fits_mono simp: max_depth_def)
  from this [THEN json_parse_print] assms(3) show ?thesis by simp
qed

text \<open>
  A structure, its JSON value and its decoder: the decoder inverts the value, which is nested
  at most four deep and whose strings are UTF-8 when the structure is well-formed.
\<close>

locale json_codec =
  fixes wf :: "'a \<Rightarrow> bool"
    and to_json :: "'a \<Rightarrow> json"
    and decode :: "json \<Rightarrow> 'a option"
  assumes decode_to_json: "decode (to_json x) = Some x"
    and fits_to_json: "fits 4 (to_json x)"
    and utf8_to_json: "wf x \<Longrightarrow> json_utf8 (to_json x)"
begin

lemma parse_print: "json_parse (json_print (to_json x)) = Some (clean_json (to_json x))"
  by (intro json_parse_print fits_mono [OF fits_to_json]) (simp add: max_depth_def)

lemma Unmarshal_print: "wf x \<Longrightarrow> json_Unmarshal decode (json_print (to_json x)) = Ok x"
  by (simp add: json_Unmarshal_def parse_print clean_json_utf8 utf8_to_json decode_to_json)

lemma print_inject:
  "wf x \<Longrightarrow> wf y \<Longrightarrow> json_print (to_json x) = json_print (to_json y) \<Longrightarrow> x = y"
  by (metis Unmarshal_print res.inject(1))

end

end
