(* ===== verification/Block_Header.thy ===== *)
theory Block_Header
  imports Target Json_Decode
begin

text \<open>
  \<open>blockheader.go\<close>: the 80-byte block header, its serialisation, its proof-of-work check and
  its JSON form. \<open>bhJSON\<close> is the structure handed to \<open>encoding/json\<close>.
\<close>

record BlockHeader =
  bh_Version :: u32
  bh_Time :: u32
  bh_Nonce :: u32
  bh_HashPrevBlock :: bytes
  bh_HashMerkleRoot :: bytes
  bh_Bits :: bytes

record bhJSON =
  bhj_Version :: u32
  bhj_Time :: u32
  bhj_Nonce :: u32
  bhj_HashPrevBlock :: string
  bhj_HashMerkleRoot :: string
  bhj_Bits :: string

definition HashPrevBlockStr :: "BlockHeader \<Rightarrow> string" where
  "HashPrevBlockStr bh = hex_EncodeToString (bh_HashPrevBlock bh)"

definition HashMerkleRootStr :: "BlockHeader \<Rightarrow> string" where
  "HashMerkleRootStr bh = hex_EncodeToString (bh_HashMerkleRoot bh)"

definition BitsStr :: "BlockHeader \<Rightarrow> string" where
  "BitsStr bh = hex_EncodeToString (bh_Bits bh)"

definition BlockHeader_Bytes :: "BlockHeader \<Rightarrow> bytes" where
  "BlockHeader_Bytes bh =
     UInt32ToBytes (bh_Version bh) @
     ReverseBytes (bh_HashPrevBlock bh) @
     ReverseBytes (bh_HashMerkleRoot bh) @
     UInt32ToBytes (bh_Time bh) @
     ReverseBytes (bh_Bits bh) @
     UInt32ToBytes (bh_Nonce bh)"

definition BlockHeader_String :: "BlockHeader \<Rightarrow> string" where
  "BlockHeader_String bh = hex_EncodeToString (BlockHeader_Bytes bh)"

text \<open>A panic of the target expansion (fewer than four bytes of \<open>Bits\<close>) is not an error.\<close>

definition BlockHeader_Valid :: "BlockHeader \<Rightarrow> bool res" where
  "BlockHeader_Valid bh =
     (case ExpandTargetFromAsInt (hex_EncodeToString (bh_Bits bh)) of
        Err e \<Rightarrow> Ok False
      | Panic p \<Rightarrow> Panic p
      | Ok target \<Rightarrow>
          let digest = ReverseBytes (Sha256d (BlockHeader_Bytes bh));
              bn = big_SetBytes digest
          in Ok (int bn < target))"

definition NewBlockHeaderFromBytes :: "bytes \<Rightarrow> BlockHeader res" where
  "NewBlockHeaderFromBytes hb =
     (if length hb \<noteq> 80 then Err (Msg ''block header should be 80 bytes long'')
      else
        bind_res (go_slice hb 0 4) (\<lambda>s. bind_res (uint32_le s) (\<lambda>version.
        bind_res (go_slice hb 4 36) (\<lambda>prev.
        bind_res (go_slice hb 36 68) (\<lambda>root.
        bind_res (go_slice hb 68 72) (\<lambda>s. bind_res (uint32_le s) (\<lambda>time.
        bind_res (go_slice hb 72 76) (\<lambda>bits.
        bind_res (go_slice hb 76 (length hb)) (\<lambda>s. bind_res (uint32_le s) (\<lambda>nonce.
          Ok \<lparr> bh_Version = version, bh_Time = time, bh_Nonce = nonce,
               bh_HashPrevBlock = ReverseBytes prev, bh_HashMerkleRoot = ReverseBytes root,
               bh_Bits = ReverseBytes bits \<rparr>))))))))))"

definition NewBlockHeaderFromStr :: "string \<Rightarrow> BlockHeader res" where
  "NewBlockHeaderFromStr headerStr =
     (if length headerStr \<noteq> 160 then Err (Msg ''block header should be 80 bytes long'')
      else bind_res (hex_DecodeString headerStr) NewBlockHeaderFromBytes)"

definition ExtractMerkleRootFromBlockHeader :: "string \<Rightarrow> string res" where
  "ExtractMerkleRootFromBlockHeader header =
     bind_res (NewBlockHeaderFromStr header) (\<lambda>bh. Ok (hex_EncodeToString (bh_HashMerkleRoot bh)))"

text \<open>The structure \<open>MarshalJSON\<close> marshals.\<close>

definition BlockHeader_to_json :: "BlockHeader \<Rightarrow> bhJSON" where
  "BlockHeader_to_json bh =
     \<lparr> bhj_Version = bh_Version bh, bhj_Time = bh_Time bh, bhj_Nonce = bh_Nonce bh,
       bhj_HashPrevBlock = HashPrevBlockStr bh, bhj_HashMerkleRoot = HashMerkleRootStr bh,
       bhj_Bits = BitsStr bh \<rparr>"

text \<open>
  \<open>UnmarshalJSON\<close> after the JSON text has been read: it stores the fields into the receiver
  one after the other and stops at the first that is not a hex string, leaving the earlier
  ones stored. The result is the receiver with the returned error.
\<close>

definition BlockHeader_of_json :: "bhJSON \<Rightarrow> BlockHeader \<Rightarrow> BlockHeader \<times> go_error option" where
  "BlockHeader_of_json bhj bh0 =
     (let bh1 = bh0\<lparr> bh_Version := bhj_Version bhj, bh_Nonce := bhj_Nonce bhj,
                     bh_Time := bhj_Time bhj \<rparr>
      in case hexDecode (bhj_Bits bhj) of
           (_, Some e) \<Rightarrow> (bh1, Some e)
         | (bits, None) \<Rightarrow>
             (let bh2 = bh1\<lparr> bh_Bits := bits \<rparr>
              in case hexDecode (bhj_HashPrevBlock bhj) of
                   (_, Some e) \<Rightarrow> (bh2, Some e)
                 | (prev, None) \<Rightarrow>
                     (let bh3 = bh2\<lparr> bh_HashPrevBlock := prev \<rparr>
                      in case hexDecode (bhj_HashMerkleRoot bhj) of
                           (_, Some e) \<Rightarrow> (bh3, Some e)
                         | (root, None) \<Rightarrow> (bh3\<lparr> bh_HashMerkleRoot := root \<rparr>, None))))"

text \<open>The tags of \<open>bhJSON\<close>, and the two methods on texts.\<close>

definition bhj_members :: "bhJSON \<Rightarrow> (string \<times> json) list" where
  "bhj_members j =
     [(''version'', json_uint (bhj_Version j)), (''time'', json_uint (bhj_Time j)),
      (''nonce'', json_uint (bhj_Nonce j)), (''hashPrevBlock'', JStr (bhj_HashPrevBlock j)),
      (''merkleRoot'', JStr (bhj_HashMerkleRoot j)), (''bits'', JStr (bhj_Bits j))]"

definition bhj_fields :: "(string \<times> bhJSON decoder) list" where
  "bhj_fields =
     [(''version'', dec_field dec_uint bhj_Version bhj_Version_update),
      (''time'', dec_field dec_uint bhj_Time bhj_Time_update),
      (''nonce'', dec_field dec_uint bhj_Nonce bhj_Nonce_update),
      (''hashPrevBlock'', dec_field dec_string bhj_HashPrevBlock bhj_HashPrevBlock_update),
      (''merkleRoot'', dec_field dec_string bhj_HashMerkleRoot bhj_HashMerkleRoot_update),
      (''bits'', dec_field dec_string bhj_Bits bhj_Bits_update)]"

definition bhj_decode :: "json \<Rightarrow> bhJSON option" where
  "bhj_decode j = dec_struct bhj_fields j
     \<lparr> bhj_Version = 0, bhj_Time = 0, bhj_Nonce = 0, bhj_HashPrevBlock = '''',
       bhj_HashMerkleRoot = '''', bhj_Bits = '''' \<rparr>"

definition BlockHeader_MarshalJSON :: "BlockHeader \<Rightarrow> bytes res" where
  "BlockHeader_MarshalJSON bh =
     Ok (text_bytes (json_print (JObj (bhj_members (BlockHeader_to_json bh)))))"

definition BlockHeader_UnmarshalJSON ::
  "bytes \<Rightarrow> BlockHeader \<Rightarrow> (BlockHeader \<times> go_error option) res" where
  "BlockHeader_UnmarshalJSON b bh0 =
     on_err (json_Unmarshal bhj_decode (bytes_text b)) (\<lambda>e. Ok (bh0, Some e))
       (\<lambda>bhj. Ok (BlockHeader_of_json bhj bh0))"

section \<open>Round trips\<close>

definition wf_BlockHeader :: "BlockHeader \<Rightarrow> bool" where
  "wf_BlockHeader bh \<longleftrightarrow>
     length (bh_HashPrevBlock bh) = 32 \<and> length (bh_HashMerkleRoot bh) = 32 \<and>
     length (bh_Bits bh) = 4"

lemma length_BlockHeader_Bytes [simp]: "wf_BlockHeader bh \<Longrightarrow> length (BlockHeader_Bytes bh) = 80"
  by (simp add: BlockHeader_Bytes_def wf_BlockHeader_def UInt32ToBytes_def)

lemma NewBlockHeaderFromBytes_Bytes:
  "wf_BlockHeader bh \<Longrightarrow> NewBlockHeaderFromBytes (BlockHeader_Bytes bh) = Ok bh"
  by (cases bh) (simp add: NewBlockHeaderFromBytes_def, simp add: BlockHeader_Bytes_def
      wf_BlockHeader_def UInt32ToBytes_def)

text \<open>An 80-byte string is the serialisation of the header read from it.\<close>

lemma split_80:
  assumes "length hb = 80"
  obtains v prev root t bits n where "hb = v @ prev @ root @ t @ bits @ n" "length v = 4"
    "length prev = 32" "length root = 32" "length t = 4" "length bits = 4" "length n = 4"
proof
  show "hb = take 4 hb @ take 32 (drop 4 hb) @ take 32 (drop 36 hb) @ take 4 (drop 68 hb) @
      take 4 (drop 72 hb) @ drop 76 hb"
    using append_take_drop_id [of 4 hb] append_take_drop_id [of 32 "drop 4 hb"]
      append_take_drop_id [of 32 "drop 36 hb"] append_take_drop_id [of 4 "drop 68 hb"]
      append_take_drop_id [of 4 "drop 72 hb"]
    by simp
qed (use assms in simp_all)

lemma uint32_le_Ok: "length bs = 4 \<Longrightarrow> \<exists>v. uint32_le bs = Ok v"
  by (simp add: uint32_le_def)

lemma BlockHeader_Bytes_FromBytes:
  assumes "length hb = 80"
  shows "\<exists>bh. NewBlockHeaderFromBytes hb = Ok bh \<and> BlockHeader_Bytes bh = hb \<and> wf_BlockHeader bh"
proof -
  from assms obtain v prev root t bits n where hb: "hb = v @ prev @ root @ t @ bits @ n"
    and len: "length v = 4" "length prev = 32" "length root = 32" "length t = 4"
      "length bits = 4" "length n = 4"
    by (rule split_80)
  obtain v' where v: "v = le32 v'" using uint32_le_Ok [OF len(1)] le32_uint32_le [OF len(1)] by metis
  obtain t' where t: "t = le32 t'" using uint32_le_Ok [OF len(4)] le32_uint32_le [OF len(4)] by metis
  obtain n' where n: "n = le32 n'" using uint32_le_Ok [OF len(6)] le32_uint32_le [OF len(6)] by metis
  let ?bh = "\<lparr> bh_Version = v', bh_Time = t', bh_Nonce = n', bh_HashPrevBlock = rev prev,
      bh_HashMerkleRoot = rev root, bh_Bits = rev bits \<rparr>"
  have wf: "wf_BlockHeader ?bh" using len by (simp add: wf_BlockHeader_def)
  have "BlockHeader_Bytes ?bh = hb"
    by (simp add: BlockHeader_Bytes_def UInt32ToBytes_def hb v t n)
  with wf NewBlockHeaderFromBytes_Bytes [OF wf] show ?thesis by metis
qed

lemma NewBlockHeaderFromBytes_OkD:
  assumes "NewBlockHeaderFromBytes hb = Ok bh"
  shows "length hb = 80 \<and> BlockHeader_Bytes bh = hb \<and> wf_BlockHeader bh"
proof -
  from assms have "length hb = 80"
    by (auto simp: NewBlockHeaderFromBytes_def split: if_splits)
  with BlockHeader_Bytes_FromBytes [of hb] assms show ?thesis by auto
qed

lemma NewBlockHeaderFromBytes_not_Panic [simp]: "NewBlockHeaderFromBytes hb \<noteq> Panic p"
proof (cases "length hb = 80")
  case True
  then show ?thesis using BlockHeader_Bytes_FromBytes [of hb] by auto
qed (simp add: NewBlockHeaderFromBytes_def)

lemma NewBlockHeaderFromStr_String:
  "wf_BlockHeader bh \<Longrightarrow> NewBlockHeaderFromStr (BlockHeader_String bh) = Ok bh"
  by (simp add: NewBlockHeaderFromStr_def BlockHeader_String_def NewBlockHeaderFromBytes_Bytes)

lemma BlockHeader_of_json_to_json:
  "BlockHeader_of_json (BlockHeader_to_json bh) bh0 = (bh, None)"
  by (cases bh) (simp add: BlockHeader_of_json_def BlockHeader_to_json_def Let_def BitsStr_def
      HashPrevBlockStr_def HashMerkleRootStr_def)

definition wf_bhJSON :: "bhJSON \<Rightarrow> bool" where
  "wf_bhJSON j \<longleftrightarrow>
     valid_utf8 (bhj_HashPrevBlock j) \<and> valid_utf8 (bhj_HashMerkleRoot j) \<and> valid_utf8 (bhj_Bits j)"

lemma wf_BlockHeader_to_json: "wf_bhJSON (BlockHeader_to_json bh)"
  by (simp add: wf_bhJSON_def BlockHeader_to_json_def BitsStr_def HashPrevBlockStr_def
      HashMerkleRootStr_def)

interpretation bh_codec: json_codec wf_bhJSON "\<lambda>j. JObj (bhj_members j)" bhj_decode
proof
  fix j
  show "bhj_decode (JObj (bhj_members j)) = Some j"
    by (cases j) (simp add: bhj_decode_def dec_struct_def bhj_fields_def bhj_members_def
        find_field_def)
  show "fits 4 (JObj (bhj_members j))"
    by (simp add: bhj_members_def json_uint_def numeral_eq_Suc)
  show "json_utf8 (JObj (bhj_members j))" if "wf_bhJSON j"
    using that by (simp add: bhj_members_def wf_bhJSON_def valid_utf8_ascii)
qed

lemma length_HashMerkleRootStr [simp]:
  "wf_BlockHeader bh \<Longrightarrow> length (HashMerkleRootStr bh) = 64"
  by (simp add: HashMerkleRootStr_def wf_BlockHeader_def)

section \<open>Properties\<close>

text \<open>\<open>NewBlockHeaderFromBytes\<close> succeeds exactly on 80 bytes, and \<open>BlockHeader.Bytes\<close> of
  the header it returns is its argument: between 80-byte strings and headers with 32-byte
  hashes and 4-byte bits the two are inverse to each other.\<close>

theorem BlockHeader_bytes_iff:
  "NewBlockHeaderFromBytes hb = Ok bh \<longleftrightarrow>
   length hb = 80 \<and> wf_BlockHeader bh \<and> BlockHeader_Bytes bh = hb"
  using NewBlockHeaderFromBytes_OkD NewBlockHeaderFromBytes_Bytes by auto

text \<open>C35: what \<open>Valid\<close> checks: for a header with four bytes of bits it answers, without
  panic, whether its double SHA-256, read as a little-endian number, is below the target the
  bits stand for.\<close>

theorem BlockHeader_Valid_spec:
  assumes "wf_BlockHeader bh"
  shows "\<exists>c. uint32_be (bh_Bits bh) = Ok c \<and>
    BlockHeader_Valid bh =
    Ok (int (big_SetBytes (rev (Sha256d (BlockHeader_Bytes bh)))) < compact_value c)"
proof -
  obtain c where c: "uint32_be (bh_Bits bh) = Ok c"
    using assms by (auto simp: wf_BlockHeader_def uint32_be_def)
  have "hex_DecodeString (hex_EncodeToString (bh_Bits bh)) = Ok (bh_Bits bh)" by simp
  from ExpandTargetFromAsInt_value [OF this c] c show ?thesis
    by (simp add: BlockHeader_Valid_def Let_def)
qed

theorem BlockHeader_Valid_spec_witness:
  "\<exists>v. BlockHeader_Valid \<lparr> bh_Version = 1, bh_Time = 1231006505, bh_Nonce = 2083236893,
     bh_HashPrevBlock = replicate 32 0, bh_HashMerkleRoot = replicate 32 1,
     bh_Bits = [0x1d, 0, 0xff, 0xff] \<rparr> = Ok v"
  using BlockHeader_Valid_spec [of "\<lparr> bh_Version = 1, bh_Time = 1231006505, bh_Nonce = 2083236893,
     bh_HashPrevBlock = replicate 32 0, bh_HashMerkleRoot = replicate 32 1,
     bh_Bits = [0x1d, 0, 0xff, 0xff] \<rparr>"]
  by (auto simp: wf_BlockHeader_def)

text \<open>\<open>UnmarshalJSON\<close> of the structure \<open>MarshalJSON\<close> marshals restores the header into any
  receiver, and on a field that is not hex it returns an error.\<close>

theorem BlockHeader_json_roundtrip:
  "BlockHeader_of_json (BlockHeader_to_json bh) bh0 = (bh, None) \<and>
   (snd (BlockHeader_of_json j bh0) = None \<longleftrightarrow>
      valid_hex (bhj_Bits j) \<and> valid_hex (bhj_HashPrevBlock j) \<and> valid_hex (bhj_HashMerkleRoot j))"
  using hexDecode_valid_iff [of "bhj_Bits j"] hexDecode_valid_iff [of "bhj_HashPrevBlock j"]
    hexDecode_valid_iff [of "bhj_HashMerkleRoot j"] BlockHeader_of_json_to_json [of bh bh0]
  by (auto simp: BlockHeader_of_json_def Let_def split: prod.splits option.splits)

text \<open>\<open>UnmarshalJSON\<close> of the text \<open>MarshalJSON\<close> writes restores every header, whatever the
  lengths of its fields, into any receiver.\<close>

theorem BlockHeader_JSON_roundtrip:
  "\<exists>b. BlockHeader_MarshalJSON bh = Ok b \<and> BlockHeader_UnmarshalJSON b bh0 = Ok (bh, None)"
  using bh_codec.Unmarshal_print [OF wf_BlockHeader_to_json, of bh] BlockHeader_of_json_to_json [of bh bh0]
  by (simp add: BlockHeader_MarshalJSON_def BlockHeader_UnmarshalJSON_def)

text \<open>Nothing of the text is required: from \<open>{}\<close> a header without hashes and bits is
  read, without an error, and \<open>Valid\<close> panics on it.\<close>

theorem BlockHeader_JSON_unchecked:
  "\<exists>bh. BlockHeader_UnmarshalJSON (text_bytes ''{}'') bh0 = Ok (bh, None) \<and>
     bh_HashPrevBlock bh = [] \<and> bh_HashMerkleRoot bh = [] \<and> bh_Bits bh = [] \<and>
     BlockHeader_Valid bh = Panic IndexOutOfRange"
proof -
  have "fits max_depth (JObj [])" by (rule fits_mono [of 1]) (simp_all add: max_depth_def)
  then have "json_parse ''{}'' = Some (JObj [])" using json_parse_print [of "JObj []"] by simp
  then show ?thesis
    by (simp add: BlockHeader_UnmarshalJSON_def json_Unmarshal_def bhj_decode_def dec_struct_def
        BlockHeader_of_json_def Let_def BlockHeader_Valid_def ExpandTargetFromAsInt_def uint32_be_def)
qed

end
