(* ===== verification/Header_Chain.thy ===== *)
theory Header_Chain
  imports Block_Header
begin

text \<open>
  \<open>blockheaderchain.go\<close>: the interface \<open>BlockHeaderChain\<close> and its sentinel errors. The
  repository has no implementation of it, so a chain is an argument of the verifiers: the method
  \<open>BlockHeader\<close>, which maps a block hash to a header pointer or an error. The predicates say
  what is asked of a chain and how two chains may compare.
\<close>

type_synonym block_header_chain = "string \<Rightarrow> BlockHeader option res"

definition ErrHeaderNotFound :: go_error where
  "ErrHeaderNotFound = Msg ''header with not found''"

definition ErrNotOnLongestChain :: go_error where
  "ErrNotOnLongestChain = Msg ''header exists but is not on the longest chain''"

lemma chain_errors_distinct: "ErrHeaderNotFound \<noteq> ErrNotOnLongestChain"
  by (simp add: ErrHeaderNotFound_def ErrNotOnLongestChain_def)

text \<open>What the verifiers rely on: the headers a chain returns have 32-byte hashes.\<close>

definition wf_chain :: "block_header_chain \<Rightarrow> bool" where
  "wf_chain bhc \<longleftrightarrow> (\<forall>h hd. bhc h = Ok (Some hd) \<longrightarrow> wf_BlockHeader hd)"

text \<open>Two chains with the same headers, which may fail with different errors; and a chain that
  has every header another one has.\<close>

definition same_headers :: "block_header_chain \<Rightarrow> block_header_chain \<Rightarrow> bool" where
  "same_headers b1 b2 \<longleftrightarrow> (\<forall>h. b1 h = b2 h \<or> (\<exists>e1 e2. b1 h = Err e1 \<and> b2 h = Err e2))"

definition extends_chain :: "block_header_chain \<Rightarrow> block_header_chain \<Rightarrow> bool" where
  "extends_chain b1 b2 \<longleftrightarrow> (\<forall>h hd. b1 h = Ok hd \<longrightarrow> b2 h = Ok hd)"

lemma extends_chain_refl [simp]: "extends_chain b b"
  by (simp add: extends_chain_def)

lemma extends_chain_trans: "extends_chain a b \<Longrightarrow> extends_chain b c \<Longrightarrow> extends_chain a c"
  by (simp add: extends_chain_def)

lemma same_headers_extends: "same_headers a b \<Longrightarrow> extends_chain a b"
  unfolding same_headers_def extends_chain_def by (metis res.distinct(1))

lemma extends_chain_upd: "\<not> is_Ok (b h) \<Longrightarrow> extends_chain b (b(h := r))"
  by (auto simp: extends_chain_def is_Ok_iff)

end
