(* ===== verification/Merkle_Proof.thy ===== *)
theory Merkle_Proof
  imports Merkle_Path Header_Chain Go_Slices
begin

text \<open>
  \<open>merkleproof.go\<close> and \<open>spv/verifymerkleproof.go\<close>: Merkle proofs in the TSC JSON and binary
  forms and their verification, over the block header chain \<open>bhc\<close>.
\<close>

section \<open>merkleproof.go\<close>

record MerkleProof =
  pf_Index :: u64
  pf_TxOrID :: string
  pf_Target :: string
  pf_Nodes :: "string list"
  pf_TargetType :: string
  pf_ProofType :: string
  pf_Composite :: bool

definition node_Bytes :: "string \<Rightarrow> bytes res" where
  "node_Bytes n =
     (if n = ''*'' then Ok [1]
      else bind_res (hex_DecodeString n) (\<lambda>nb. Ok (0 # ReverseBytes nb)))"

definition MerkleProof_flags :: "MerkleProof \<Rightarrow> byte" where
  "MerkleProof_flags mp =
     (if length (pf_TxOrID mp) > 64 then push_bit 0 1 else 0) OR
     (if pf_TargetType mp = ''header'' then push_bit 1 1
      else if pf_TargetType mp = ''merkleRoot'' then push_bit 2 1 else 0)"

text \<open>The node count is a single byte.\<close>

definition MerkleProof_Bytes :: "MerkleProof \<Rightarrow> bytes res" where
  "MerkleProof_Bytes mp =
     bind_res (hex_DecodeString (pf_TxOrID mp)) (\<lambda>txOrID0.
     bind_res (hex_DecodeString (pf_Target mp)) (\<lambda>target0.
     bind_res (map_res node_Bytes (pf_Nodes mp)) (\<lambda>nodes.
       let txOrID = ReverseBytes txOrID0; target = ReverseBytes target0;
           txLength = (if length (pf_TxOrID mp) > 64 then VarInt_Bytes (of_nat (length txOrID))
                       else [])
       in Ok (MerkleProof_flags mp # VarInt_Bytes (pf_Index mp) @ txLength @ txOrID @ target @
              of_nat (length (pf_Nodes mp)) # concat nodes))))"

section \<open>Parsing\<close>

record merkleProofBinary =
  mpb_flags :: byte
  mpb_index :: u64
  mpb_txOrID :: string
  mpb_target :: string
  mpb_nodes :: "string list"

text \<open>A shift count of 64 or more leaves nothing of a \<open>uint64\<close>.\<close>

definition shl64 :: "u64 \<Rightarrow> u64 \<Rightarrow> u64" where
  "shl64 x n = (if 64 \<le> n then 0 else push_bit (unat n) x)"

text \<open>\<open>hex.EncodeToString(bt.ReverseBytes(proof[offset : offset+n]))\<close>\<close>

definition take_rev_hex :: "nat \<Rightarrow> string cursor_reader" where
  "take_rev_hex n c = bind_res (slice_take n c) (\<lambda>(b, r). Ok (hex_EncodeToString (ReverseBytes b), r))"

fun parse_nodes :: "nat \<Rightarrow> nat \<Rightarrow> string list cursor_reader" where
  "parse_nodes 0 i c = Ok ([], c)"
| "parse_nodes (Suc n) i c =
     bind_res (slice_byte c) (\<lambda>(t, r1).
     bind_res (if t = 0 then take_rev_hex 32 r1
               else if t = 1 then Ok (''*'', r1)
               else Err (MsgIndex ''invalid value in node type at index: '' i)) (\<lambda>(node, r2).
     bind_res (parse_nodes n (i + 1) r2) (\<lambda>(nodes, r3). Ok (node # nodes, r3))))"

text \<open>The body of the parser, from \<open>offset = 0\<close> on.\<close>

definition read_proof :: "merkleProofBinary cursor_reader" where
  "read_proof proof =
     bind_res (slice_byte proof) (\<lambda>(flags, r1).
     bind_res (slice_varint r1) (\<lambda>(index, r2).
     bind_res (if flags AND 1 = 1 then
                 bind_res (slice_varint r2) (\<lambda>(txLength, r).
                   if txLength \<le> 32 then
                     Err (Msg ''invalid tx length (should be greater than 32 bytes)'')
                   else Ok (txLength, r))
               else Ok (32, r2)) (\<lambda>(txLength, r3).
     bind_res (take_rev_hex (unat txLength) r3) (\<lambda>(txOrID, r4).
     bind_res (if flags AND 6 = 0 \<or> flags AND 6 = 4 then take_rev_hex 32 r4
               else if flags AND 6 = 2 then take_rev_hex 80 r4
               else Err (SpvErr ErrInvalidMerkleFlags)) (\<lambda>(target, r5).
     bind_res (slice_varint r5) (\<lambda>(nodeCount, r6).
       if index \<ge> shl64 1 nodeCount then Err (SpvErr ErrInvalidProof)
       else bind_res (parse_nodes (int_count nodeCount) 0 r6) (\<lambda>(nodes, r7).
         Ok (\<lparr> mpb_flags = flags, mpb_index = index, mpb_txOrID = txOrID, mpb_target = target,
               mpb_nodes = nodes \<rparr>, r7))))))))"

definition parseBinaryMerkleProof :: "slice \<Rightarrow> merkleProofBinary res" where
  "parseBinaryMerkleProof proof = bind_res (read_proof (cursor_of proof)) (\<lambda>(mpb, _). Ok mpb)"

subsection \<open>The parser on a slice without spare capacity\<close>

definition take_rev_hex_alone :: "nat \<Rightarrow> string reader" where
  "take_rev_hex_alone n bs = bind_res (take_bytes n bs) (\<lambda>(b, r). Ok (hex_EncodeToString (ReverseBytes b), r))"

fun parse_nodes_alone :: "nat \<Rightarrow> nat \<Rightarrow> string list reader" where
  "parse_nodes_alone 0 i bs = Ok ([], bs)"
| "parse_nodes_alone (Suc n) i bs =
     bind_res (next_byte bs) (\<lambda>(t, r1).
     bind_res (if t = 0 then take_rev_hex_alone 32 r1
               else if t = 1 then Ok (''*'', r1)
               else Err (MsgIndex ''invalid value in node type at index: '' i)) (\<lambda>(node, r2).
     bind_res (parse_nodes_alone n (i + 1) r2) (\<lambda>(nodes, r3). Ok (node # nodes, r3))))"

definition read_proof_alone :: "merkleProofBinary reader" where
  "read_proof_alone proof =
     bind_res (next_byte proof) (\<lambda>(flags, r1).
     bind_res (read_varint r1) (\<lambda>(index, r2).
     bind_res (if flags AND 1 = 1 then
                 bind_res (read_varint r2) (\<lambda>(txLength, r).
                   if txLength \<le> 32 then
                     Err (Msg ''invalid tx length (should be greater than 32 bytes)'')
                   else Ok (txLength, r))
               else Ok (32, r2)) (\<lambda>(txLength, r3).
     bind_res (take_rev_hex_alone (unat txLength) r3) (\<lambda>(txOrID, r4).
     bind_res (if flags AND 6 = 0 \<or> flags AND 6 = 4 then take_rev_hex_alone 32 r4
               else if flags AND 6 = 2 then take_rev_hex_alone 80 r4
               else Err (SpvErr ErrInvalidMerkleFlags)) (\<lambda>(target, r5).
     bind_res (read_varint r5) (\<lambda>(nodeCount, r6).
       if index \<ge> shl64 1 nodeCount then Err (SpvErr ErrInvalidProof)
       else bind_res (parse_nodes_alone (int_count nodeCount) 0 r6) (\<lambda>(nodes, r7).
         Ok (\<lparr> mpb_flags = flags, mpb_index = index, mpb_txOrID = txOrID, mpb_target = target,
               mpb_nodes = nodes \<rparr>, r7))))))))"

lemmas slice_reader_intros = slice_reader_bind slice_reader_if slice_reader_return slice_reader_Err

interpretation take_rev_hex: slice_reader "take_rev_hex_alone n" "take_rev_hex n" for n
  unfolding take_rev_hex_alone_def [abs_def] take_rev_hex_def [abs_def]
  by (intro slice_reader_intros slice_take.slice_reader_axioms)

interpretation parse_nodes: slice_reader "parse_nodes_alone n i" "parse_nodes n i" for n i
proof (induction n arbitrary: i)
  case 0
  show ?case unfolding parse_nodes_alone.simps [abs_def] parse_nodes.simps [abs_def]
    by (rule slice_reader_return)
next
  case (Suc n)
  show ?case unfolding parse_nodes_alone.simps [abs_def] parse_nodes.simps [abs_def]
    by (intro slice_reader_intros slice_byte.slice_reader_axioms take_rev_hex.slice_reader_axioms Suc)
qed

interpretation proof_reader: slice_reader read_proof_alone read_proof
  unfolding read_proof_alone_def [abs_def] read_proof_def [abs_def]
  by (intro slice_reader_intros slice_byte.slice_reader_axioms slice_varint.slice_reader_axioms
      take_rev_hex.slice_reader_axioms parse_nodes.slice_reader_axioms)

text \<open>What is parsed without the bytes behind a slice is parsed with them; and what is parsed from
  a slice is what stands at the start of its capacity.\<close>

lemma parseBinaryMerkleProof_inside:
  assumes "read_proof_alone p = Ok (m, r)"
  shows "parseBinaryMerkleProof (p, s) = Ok m"
  using proof_reader.cursor_inside [OF assms] by (simp add: parseBinaryMerkleProof_def)

lemma parseBinaryMerkleProof_whole:
  assumes "parseBinaryMerkleProof p = Ok m"
  shows "\<exists>r. read_proof_alone (fst p @ snd p) = Ok (m, r)"
  using assms proof_reader.cursor_whole [of "fst p" "snd p"]
  by (auto simp: parseBinaryMerkleProof_def go_simps)

lemma parseBinaryMerkleProof_alone:
  "parseBinaryMerkleProof (p, []) = bind_res (read_proof_alone p) (\<lambda>(m, _). Ok m)"
  using proof_reader.parser_alone [of p Ok] by (simp add: parseBinaryMerkleProof_def)

lemma parseBinaryMerkleProof_behind:
  assumes "\<forall>q. parseBinaryMerkleProof (p, []) \<noteq> Panic q"
  shows "parseBinaryMerkleProof (p, s) = parseBinaryMerkleProof (p, [])"
proof -
  have "\<forall>q. read_proof_alone p \<noteq> Panic q" using assms by (auto simp: parseBinaryMerkleProof_alone)
  from proof_reader.parser_inside [OF this, of s Ok] show ?thesis
    by (simp add: parseBinaryMerkleProof_def proof_reader.parser_alone)
qed

section \<open>Verification\<close>

fun verifyProof_loop :: "string \<Rightarrow> u64 \<Rightarrow> bool \<Rightarrow> string list \<Rightarrow> (string \<times> bool) res" where
  "verifyProof_loop c index isLastInTree [] = Ok (c, isLastInTree)"
| "verifyProof_loop c index isLastInTree (p # nodes) =
     (let cIsLeft = (index mod 2 = 0) in
      if p = ''*'' \<and> \<not> cIsLeft then Err (SpvErr ErrInvalidNodes)
      else
        let p' = (if p = ''*'' then c else p);
            isLastInTree' = (if cIsLeft \<and> c \<noteq> p' then False else isLastInTree)
        in bind_res (if cIsLeft then MerkleTreeParentStr c p' else MerkleTreeParentStr p' c)
             (\<lambda>c'. verifyProof_loop c' (index div 2) isLastInTree' nodes))"

definition verifyProof :: "string \<Rightarrow> string \<Rightarrow> u64 \<Rightarrow> string list \<Rightarrow> (bool \<times> bool) res" where
  "verifyProof c merkleRoot index nodes =
     bind_res (verifyProof_loop c index True nodes) (\<lambda>(c', isLastInTree).
       Ok (c' = merkleRoot, isLastInTree))"

definition validateTxOrID :: "byte \<Rightarrow> string \<Rightarrow> unit res" where
  "validateTxOrID flags txOrID =
     (if length txOrID > 64 \<and> flags AND 1 = 0 then Err (Msg ''expecting txid but got tx'')
      else if length txOrID = 64 \<and> flags AND 1 = 1 then Err (Msg ''expecting tx but got txid'')
      else Ok ())"

definition txidFromTxOrID :: "string \<Rightarrow> string res" where
  "txidFromTxOrID txOrID =
     (if length txOrID = 64 then Ok txOrID
      else if length txOrID > 64 then
        bind_res (NewTxFromString txOrID) (\<lambda>tx. Ok (TxID tx))
      else Err (Msg ''invalid txOrId length - must be at least 64 chars (32 bytes)''))"

text \<open>\<open>blockHeader.HashMerkleRootStr()\<close> on the pointer the chain returned.\<close>

definition header_root :: "BlockHeader option \<Rightarrow> string res" where
  "header_root bh = (case bh of None \<Rightarrow> Panic NilDereference | Some h \<Rightarrow> Ok (HashMerkleRootStr h))"

record MerkleProofValidation =
  mv_TxID :: string
  mv_Valid :: bool
  mv_IsLastInTree :: bool

definition invalid_response :: "string \<Rightarrow> MerkleProofValidation" where
  "invalid_response txid = \<lparr> mv_TxID = txid, mv_Valid = False, mv_IsLastInTree = False \<rparr>"

text \<open>The result is the pair of the Go function: a response pointer and an error.\<close>

definition VerifyMerkleProof ::
  "block_header_chain \<Rightarrow> slice \<Rightarrow> (MerkleProofValidation option \<times> go_error option) res" where
  "VerifyMerkleProof bhc proof =
     on_err (parseBinaryMerkleProof proof) (\<lambda>e. Ok (None, Some e)) (\<lambda>mpb.
     on_err (validateTxOrID (mpb_flags mpb) (mpb_txOrID mpb)) (\<lambda>e. Ok (None, Some e)) (\<lambda>_.
     on_err (txidFromTxOrID (mpb_txOrID mpb)) (\<lambda>e. Ok (None, Some e)) (\<lambda>txid.
     let response = invalid_response txid in
     on_err (if mpb_flags mpb AND 6 = 0 then bind_res (bhc (mpb_target mpb)) header_root
             else if mpb_flags mpb AND 6 = 4 then Ok (mpb_target mpb)
             else if mpb_flags mpb AND 6 = 2 then ExtractMerkleRootFromBlockHeader (mpb_target mpb)
             else Err (SpvErr ErrInvalidMerkleFlags)) (\<lambda>e. Ok (Some response, Some e)) (\<lambda>merkleRoot.
       if mpb_flags mpb AND 8 = 1 then Ok (Some response, Some (SpvErr ErrInvalidMerkleFlags))
       else if mpb_flags mpb AND 16 = 1 then Ok (Some response, Some (SpvErr ErrInvalidMerkleFlags))
       else if txid = '''' then Ok (Some response, Some (SpvErr ErrMissingTxidInProof))
       else if merkleRoot = '''' then Ok (Some response, Some (SpvErr ErrMissingRootInProof))
       else
         on_err (verifyProof txid merkleRoot (mpb_index mpb) (mpb_nodes mpb))
           (\<lambda>e. Ok (Some response, Some e))
           (\<lambda>(valid, isLastInTree).
              Ok (Some \<lparr> mv_TxID = txid, mv_Valid = valid, mv_IsLastInTree = isLastInTree \<rparr>,
                  None))))))"

text \<open>Every error return of the JSON verifier comes with \<open>false, false\<close>.\<close>

definition VerifyMerkleProofJSON :: "block_header_chain \<Rightarrow> MerkleProof \<Rightarrow> (bool \<times> bool) res" where
  "VerifyMerkleProofJSON bhc proof =
     bind_res (txidFromTxOrID (pf_TxOrID proof)) (\<lambda>txid.
     bind_res
       (if pf_TargetType proof = '''' \<or> pf_TargetType proof = ''hash'' then
          if length (pf_Target proof) \<noteq> 64 then Err (Msg ''invalid target field'')
          else bind_res (bhc (pf_Target proof)) header_root
        else if pf_TargetType proof = ''header'' \<and> length (pf_Target proof) = 160 then
          ExtractMerkleRootFromBlockHeader (pf_Target proof)
        else if pf_TargetType proof = ''merkleRoot'' \<and> length (pf_Target proof) = 64 then
          Ok (pf_Target proof)
        else Err (Msg ''invalid TargetType or target field'')) (\<lambda>merkleRoot.
       if pf_ProofType proof \<noteq> '''' \<and> pf_ProofType proof \<noteq> ''branch'' then
         Err (Msg ''only merkle branch supported in this version'')
       else if pf_Composite proof then Err (Msg ''only single proof supported in this version'')
       else if txid = '''' then Err (Msg ''txid missing'')
       else if merkleRoot = '''' then Err (Msg ''merkleRoot missing'')
       else verifyProof txid merkleRoot (pf_Index proof) (pf_Nodes proof)))"

section \<open>What the loop computes\<close>

text \<open>The nodes of a proof with each \<open>*\<close> replaced by the node it stands beside.\<close>

fun resolve_nodes :: "string \<Rightarrow> nat \<Rightarrow> string list \<Rightarrow> string list" where
  "resolve_nodes c i [] = []"
| "resolve_nodes c i (p # ps) =
     (let q = (if p = ''*'' then c else p)
      in q # resolve_nodes (if even i then str_parent c q else str_parent q c) (i div 2) ps)"

text \<open>A \<open>*\<close> may only stand to the right of its node.\<close>

fun star_ok :: "nat \<Rightarrow> string list \<Rightarrow> bool" where
  "star_ok i [] = True"
| "star_ok i (p # ps) = ((p = ''*'' \<longrightarrow> even i) \<and> star_ok (i div 2) ps)"

text \<open>Wherever the path goes up from a left child, the sibling is the child itself.\<close>

fun right_spine :: "('h \<Rightarrow> 'h \<Rightarrow> 'h) \<Rightarrow> 'h \<Rightarrow> nat \<Rightarrow> 'h list \<Rightarrow> bool" where
  "right_spine comb c i [] = True"
| "right_spine comb c i (q # ps) =
     ((even i \<longrightarrow> c = q) \<and>
      right_spine comb (if even i then comb c q else comb q c) (i div 2) ps)"

definition proof_node :: "string \<Rightarrow> bool" where
  "proof_node n \<longleftrightarrow> n = ''*'' \<or> hash_str n"

lemma list_all_resolve_nodes:
  "hash_str c \<Longrightarrow> list_all proof_node nodes \<Longrightarrow> list_all hash_str (resolve_nodes c i nodes)"
  by (induction c i nodes rule: resolve_nodes.induct) (auto simp: Let_def proof_node_def)

lemma length_resolve_nodes [simp]: "length (resolve_nodes c i nodes) = length nodes"
  by (induction c i nodes rule: resolve_nodes.induct) (auto simp: Let_def)

lemma u64_parity: "i mod 2 = (0 :: u64) \<longleftrightarrow> even (unat i)" "unat (i div 2) = unat i div 2"
  using odd_unat [of i] by (simp_all only: unat_div flip: even_iff_mod_2_eq_zero) simp_all

lemma verifyProof_loop_fold:
  assumes "hash_str c" "list_all proof_node nodes"
  shows "verifyProof_loop c index isLast nodes =
    (if star_ok (unat index) nodes then
       Ok (fold_path str_parent c (unat index) (resolve_nodes c (unat index) nodes),
           isLast \<and> right_spine str_parent c (unat index) (resolve_nodes c (unat index) nodes))
     else Err (SpvErr ErrInvalidNodes))"
  using assms
proof (induction c index isLast nodes rule: verifyProof_loop.induct)
  case (2 c index isLast p nodes)
  let ?q = "if p = ''*'' then c else p"
  let ?c = "if even (unat index) then str_parent c ?q else str_parent ?q c"
  have "valid_hex c" "valid_hex ?q"
    using "2.prems" by (auto simp: proof_node_def hash_str_def canonical_hex_valid)
  then have parent: "(if even (unat index) then MerkleTreeParentStr c ?q else MerkleTreeParentStr ?q c) = Ok ?c"
    by (simp add: MerkleTreeParentStr_valid)
  show ?case
  proof (cases "p = ''*'' \<and> odd (unat index)")
    case True
    then show ?thesis by (auto simp: Let_def u64_parity)
  next
    case False
    let ?last = "if even (unat index) \<and> c \<noteq> ?q then False else isLast"
    have "verifyProof_loop c index isLast (p # nodes) = verifyProof_loop ?c (index div 2) ?last nodes"
      by (simp only: verifyProof_loop.simps Let_def u64_parity False if_False parent bind_res.simps)
    also have "\<dots> = (if star_ok (unat index div 2) nodes then
       Ok (fold_path str_parent ?c (unat index div 2) (resolve_nodes ?c (unat index div 2) nodes),
           ?last \<and> right_spine str_parent ?c (unat index div 2) (resolve_nodes ?c (unat index div 2) nodes))
     else Err (SpvErr ErrInvalidNodes))"
      unfolding u64_parity(2) [symmetric]
    proof (rule "2.IH" [OF refl _ refl])
      show "\<not> (p = ''*'' \<and> index mod 2 \<noteq> 0)" using False unfolding u64_parity .
      show "?last = (if index mod 2 = 0 \<and> c \<noteq> ?q then False else isLast)"
        unfolding u64_parity ..
      show "(if index mod 2 = 0 then MerkleTreeParentStr c ?q else MerkleTreeParentStr ?q c) = Ok ?c"
        unfolding u64_parity by (rule parent)
    qed (use "2.prems" in auto)
    finally show ?thesis using False by (auto simp: Let_def)
  qed
qed simp

section \<open>Honest proofs\<close>

text \<open>The nodes of the proof of leaf \<open>i\<close>, in the TSC form: a \<open>*\<close> for the missing right
  sibling at the end of an odd level.\<close>

function tsc_nodes :: "string list \<Rightarrow> nat \<Rightarrow> string list" where
  "tsc_nodes xs i =
     (if length xs \<le> 1 then []
      else (if even i \<and> i + 1 = length xs then ''*'' else sibling xs i) #
           tsc_nodes (merkle_level str_parent xs) (i div 2))"
  by pat_completeness auto
termination
  by (relation "measure (\<lambda>(xs, i). length xs)") auto

declare tsc_nodes.simps [simp del]

text \<open>Some level has a left node equal to its right sibling.\<close>

function has_twins :: "('h \<Rightarrow> 'h \<Rightarrow> 'h) \<Rightarrow> 'h list \<Rightarrow> bool" where
  "has_twins comb xs =
     (if length xs \<le> 1 then False
      else (\<exists>j < length xs div 2. xs ! (2 * j) = xs ! (2 * j + 1)) \<or>
           has_twins comb (merkle_level comb xs))"
  by pat_completeness auto
termination
  by (relation "measure (\<lambda>(comb, xs). length xs)") auto

declare has_twins.simps [simp del]

lemma hash_str_not_star: "hash_str s \<Longrightarrow> s \<noteq> ''*''"
  by (auto simp: hash_str_def)

lemma tsc_nodes_path:
  assumes "list_all hash_str xs" "i < length xs"
  shows "resolve_nodes (xs ! i) i (tsc_nodes xs i) = merkle_path str_parent xs i"
    and "star_ok i (tsc_nodes xs i)" and "list_all proof_node (tsc_nodes xs i)"
proof -
  have "resolve_nodes (xs ! i) i (tsc_nodes xs i) = merkle_path str_parent xs i \<and>
    star_ok i (tsc_nodes xs i) \<and> list_all proof_node (tsc_nodes xs i)"
    using assms
  proof (induction xs i rule: tsc_nodes.induct)
    case (1 xs i)
    show ?case
    proof (cases "length xs \<le> 1")
      case True
      then show ?thesis by (simp add: tsc_nodes.simps merkle_path_short)
    next
      case False
      let ?l = "merkle_level str_parent xs"
      let ?p = "if even i \<and> i + 1 = length xs then ''*'' else sibling xs i"
      have sib: "hash_str (sibling xs i)" by (rule str_hash.wf_sibling [OF "1.prems"])
      have q: "(if ?p = ''*'' then xs ! i else ?p) = sibling xs i"
      proof (cases "even i \<and> i + 1 = length xs")
        case True
        then have "sibling xs i = xs ! i" by (simp add: sibling_def)
        with True show ?thesis by simp
      next
        case False
        with hash_str_not_star [OF sib] show ?thesis by (simp only: if_False)
      qed
      have "i div 2 < length ?l" using False "1.prems" by simp
      with False "1.prems" have IH: "resolve_nodes (?l ! (i div 2)) (i div 2) (tsc_nodes ?l (i div 2)) =
          merkle_path str_parent ?l (i div 2)" "star_ok (i div 2) (tsc_nodes ?l (i div 2))"
          "list_all proof_node (tsc_nodes ?l (i div 2))"
        using "1.IH" str_hash.wf_level by auto
      have eq: "tsc_nodes xs i = ?p # tsc_nodes ?l (i div 2)"
        using False by (subst tsc_nodes.simps) simp
      have "star_ok i (?p # tsc_nodes ?l (i div 2))"
        using IH(2) hash_str_not_star [OF sib] by auto
      moreover have "proof_node ?p" using sib by (simp add: proof_node_def)
      moreover have "resolve_nodes (xs ! i) i (?p # tsc_nodes ?l (i div 2)) =
          merkle_path str_parent xs i"
        using IH(1) False nth_merkle_level [OF "1.prems"(2), of str_parent]
        unfolding resolve_nodes.simps Let_def q by (simp add: merkle_path_step)
      ultimately show ?thesis unfolding eq using IH(3) by (intro conjI) (simp_all only: list.pred_inject)
    qed
  qed
  then show "resolve_nodes (xs ! i) i (tsc_nodes xs i) = merkle_path str_parent xs i"
    and "star_ok i (tsc_nodes xs i)" and "list_all proof_node (tsc_nodes xs i)" by auto
qed

lemma right_spine_iff:
  assumes "i < length xs"
  shows "(i + 1 = length xs \<longrightarrow> right_spine comb (xs ! i) i (merkle_path comb xs i)) \<and>
    (\<not> has_twins comb xs \<longrightarrow> right_spine comb (xs ! i) i (merkle_path comb xs i) \<longrightarrow> i + 1 = length xs)"
  using assms
proof (induction comb xs arbitrary: i rule: has_twins.induct)
  case (1 comb xs)
  show ?case
  proof (cases "length xs \<le> 1")
    case True
    with "1.prems" show ?thesis by (simp add: merkle_path_short)
  next
    case False
    let ?l = "merkle_level comb xs"
    have div: "i div 2 < length ?l" using False "1.prems" by simp
    have IH: "(i div 2 + 1 = length ?l \<longrightarrow> right_spine comb (?l ! (i div 2)) (i div 2) (merkle_path comb ?l (i div 2)))"
      "\<not> has_twins comb ?l \<Longrightarrow> right_spine comb (?l ! (i div 2)) (i div 2) (merkle_path comb ?l (i div 2)) \<Longrightarrow>
        i div 2 + 1 = length ?l"
      using "1.IH" [OF False div] by simp_all
    have rs: "right_spine comb (xs ! i) i (merkle_path comb xs i) \<longleftrightarrow>
        (even i \<longrightarrow> xs ! i = sibling xs i) \<and>
        right_spine comb (?l ! (i div 2)) (i div 2) (merkle_path comb ?l (i div 2))"
      using False nth_merkle_level [OF "1.prems", of comb] by (simp add: merkle_path_step)
    have tw: "has_twins comb xs \<longleftrightarrow>
        (\<exists>j < length xs div 2. xs ! (2 * j) = xs ! (2 * j + 1)) \<or> has_twins comb ?l"
      using False by (subst has_twins.simps) simp
    show ?thesis
    proof (intro conjI impI)
      assume "i + 1 = length xs"
      moreover from this have "i div 2 + 1 = length ?l" by simp
      ultimately show "right_spine comb (xs ! i) i (merkle_path comb xs i)"
        using IH(1) unfolding rs by (simp add: sibling_def)
    next
      assume nt: "\<not> has_twins comb xs" and "right_spine comb (xs ! i) i (merkle_path comb xs i)"
      then have l: "i div 2 + 1 = (length xs + 1) div 2" and s: "even i \<longrightarrow> xs ! i = sibling xs i"
        using IH(2) unfolding rs tw by auto
      show "i + 1 = length xs"
      proof (cases "even i")
        case True
        have "\<not> i + 1 < length xs"
        proof
          assume lt: "i + 1 < length xs"
          with True have "i div 2 < length xs div 2" "2 * (i div 2) = i" by presburger+
          moreover have "xs ! i = xs ! (i + 1)" using s True lt by (simp add: sibling_def)
          ultimately have "\<exists>j < length xs div 2. xs ! (2 * j) = xs ! (2 * j + 1)"
            by (intro exI [of _ "i div 2"]) simp
          with nt show False unfolding tw by blast
        qed
        with "1.prems" show ?thesis by simp
      next
        case False
        with l "1.prems" show ?thesis by presburger
      qed
    qed
  qed
qed

lemma verifyProof_fold:
  assumes "hash_str c" "list_all proof_node nodes" "star_ok (unat index) nodes"
  shows "verifyProof c root index nodes =
    Ok (fold_path str_parent c (unat index) (resolve_nodes c (unat index) nodes) = root,
        right_spine str_parent c (unat index) (resolve_nodes c (unat index) nodes))"
  using verifyProof_loop_fold [OF assms(1,2), of index True] assms(3) by (simp add: verifyProof_def)

lemma verifyProof_honest:
  assumes "list_all hash_str txids" "i < length txids" "length txids < 2 ^ 64"
  shows "verifyProof (txids ! i) (merkle_root str_parent txids) (of_nat i) (tsc_nodes txids i) =
    Ok (True, right_spine str_parent (txids ! i) i (merkle_path str_parent txids i))"
proof -
  have idx: "unat (of_nat i :: u64) = i" using assms(2,3) by (intro unat_of_nat_u64) simp
  have "hash_str (txids ! i)" using assms(1,2) by (simp add: list_all_length)
  with verifyProof_fold [of "txids ! i" "tsc_nodes txids i" "of_nat i"] tsc_nodes_path [OF assms(1,2)]
  show ?thesis by (simp add: idx fold_merkle_path [OF assms(2)])
qed

text \<open>An accepted proof has its stars in place and folds to the root.\<close>

lemma verifyProof_acceptedD:
  assumes "hash_str c" "list_all proof_node nodes" "verifyProof c root index nodes = Ok (True, l)"
  shows "fold_path str_parent c (unat index) (resolve_nodes c (unat index) nodes) = root"
proof -
  have "star_ok (unat index) nodes"
    using verifyProof_loop_fold [OF assms(1,2), of index True] assms(3)
    by (simp add: verifyProof_def split: if_splits)
  with verifyProof_fold [OF assms(1,2)] assms(3) show ?thesis by simp
qed

section \<open>Binary round trip\<close>

text \<open>
  The proofs the binary form carries faithfully: an id of 32 bytes or a longer transaction,
  a target of the length its type asks for, at most 63 nodes (the index must be below
  \<open>1<<nodeCount\<close>), all in lower-case hex.
\<close>

definition wf_MerkleProof :: "MerkleProof \<Rightarrow> bool" where
  "wf_MerkleProof mp \<longleftrightarrow>
     canonical_hex (pf_TxOrID mp) \<and> 64 \<le> length (pf_TxOrID mp) \<and> length (pf_TxOrID mp) < 2 ^ 63 \<and>
     canonical_hex (pf_Target mp) \<and>
     length (pf_Target mp) = (if pf_TargetType mp = ''header'' then 160 else 64) \<and>
     list_all proof_node (pf_Nodes mp) \<and> length (pf_Nodes mp) < 64 \<and>
     unat (pf_Index mp) < 2 ^ length (pf_Nodes mp)"

text \<open>The same without a bound on the index: what can be written, though not always read.\<close>

definition writable_proof :: "MerkleProof \<Rightarrow> bool" where
  "writable_proof mp \<longleftrightarrow>
     canonical_hex (pf_TxOrID mp) \<and> 64 \<le> length (pf_TxOrID mp) \<and> length (pf_TxOrID mp) < 2 ^ 63 \<and>
     canonical_hex (pf_Target mp) \<and>
     length (pf_Target mp) = (if pf_TargetType mp = ''header'' then 160 else 64) \<and>
     list_all proof_node (pf_Nodes mp) \<and> length (pf_Nodes mp) < 64"

lemma wf_MerkleProof_iff:
  "wf_MerkleProof mp \<longleftrightarrow> writable_proof mp \<and> unat (pf_Index mp) < 2 ^ length (pf_Nodes mp)"
  by (auto simp: wf_MerkleProof_def writable_proof_def)

lemma take_rev_hex_rev:
  assumes "canonical_hex h" "length h = 2 * n"
  shows "take_rev_hex n (cursor_of (rev (fst (hexDecode h)) @ p, s)) = Ok (h, cursor_of (p, s))"
proof -
  have "length (fst (hexDecode h)) = n"
    using assms length_hexDecode_valid [OF canonical_hex_valid [OF assms(1)]] by simp
  with assms(1) show ?thesis by (simp add: take_rev_hex_def canonical_hex_def)
qed

definition raw_node :: "string \<Rightarrow> bytes" where
  "raw_node n = (if n = ''*'' then [1] else 0 # rev (fst (hexDecode n)))"

lemma map_node_Bytes: "list_all proof_node nodes \<Longrightarrow> map_res node_Bytes nodes = Ok (map raw_node nodes)"
  by (rule map_res_Ok) (auto simp: list_all_iff proof_node_def node_Bytes_def raw_node_def
      hash_str_def canonical_hex_valid hex_DecodeString_valid)

lemma parse_nodes_raw:
  "list_all proof_node nodes \<Longrightarrow>
     parse_nodes (length nodes + k) i (cursor_of (concat (map raw_node nodes) @ p, s)) =
       bind_res (parse_nodes k (i + length nodes) (cursor_of (p, s))) (\<lambda>(ns, c). Ok (nodes @ ns, c))"
proof (induction nodes arbitrary: i)
  case Nil
  then show ?case by (cases "parse_nodes k i (cursor_of (p, s))") auto
next
  case (Cons n nodes)
  have "parse_nodes (Suc (length nodes + k)) i (cursor_of (raw_node n @ q, s)) =
      bind_res (parse_nodes (length nodes + k) (Suc i) (cursor_of (q, s))) (\<lambda>(ns, c). Ok (n # ns, c))" for q
    using Cons.prems
    by (cases "n = ''*''") (auto simp: raw_node_def proof_node_def hash_str_def take_rev_hex_rev)
  with Cons show ?case by (simp add: bind_res_assoc split_def)
qed

lemma small_count:
  assumes "n < 64"
  shows "of_nat n # rest = VarInt_Bytes (of_nat n) @ rest" "shl64 1 (of_nat n) = 2 ^ n"
    "unat (2 ^ n :: u64) = 2 ^ n" "int_count (of_nat n) = n"
proof -
  have n: "unat (of_nat n :: u64) = n" using assms by (intro unat_of_nat_u64) simp
  then have "(of_nat n :: u64) < 253" using assms by (simp add: word_less_nat_alt)
  moreover have "ucast (of_nat n :: u64) = (of_nat n :: byte)"
    using n by (metis of_nat_unat)
  ultimately show "of_nat n # rest = VarInt_Bytes (of_nat n) @ rest" by (simp add: VarInt_Bytes_def)
  have "\<not> 64 \<le> (of_nat n :: u64)" using n assms by (simp add: word_le_nat_alt)
  with n show "shl64 1 (of_nat n) = 2 ^ n" by (simp add: shl64_def push_bit_eq_mult)
  show "unat (2 ^ n :: u64) = 2 ^ n"
    using unat_of_nat_u64 [OF power_strict_increasing [OF assms, of 2]] by simp
  show "int_count (of_nat n) = n" using assms by (intro int_count_of_nat) simp
qed

lemma MerkleProof_flags_bits:
  "MerkleProof_flags mp AND 1 = (if 64 < length (pf_TxOrID mp) then 1 else 0)"
  "MerkleProof_flags mp AND 6 = (if pf_TargetType mp = ''header'' then 2
     else if pf_TargetType mp = ''merkleRoot'' then 4 else 0)"
  "MerkleProof_flags mp AND 8 = 0" "MerkleProof_flags mp AND 16 = 0"
  by (simp_all add: MerkleProof_flags_def)

text \<open>What is written before the nodes.\<close>

definition proof_head :: "MerkleProof \<Rightarrow> bytes" where
  "proof_head mp =
     (let tx = rev (fst (hexDecode (pf_TxOrID mp))) in
      MerkleProof_flags mp # VarInt_Bytes (pf_Index mp) @
      (if 64 < length (pf_TxOrID mp) then VarInt_Bytes (of_nat (length tx)) else []) @ tx @
      rev (fst (hexDecode (pf_Target mp))) @ [of_nat (length (pf_Nodes mp))])"

lemma MerkleProof_Bytes_head:
  "writable_proof mp \<Longrightarrow> MerkleProof_Bytes mp = Ok (proof_head mp @ concat (map raw_node (pf_Nodes mp)))"
  by (simp add: writable_proof_def MerkleProof_Bytes_def proof_head_def hex_DecodeString_valid
      canonical_hex_valid map_node_Bytes Let_def)

lemma read_writable_head:
  assumes "writable_proof mp"
  shows "read_proof (cursor_of (proof_head mp @ p, s)) =
    (if 2 ^ length (pf_Nodes mp) \<le> unat (pf_Index mp) then Err (SpvErr ErrInvalidProof)
     else bind_res (parse_nodes (length (pf_Nodes mp)) 0 (cursor_of (p, s))) (\<lambda>(nodes, c).
       Ok (\<lparr> mpb_flags = MerkleProof_flags mp, mpb_index = pf_Index mp, mpb_txOrID = pf_TxOrID mp,
             mpb_target = pf_Target mp, mpb_nodes = nodes \<rparr>, c)))"
proof -
  let ?tx = "rev (fst (hexDecode (pf_TxOrID mp)))"
  let ?target = "rev (fst (hexDecode (pf_Target mp)))"
  let ?n = "length (pf_Nodes mp)"
  let ?len = "of_nat (length ?tx) :: u64"
  let ?long = "64 < length (pf_TxOrID mp)"
  let ?rest = "?target @ VarInt_Bytes (of_nat ?n) @ p"
  note wf = assms [unfolded writable_proof_def]
  from wf have tx: "length (pf_TxOrID mp) = 2 * length ?tx"
    using length_hexDecode_valid [of "pf_TxOrID mp"] by (simp add: canonical_hex_valid)
  have len: "unat ?len = length ?tx" using wf tx by (intro unat_of_nat_u64) simp
  have b: "proof_head mp @ p = MerkleProof_flags mp # VarInt_Bytes (pf_Index mp) @
      (if ?long then VarInt_Bytes ?len else []) @ ?tx @ ?rest"
    using wf small_count(1) [of ?n] by (simp add: proof_head_def Let_def)
  have t: "take_rev_hex (length ?tx) (cursor_of (?tx @ ?rest, s)) = Ok (pf_TxOrID mp, cursor_of (?rest, s))"
    using wf tx by (intro take_rev_hex_rev) simp_all
  have idx: "pf_Index mp \<ge> shl64 1 (of_nat ?n) \<longleftrightarrow> 2 ^ ?n \<le> unat (pf_Index mp)"
    using wf small_count(2,3) [of ?n] by (simp add: word_le_nat_alt)
  have "take_rev_hex (if pf_TargetType mp = ''header'' then 80 else 32) (cursor_of (?rest, s)) =
      Ok (pf_Target mp, cursor_of (VarInt_Bytes (of_nat ?n) @ p, s))"
    using wf by (intro take_rev_hex_rev) simp_all
  moreover have "?long \<Longrightarrow> \<not> ?len \<le> 32" using tx len by (simp add: word_le_nat_alt not_le)
  moreover have "\<not> ?long \<Longrightarrow> length ?tx = 32" using tx wf by simp
  ultimately show ?thesis
    unfolding b using wf t idx len small_count(4) [of ?n]
    by (auto simp: read_proof_def MerkleProof_flags_bits simp del: length_rev split: if_splits)
qed

lemma read_proof_head:
  assumes "wf_MerkleProof mp"
  shows "read_proof (cursor_of (proof_head mp @ p, s)) =
    bind_res (parse_nodes (length (pf_Nodes mp)) 0 (cursor_of (p, s))) (\<lambda>(nodes, c).
      Ok (\<lparr> mpb_flags = MerkleProof_flags mp, mpb_index = pf_Index mp, mpb_txOrID = pf_TxOrID mp,
            mpb_target = pf_Target mp, mpb_nodes = nodes \<rparr>, c))"
  using assms by (simp add: wf_MerkleProof_iff read_writable_head)

lemma parse_MerkleProof_Bytes:
  assumes "wf_MerkleProof mp"
  shows "\<exists>b. MerkleProof_Bytes mp = Ok b \<and>
    parseBinaryMerkleProof (b @ r, s) =
    Ok \<lparr> mpb_flags = MerkleProof_flags mp, mpb_index = pf_Index mp, mpb_txOrID = pf_TxOrID mp,
         mpb_target = pf_Target mp, mpb_nodes = pf_Nodes mp \<rparr>"
  using assms parse_nodes_raw [of "pf_Nodes mp" 0 0 r s]
  by (simp add: MerkleProof_Bytes_head parseBinaryMerkleProof_def read_proof_head wf_MerkleProof_iff
      writable_proof_def)

lemma parse_index_too_large:
  assumes "writable_proof mp" "2 ^ length (pf_Nodes mp) \<le> unat (pf_Index mp)" "MerkleProof_Bytes mp = Ok b"
  shows "parseBinaryMerkleProof (b @ r, s) = Err (SpvErr ErrInvalidProof)"
proof -
  have "b = proof_head mp @ concat (map raw_node (pf_Nodes mp))"
    using assms(1,3) by (simp add: MerkleProof_Bytes_head)
  then show ?thesis using assms(1,2) by (simp add: read_writable_head parseBinaryMerkleProof_def)
qed

text \<open>A slice that ends within the last hash: with the missing bytes behind it, the parser reads
  them; with nothing behind it, it panics.\<close>

lemma parse_cut_hash:
  assumes wf: "wf_MerkleProof mp" and last: "pf_Nodes mp \<noteq> []" "last (pf_Nodes mp) \<noteq> ''*''"
    and j: "0 < j" "j \<le> 32" and b: "MerkleProof_Bytes mp = Ok b"
  shows "parseBinaryMerkleProof (take (length b - j) b, drop (length b - j) b @ r) =
      parseBinaryMerkleProof (b, [])" (is ?reads)
    and "parseBinaryMerkleProof (take (length b - j) b, []) = Panic SliceOutOfRange" (is ?panics)
proof -
  obtain ns h where nodes: "pf_Nodes mp = ns @ [h]" using last(1) by (cases "pf_Nodes mp" rule: rev_cases) auto
  let ?h = "rev (fst (hexDecode h))"
  let ?cut = "take (32 - j) ?h" and ?off = "drop (32 - j) ?h"
  have h: "h \<noteq> ''*''" "hash_str h" "list_all proof_node ns"
    using wf last by (auto simp: nodes wf_MerkleProof_def proof_node_def)
  then have len: "length ?h = 32"
    using length_hexDecode_valid [of h] by (simp add: hash_str_def canonical_hex_valid)
  have eq: "b = (proof_head mp @ concat (map raw_node ns) @ [0]) @ ?h"
    using b MerkleProof_Bytes_head [of mp] wf h(1) by (simp add: wf_MerkleProof_iff nodes raw_node_def)
  moreover have "33 - j = Suc (32 - j)" using j by simp
  ultimately have parts: "take (length b - j) b = proof_head mp @ concat (map raw_node ns) @ 0 # ?cut"
    "drop (length b - j) b = ?off"
    using len j by simp_all
  have node: "take_rev_hex 32 (cursor_of (?cut, ?off @ r)) = Ok (h, - int j, r)"
  proof -
    have "length ?cut = 32 - j" using len by simp
    moreover have "take 32 (?cut @ ?off @ r) = ?h" "drop 32 (?cut @ ?off @ r) = r"
      using len by (simp_all only: append_assoc [symmetric] append_take_drop_id) simp_all
    ultimately show ?thesis
      using j h(2) len by (simp add: take_rev_hex_def slice_take_def take_bytes_def cursor_of_def
          hash_str_def canonical_hex_def)
  qed
  have cut: "parseBinaryMerkleProof (proof_head mp @ concat (map raw_node ns) @ 0 # ?cut, s) =
      bind_res (take_rev_hex 32 (cursor_of (?cut, s))) (\<lambda>(n, _).
        Ok \<lparr> mpb_flags = MerkleProof_flags mp, mpb_index = pf_Index mp, mpb_txOrID = pf_TxOrID mp,
             mpb_target = pf_Target mp, mpb_nodes = ns @ [n] \<rparr>)" for s
    using parse_nodes_raw [OF h(3), of 1 0 "0 # ?cut" s]
    by (simp add: parseBinaryMerkleProof_def read_proof_head [OF wf] nodes bind_res_assoc split_def)
  obtain b' where "MerkleProof_Bytes mp = Ok b'" "parseBinaryMerkleProof (b' @ [], []) =
    Ok \<lparr> mpb_flags = MerkleProof_flags mp, mpb_index = pf_Index mp, mpb_txOrID = pf_TxOrID mp,
         mpb_target = pf_Target mp, mpb_nodes = pf_Nodes mp \<rparr>"
    using parse_MerkleProof_Bytes [OF wf] by blast
  with b show ?reads unfolding parts cut node by (simp add: nodes)
  have "take_rev_hex 32 (cursor_of (?cut, [])) = Panic SliceOutOfRange"
    using len j by (simp add: take_rev_hex_def slice_take_def take_bytes_def cursor_of_def)
  then show ?panics unfolding parts cut by simp
qed

section \<open>The two verifiers\<close>

definition proof_root :: "block_header_chain \<Rightarrow> MerkleProof \<Rightarrow> string res" where
  "proof_root bhc mp =
     (if pf_TargetType mp = ''header'' then ExtractMerkleRootFromBlockHeader (pf_Target mp)
      else if pf_TargetType mp = ''merkleRoot'' then Ok (pf_Target mp)
      else bind_res (bhc (pf_Target mp)) header_root)"

definition branch_proof :: "MerkleProof \<Rightarrow> bool" where
  "branch_proof mp \<longleftrightarrow>
     pf_TargetType mp \<in> {'''', ''hash'', ''header'', ''merkleRoot''} \<and>
     pf_ProofType mp \<in> {'''', ''branch''} \<and> \<not> pf_Composite mp"

lemma length_proof_root:
  assumes "wf_chain bhc" "wf_MerkleProof mp" "proof_root bhc mp = Ok root"
  shows "length root = 64"
proof -
  have "length (hex_EncodeToString (bh_HashMerkleRoot hd)) = 64" if "wf_BlockHeader hd" for hd
    using that by (simp add: wf_BlockHeader_def)
  with assms show ?thesis
    by (auto simp: proof_root_def wf_MerkleProof_def ExtractMerkleRootFromBlockHeader_def
        NewBlockHeaderFromStr_def go_simps header_root_def wf_chain_def HashMerkleRootStr_def
        dest!: NewBlockHeaderFromBytes_OkD split: if_splits option.splits)
qed

lemma txidFromTxOrID_length: "txidFromTxOrID t = Ok txid \<Longrightarrow> length txid = 64"
  by (auto simp: txidFromTxOrID_def go_simps split: if_splits)

lemma VerifyMerkleProofJSON_branch:
  assumes "wf_chain bhc" "wf_MerkleProof mp" "branch_proof mp"
  shows "VerifyMerkleProofJSON bhc mp =
    bind_res (txidFromTxOrID (pf_TxOrID mp)) (\<lambda>txid. bind_res (proof_root bhc mp) (\<lambda>root.
      verifyProof txid root (pf_Index mp) (pf_Nodes mp)))"
proof -
  have "(if pf_TargetType mp = '''' \<or> pf_TargetType mp = ''hash'' then
          if length (pf_Target mp) \<noteq> 64 then Err (Msg ''invalid target field'')
          else bind_res (bhc (pf_Target mp)) header_root
        else if pf_TargetType mp = ''header'' \<and> length (pf_Target mp) = 160 then
          ExtractMerkleRootFromBlockHeader (pf_Target mp)
        else if pf_TargetType mp = ''merkleRoot'' \<and> length (pf_Target mp) = 64 then
          Ok (pf_Target mp)
        else Err (Msg ''invalid TargetType or target field'')) = proof_root bhc mp"
    using assms(2,3) by (auto simp: proof_root_def branch_proof_def wf_MerkleProof_def)
  then show ?thesis
    unfolding VerifyMerkleProofJSON_def using assms(3)
    by (intro bind_res_cong refl)
      (auto simp: branch_proof_def dest: txidFromTxOrID_length length_proof_root [OF assms(1,2)]
        intro!: bind_res_cong)
qed

lemma VerifyMerkleProof_Bytes:
  assumes "wf_chain bhc" "wf_MerkleProof mp" "MerkleProof_Bytes mp = Ok b"
  shows "VerifyMerkleProof bhc (b @ r, s) =
    on_err (txidFromTxOrID (pf_TxOrID mp)) (\<lambda>e. Ok (None, Some e)) (\<lambda>txid.
    on_err (bind_res (proof_root bhc mp) (\<lambda>root. verifyProof txid root (pf_Index mp) (pf_Nodes mp)))
      (\<lambda>e. Ok (Some (invalid_response txid), Some e))
      (\<lambda>(valid, isLast).
        Ok (Some \<lparr> mv_TxID = txid, mv_Valid = valid, mv_IsLastInTree = isLast \<rparr>, None)))"
proof -
  let ?m = "\<lparr> mpb_flags = MerkleProof_flags mp, mpb_index = pf_Index mp, mpb_txOrID = pf_TxOrID mp,
         mpb_target = pf_Target mp, mpb_nodes = pf_Nodes mp \<rparr>"
  have parse: "parseBinaryMerkleProof (b @ r, s) = Ok ?m"
    using parse_MerkleProof_Bytes [OF assms(2), of r s] assms(3) by auto
  have valid: "validateTxOrID (MerkleProof_flags mp) (pf_TxOrID mp) = Ok ()"
    by (simp add: validateTxOrID_def MerkleProof_flags_bits)
  have root: "(if MerkleProof_flags mp AND 6 = 0 then bind_res (bhc (pf_Target mp)) header_root
      else if MerkleProof_flags mp AND 6 = 4 then Ok (pf_Target mp)
      else if MerkleProof_flags mp AND 6 = 2 then ExtractMerkleRootFromBlockHeader (pf_Target mp)
      else Err (SpvErr ErrInvalidMerkleFlags)) = proof_root bhc mp"
    by (auto simp: MerkleProof_flags_bits proof_root_def)
  show ?thesis
  proof (cases "txidFromTxOrID (pf_TxOrID mp)")
    case (Ok txid)
    then have "txid \<noteq> ''''" by (auto dest: txidFromTxOrID_length)
    moreover have "root \<noteq> ''''" if "proof_root bhc mp = Ok root" for root
      using length_proof_root [OF assms(1,2) that] by auto
    ultimately show ?thesis
      unfolding VerifyMerkleProof_def parse on_err.simps merkleProofBinary.simps valid root Let_def Ok
      by (cases "proof_root bhc mp") (simp_all add: MerkleProof_flags_bits)
  qed (simp_all add: VerifyMerkleProof_def parse valid)
qed

text \<open>What is left of a proof in the binary form: a branch, without the composite mark; the target
  type is one of three.\<close>

definition binary_view :: "MerkleProof \<Rightarrow> MerkleProof" where
  "binary_view mp = mp\<lparr>
     pf_TargetType := (if pf_TargetType mp \<in> {''header'', ''merkleRoot''} then pf_TargetType mp else ''hash''),
     pf_ProofType := '''', pf_Composite := False \<rparr>"

lemma binary_view:
  "MerkleProof_Bytes (binary_view mp) = MerkleProof_Bytes mp" "branch_proof (binary_view mp)"
  "wf_MerkleProof (binary_view mp) = wf_MerkleProof mp" "pf_TxOrID (binary_view mp) = pf_TxOrID mp"
  by (simp_all add: binary_view_def MerkleProof_Bytes_def MerkleProof_flags_def branch_proof_def
      wf_MerkleProof_def Let_def)

lemma VerifyMerkleProofJSON_binary_view:
  "branch_proof mp \<Longrightarrow> VerifyMerkleProofJSON bhc (binary_view mp) = VerifyMerkleProofJSON bhc mp"
  "\<not> branch_proof mp \<Longrightarrow> VerifyMerkleProofJSON bhc mp \<noteq> Ok v"
  by (auto simp: branch_proof_def binary_view_def VerifyMerkleProofJSON_def go_simps
      intro!: bind_res_cong split: if_splits)

text \<open>An answer that is no panic does not depend on what lies behind the proof.\<close>

lemma VerifyMerkleProof_behind:
  assumes "VerifyMerkleProof bhc (p, []) = Ok x"
  shows "VerifyMerkleProof bhc (p, s) = Ok x"
proof -
  have "\<forall>q. parseBinaryMerkleProof (p, []) \<noteq> Panic q"
    using assms by (auto simp: VerifyMerkleProof_def)
  from parseBinaryMerkleProof_behind [OF this, of s] assms show ?thesis
    by (simp add: VerifyMerkleProof_def)
qed

text \<open>The proof-type and composite bits are compared with 1, which a masked bit 3 or 4 never is.\<close>

lemma flag_bits:
  fixes f :: byte
  shows "(f AND 7) AND 1 = f AND 1" "(f AND 7) AND 6 = f AND 6" "f AND 8 \<noteq> 1" "f AND 16 \<noteq> 1"
proof -
  show "(f AND 7) AND 1 = f AND 1" "(f AND 7) AND 6 = f AND 6" by (simp_all add: and.assoc)
  show "f AND 8 \<noteq> 1"
  proof
    assume "f AND 8 = 1"
    then have "(f AND 8) AND 1 = 1 AND 1" by (simp only:)
    then show False by (simp add: and.assoc)
  qed
  show "f AND 16 \<noteq> 1"
  proof
    assume "f AND 16 = 1"
    then have "(f AND 16) AND 1 = 1 AND 1" by (simp only:)
    then show False by (simp add: and.assoc)
  qed
qed

lemma read_low_flags:
  "read_proof (cursor_of (f # rest, s)) =
     bind_res (read_proof (cursor_of ((f AND 7) # rest, s))) (\<lambda>(m, r). Ok (m\<lparr> mpb_flags := f \<rparr>, r))"
  unfolding read_proof_def bind_res_assoc slice_byte_Cons bind_res.simps prod.case flag_bits
  by (auto simp: bind_res_assoc split_def intro!: bind_res_cong)

lemma parse_low_flags:
  "parseBinaryMerkleProof (f # rest, s) =
     bind_res (parseBinaryMerkleProof ((f AND 7) # rest, s)) (\<lambda>m. Ok (m\<lparr> mpb_flags := f \<rparr>))"
  unfolding parseBinaryMerkleProof_def read_low_flags [of f] bind_res_assoc
  by (intro bind_res_cong refl) auto

lemma parse_low_flags_eq:
  assumes "parseBinaryMerkleProof ((f AND 7) # rest, s) = Ok m"
  shows "mpb_flags m = f AND 7"
  using assms by (subst (asm) parse_low_flags) (auto simp: go_simps)

section \<open>Properties\<close>

text \<open>\<open>parseBinaryMerkleProof\<close> reads back every field \<open>MerkleProof.Bytes\<close> writes, for
  proofs of at most 63 nodes with an index below \<open>2^nodeCount\<close>, whatever follows, in the slice or behind it.\<close>

theorem MerkleProof_roundtrip:
  assumes "wf_MerkleProof mp"
  shows "\<exists>b. MerkleProof_Bytes mp = Ok b \<and> parseBinaryMerkleProof (b @ r, s) =
    Ok \<lparr> mpb_flags = MerkleProof_flags mp, mpb_index = pf_Index mp, mpb_txOrID = pf_TxOrID mp,
         mpb_target = pf_Target mp, mpb_nodes = pf_Nodes mp \<rparr>"
  using assms by (rule parse_MerkleProof_Bytes)

definition sample_proof :: MerkleProof where
  "sample_proof = \<lparr> pf_Index = 0, pf_TxOrID = StringFromBytesReverse (replicate 32 1),
     pf_Target = StringFromBytesReverse (replicate 32 9),
     pf_Nodes = [StringFromBytesReverse (replicate 32 2)], pf_TargetType = ''merkleRoot'',
     pf_ProofType = ''branch'', pf_Composite = False \<rparr>"

lemma wf_sample_proof: "wf_MerkleProof sample_proof" "branch_proof sample_proof"
  by (simp_all add: sample_proof_def wf_MerkleProof_def branch_proof_def proof_node_def
      StringFromBytesReverse_def hash_str_def)

theorem MerkleProof_roundtrip_witness:
  "\<exists>b. MerkleProof_Bytes sample_proof = Ok b \<and> is_Ok (parseBinaryMerkleProof (b @ [0, 1], [7]))"
  using MerkleProof_roundtrip [OF wf_sample_proof(1), of "[0, 1]" "[7]"] by auto

text \<open>C12: exactly how verifying a proof in binary form relates to verifying it in JSON form. The
  proof has 32-byte hashes (or a transaction, or a header) in lower-case hex and at most 63 nodes.
  The binary verifier rejects an index of \<open>2^nodes\<close> or more, which the JSON verifier does not look at.
  Below that, its verdict is that of the JSON verifier on the same proof as a plain branch: the same
  validity and last-in-tree flags, or the same error (beside which the binary verifier still
  returns the id it had), or the same panic of the header chain. On a branch proof that is the
  verdict on the proof itself; a proof of another type, composite or with another target type is
  never accepted by the JSON verifier, while the binary form drops these fields.\<close>

theorem VerifyMerkleProof_JSON_equiv:
  assumes "wf_chain bhc" "writable_proof mp" "MerkleProof_Bytes mp = Ok b"
  shows "VerifyMerkleProof bhc (b, s) =
    (if 2 ^ length (pf_Nodes mp) \<le> unat (pf_Index mp) then Ok (None, Some (SpvErr ErrInvalidProof))
     else on_err (txidFromTxOrID (pf_TxOrID mp)) (\<lambda>e. Ok (None, Some e)) (\<lambda>txid.
       on_err (VerifyMerkleProofJSON bhc (binary_view mp))
         (\<lambda>e. Ok (Some (invalid_response txid), Some e))
         (\<lambda>(valid, isLast).
           Ok (Some \<lparr> mv_TxID = txid, mv_Valid = valid, mv_IsLastInTree = isLast \<rparr>, None)))) \<and>
    (if branch_proof mp then VerifyMerkleProofJSON bhc (binary_view mp) = VerifyMerkleProofJSON bhc mp
     else \<forall>v. VerifyMerkleProofJSON bhc mp \<noteq> Ok v)"
proof (intro conjI)
  show "if branch_proof mp then VerifyMerkleProofJSON bhc (binary_view mp) = VerifyMerkleProofJSON bhc mp
     else \<forall>v. VerifyMerkleProofJSON bhc mp \<noteq> Ok v"
    by (simp add: VerifyMerkleProofJSON_binary_view)
  show "VerifyMerkleProof bhc (b, s) =
    (if 2 ^ length (pf_Nodes mp) \<le> unat (pf_Index mp) then Ok (None, Some (SpvErr ErrInvalidProof))
     else on_err (txidFromTxOrID (pf_TxOrID mp)) (\<lambda>e. Ok (None, Some e)) (\<lambda>txid.
       on_err (VerifyMerkleProofJSON bhc (binary_view mp))
         (\<lambda>e. Ok (Some (invalid_response txid), Some e))
         (\<lambda>(valid, isLast).
           Ok (Some \<lparr> mv_TxID = txid, mv_Valid = valid, mv_IsLastInTree = isLast \<rparr>, None))))"
  proof (cases "2 ^ length (pf_Nodes mp) \<le> unat (pf_Index mp)")
    case True
    with parse_index_too_large [OF assms(2) _ assms(3), of "[]" s] show ?thesis
      by (simp add: VerifyMerkleProof_def)
  next
    case False
    with assms(2) have wf: "wf_MerkleProof (binary_view mp)"
      unfolding binary_view by (simp add: wf_MerkleProof_iff)
    have "MerkleProof_Bytes (binary_view mp) = Ok b" using assms(3) by (simp add: binary_view)
    from VerifyMerkleProof_Bytes [OF assms(1) wf this, of "[]" s] False show ?thesis
      unfolding VerifyMerkleProofJSON_branch [OF assms(1) wf binary_view(2)] append_Nil2
      by (cases "txidFromTxOrID (pf_TxOrID mp)") (simp_all add: binary_view)
  qed
qed

text \<open>A composite proof of a transaction that is its own root; with the index 1 it cannot be read.\<close>

definition composite_proof :: MerkleProof where
  "composite_proof = \<lparr> pf_Index = 0, pf_TxOrID = StringFromBytesReverse (replicate 32 1),
     pf_Target = StringFromBytesReverse (replicate 32 1), pf_Nodes = [], pf_TargetType = ''merkleRoot'',
     pf_ProofType = ''tree'', pf_Composite = True \<rparr>"

theorem VerifyMerkleProof_JSON_equiv_witness:
  "\<exists>b b1. MerkleProof_Bytes composite_proof = Ok b \<and>
    MerkleProof_Bytes (composite_proof\<lparr> pf_Index := 1 \<rparr>) = Ok b1 \<and>
    VerifyMerkleProof (\<lambda>_. Err (Msg ''not found'')) (b, []) =
      Ok (Some \<lparr> mv_TxID = pf_TxOrID composite_proof, mv_Valid = True, mv_IsLastInTree = True \<rparr>, None) \<and>
    VerifyMerkleProofJSON (\<lambda>_. Err (Msg ''not found'')) composite_proof \<noteq> Ok (True, True) \<and>
    VerifyMerkleProof (\<lambda>_. Err (Msg ''not found'')) (b1, []) = Ok (None, Some (SpvErr ErrInvalidProof))"
proof -
  let ?bhc = "\<lambda>_. Err (Msg ''not found'')" and ?mp1 = "composite_proof\<lparr> pf_Index := 1 \<rparr>"
  have len: "length (pf_TxOrID composite_proof) = 64"
    by (simp add: composite_proof_def StringFromBytesReverse_def)
  have ne: "StringFromBytesReverse (replicate 32 1) \<noteq> ''''"
    by (simp add: StringFromBytesReverse_def flip: length_greater_0_conv)
  have w: "writable_proof composite_proof" "writable_proof ?mp1"
    by (simp_all add: composite_proof_def writable_proof_def StringFromBytesReverse_def)
  obtain b b1 where b: "MerkleProof_Bytes composite_proof = Ok b" "MerkleProof_Bytes ?mp1 = Ok b1"
    using w MerkleProof_Bytes_head by blast
  have chain: "wf_chain ?bhc" by (simp add: wf_chain_def)
  have "VerifyMerkleProofJSON ?bhc (binary_view composite_proof) = Ok (True, True)"
    using len [unfolded composite_proof_def MerkleProof.simps] ne
    by (auto simp: VerifyMerkleProofJSON_def binary_view_def txidFromTxOrID_def verifyProof_def composite_proof_def)
  with VerifyMerkleProof_JSON_equiv [OF chain w(1) b(1), of "[]"] len
  have "VerifyMerkleProof ?bhc (b, []) =
      Ok (Some \<lparr> mv_TxID = pf_TxOrID composite_proof, mv_Valid = True, mv_IsLastInTree = True \<rparr>, None)"
    "VerifyMerkleProofJSON ?bhc composite_proof \<noteq> Ok (True, True)"
    by (auto simp: txidFromTxOrID_def branch_proof_def composite_proof_def)
  with VerifyMerkleProof_JSON_equiv [OF chain w(2) b(2), of "[]"] b show ?thesis
    by (auto simp: composite_proof_def)
qed

text \<open>the flag bits for tree proofs (bit 3) and composite proofs (bit 4) have no effect on
  \<open>VerifyMerkleProof\<close>, nor have the higher ones: it answers as if they were cleared.\<close>

theorem VerifyMerkleProof_ignores_type_flags:
  "VerifyMerkleProof bhc (f # rest, s) = VerifyMerkleProof bhc ((f AND 7) # rest, s)"
proof (cases "parseBinaryMerkleProof ((f AND 7) # rest, s)")
  case (Ok m)
  have "(f AND 7) AND 8 \<noteq> 1" "(f AND 7) AND 16 \<noteq> 1" by (rule flag_bits)+
  with Ok parse_low_flags_eq [OF Ok] show ?thesis
    by (simp add: VerifyMerkleProof_def parse_low_flags [of f] validateTxOrID_def flag_bits
        del: and.assoc cong: if_cong)
qed (simp_all add: VerifyMerkleProof_def parse_low_flags [of f])

text \<open>C7: an honest proof is accepted. For every transaction of a block, the siblings on its
  path (with \<open>*\<close> for a missing one) verify against the root of the block; the last
  transaction is reported as last in the tree, and, when no level has two equal siblings,
  only the last one is.\<close>

theorem verifyProof_complete:
  assumes "list_all hash_str txids" "i < length txids" "length txids < 2 ^ 64"
    and "BuildMerkleRoot txids = Ok root"
  shows "\<exists>isLast. verifyProof (txids ! i) root (of_nat i) (tsc_nodes txids i) = Ok (True, isLast) \<and>
    (i + 1 = length txids \<longrightarrow> isLast) \<and>
    (\<not> has_twins str_parent txids \<longrightarrow> isLast \<longrightarrow> i + 1 = length txids)"
proof -
  have "txids \<noteq> []" using assms(2) by auto
  with assms(1,4) have "root = merkle_root str_parent txids"
    by (simp add: BuildMerkleRoot_node_str list_all_node_str)
  then show ?thesis
    using verifyProof_honest [OF assms(1-3)] right_spine_iff [OF assms(2), of str_parent] by simp
qed

theorem verifyProof_complete_witness:
  "\<exists>root isLast. BuildMerkleRoot (map (\<lambda>b. StringFromBytesReverse (replicate 32 b)) [1, 2, 3]) = Ok root \<and>
    verifyProof (StringFromBytesReverse (replicate 32 3)) root 2
      [''*'', str_parent (StringFromBytesReverse (replicate 32 1)) (StringFromBytesReverse (replicate 32 2))] =
    Ok (True, isLast) \<and> isLast"
proof -
  let ?ids = "map (\<lambda>b. StringFromBytesReverse (replicate 32 b)) [1, 2, 3]"
  have "list_all hash_str ?ids" by simp
  moreover from this obtain root where root: "BuildMerkleRoot ?ids = Ok root"
    by (simp add: BuildMerkleRoot_node_str list_all_node_str del: list.map list.pred_inject)
  ultimately show ?thesis
    using verifyProof_complete [of ?ids 2 root] by (simp add: tsc_nodes.simps sibling_def)
qed

text \<open>The verdict against the ids of a block, for a proof with as many nodes as the tree is high.\<close>

lemma verifyProof_sound:
  assumes "list_all hash_str txids" "unat index < length txids"
    and "length nodes = length (merkle_path str_parent txids (unat index))"
    and "list_all proof_node nodes" "hash_str txid" "BuildMerkleRoot txids = Ok root"
    and "verifyProof txid root index nodes = Ok (True, isLast)"
  shows "case path_collision str_parent (\<lambda>l r. BytesFromStringReverse l @ BytesFromStringReverse r)
      txid (resolve_nodes txid (unat index) nodes)
      (txids ! unat index) (merkle_path str_parent txids (unat index)) (unat index) of
      None \<Rightarrow> txid = txids ! unat index
    | Some (x, y) \<Rightarrow> x \<noteq> y \<and> Sha256d x = Sha256d y"
proof -
  let ?i = "unat index"
  let ?p = "resolve_nodes txid ?i nodes"
  have "txids \<noteq> []" using assms(2) by auto
  with assms(1,6) have root: "root = merkle_root str_parent txids"
    by (simp add: BuildMerkleRoot_node_str list_all_node_str)
  have fold: "fold_path str_parent txid ?i ?p = merkle_root str_parent txids"
    using verifyProof_acceptedD [OF assms(5,4,7)] root by simp
  have h: "hash_str (txids ! ?i)" using assms(1,2) by (simp add: list_all_length)
  have len: "length ?p = length (merkle_path str_parent txids ?i)" using assms(3) by simp
  note binding = str_hash.fold_path_case [OF assms(5) h
      list_all_resolve_nodes [OF assms(5,4), where i = ?i] str_hash.wf_path [OF assms(1,2)] len, of ?i]
  then show ?thesis
    using fold fold_merkle_path [OF assms(2), of str_parent] by (auto split: option.splits)
qed

text \<open>C1: an accepted proof is sound. Let \<open>VerifyMerkleProofJSON\<close> accept a proof for a block hash
  whose header carries the root of \<open>txids\<close>, with nodes that are 32-byte hashes in lower-case hex or
  \<open>*\<close>. Let \<open>d\<close> be the height of the tree. If the proof has \<open>d\<close> nodes, the id proved is the
  transaction at the index; with fewer nodes it is the node at the index of the level as far below
  the root; with more, its first nodes lead from the id to the transaction at what remains of the
  index. Each case is for an index within that level; and the alternative is that
  \<open>path_collision\<close> computes from the proof two different byte strings with the same double
  SHA-256 digest.\<close>

theorem VerifyMerkleProofJSON_sound:
  assumes "list_all hash_str txids"
    and "list_all proof_node (pf_Nodes mp)" "pf_TargetType mp \<in> {'''', ''hash''}"
    and "txidFromTxOrID (pf_TxOrID mp) = Ok txid" "hash_str txid"
    and "bhc (pf_Target mp) = Ok (Some hdr)" "BuildMerkleRoot txids = Ok (HashMerkleRootStr hdr)"
    and "VerifyMerkleProofJSON bhc mp = Ok (True, isLast)"
    and "i = unat (pf_Index mp)" "nodes = resolve_nodes txid i (pf_Nodes mp)"
    and "d = length (merkle_path str_parent txids 0)" "k = length nodes - d"
    and "level = (merkle_level str_parent ^^ (d - length nodes)) txids"
    and "node = fold_path str_parent txid i (take k nodes)" "j = i div 2 ^ k" "j < length level"
  shows "(length nodes \<le> d \<longrightarrow> node = txid \<and> j = i) \<and> (length nodes = d \<longrightarrow> level = txids) \<and>
    (case path_collision str_parent (\<lambda>l r. BytesFromStringReverse l @ BytesFromStringReverse r)
      node (drop k nodes) (level ! j) (merkle_path str_parent level j) j of
      None \<Rightarrow> node = level ! j
    | Some (x, y) \<Rightarrow> x \<noteq> y \<and> Sha256d x = Sha256d y)"
proof -
  have "txids \<noteq> []"
  proof
    assume "txids = []"
    moreover have "(merkle_level str_parent ^^ m) [] = []" for m by (induction m) simp_all
    ultimately show False using assms(13,16) by simp
  qed
  with assms(1,7) have root: "HashMerkleRootStr hdr = merkle_root str_parent txids"
    by (simp add: BuildMerkleRoot_node_str list_all_node_str)
  have "verifyProof txid (HashMerkleRootStr hdr) (pf_Index mp) (pf_Nodes mp) = Ok (True, isLast)"
    using assms(3,4,6,8)
    by (auto simp: VerifyMerkleProofJSON_def go_simps header_root_def split: if_splits)
  from verifyProof_acceptedD [OF assms(5,2) this] root assms(9,10)
  have "fold_path str_parent txid i nodes = merkle_root str_parent txids" by simp
  from str_hash.fold_path_root [OF assms(1,5) _ this assms(11-16)]
    list_all_resolve_nodes [OF assms(5,2)] assms(10)
  show ?thesis using assms(12-15) by auto
qed

text \<open>A block of two transactions whose header carries their root; and one of three.\<close>

definition sample_header :: BlockHeader where
  "sample_header = \<lparr> bh_Version = 1, bh_Time = 0, bh_Nonce = 0, bh_HashPrevBlock = replicate 32 0,
     bh_HashMerkleRoot = rev (node_parent (replicate 32 1) (replicate 32 2)), bh_Bits = replicate 4 0 \<rparr>"

definition sample_id :: "byte \<Rightarrow> string" where
  "sample_id b = StringFromBytesReverse (replicate 32 b)"

definition header_of_three :: BlockHeader where
  "header_of_three = sample_header\<lparr> bh_HashMerkleRoot := rev (node_parent
     (node_parent (replicate 32 1) (replicate 32 2)) (node_parent (replicate 32 3) (replicate 32 3))) \<rparr>"

lemma hash_str_sample_id: "hash_str (sample_id b)"
  by (simp add: sample_id_def)

text \<open>The third transaction of three is accepted with the nodes \<open>*\<close> and the parent of the first
  two, and it is that of the block.\<close>

theorem VerifyMerkleProofJSON_sound_witness:
  "\<exists>isLast. VerifyMerkleProofJSON (\<lambda>_. Ok (Some header_of_three))
      \<lparr> pf_Index = 2, pf_TxOrID = sample_id 3, pf_Target = sample_id 9,
        pf_Nodes = [''*'', str_parent (sample_id 1) (sample_id 2)], pf_TargetType = ''hash'',
        pf_ProofType = '''', pf_Composite = False \<rparr> = Ok (True, isLast) \<and>
    (case path_collision str_parent (\<lambda>l r. BytesFromStringReverse l @ BytesFromStringReverse r)
      (sample_id 3) [sample_id 3, str_parent (sample_id 1) (sample_id 2)]
      ([sample_id 1, sample_id 2, sample_id 3] ! 2)
      (merkle_path str_parent [sample_id 1, sample_id 2, sample_id 3] 2) 2 of
      None \<Rightarrow> sample_id 3 = [sample_id 1, sample_id 2, sample_id 3] ! 2
    | Some (x, y) \<Rightarrow> x \<noteq> y \<and> Sha256d x = Sha256d y)"
proof -
  define t1 t2 t3 where "t1 = sample_id 1" and "t2 = sample_id 2" and "t3 = sample_id 3"
  let ?ids = "[t1, t2, t3]"
  let ?mp = "\<lparr> pf_Index = 2, pf_TxOrID = t3, pf_Target = sample_id 9, pf_Nodes = [''*'', str_parent t1 t2],
     pf_TargetType = ''hash'', pf_ProofType = '''', pf_Composite = False \<rparr>"
  have t: "hash_str t1" "hash_str t2" "hash_str t3" "list_all hash_str ?ids"
    by (simp_all add: t1_def t2_def t3_def hash_str_sample_id)
  then have len: "length t3 = 64" "length (sample_id 9) = 64"
    using hash_str_sample_id [of 9] by (simp_all add: hash_str_def)
  have root: "HashMerkleRootStr header_of_three = merkle_root str_parent ?ids"
    by (simp add: HashMerkleRootStr_def header_of_three_def sample_header_def str_parent_def sample_id_def
        t1_def t2_def t3_def merkle_root_step StringFromBytesReverse_def BytesFromStringReverse_def)
  have block: "BuildMerkleRoot ?ids = Ok (HashMerkleRootStr header_of_three)"
    unfolding root by (intro BuildMerkleRoot_node_str list_all_node_str [OF t(4)]) simp
  have ne: "merkle_root str_parent ?ids \<noteq> ''''"
    using str_hash.wf_root [OF t(4)] by (auto simp: hash_str_def)
  obtain l where "verifyProof t3 (merkle_root str_parent ?ids) 2 [''*'', str_parent t1 t2] = Ok (True, l)"
    using verifyProof_honest [OF t(4), of 2] by (auto simp: tsc_nodes.simps sibling_def)
  then have accept: "VerifyMerkleProofJSON (\<lambda>_. Ok (Some header_of_three)) ?mp = Ok (True, l)"
    using len ne by (auto simp: VerifyMerkleProofJSON_def txidFromTxOrID_def header_root_def root)
  have nodes: "[t3, str_parent t1 t2] = resolve_nodes t3 2 [''*'', str_parent t1 t2]"
    using hash_str_not_star [of "str_parent t1 t2"] by (simp add: Let_def hash_str_str_parent)
  have d: "2 = length (merkle_path str_parent ?ids 0)" by (simp add: merkle_path_step merkle_path_short)
  have "(length [t3, str_parent t1 t2] \<le> 2 \<longrightarrow> t3 = t3 \<and> (2 :: nat) = 2) \<and>
      (length [t3, str_parent t1 t2] = 2 \<longrightarrow> ?ids = ?ids) \<and>
      (case path_collision str_parent (\<lambda>l r. BytesFromStringReverse l @ BytesFromStringReverse r)
      t3 (drop 0 [t3, str_parent t1 t2]) (?ids ! 2) (merkle_path str_parent ?ids 2) 2 of
      None \<Rightarrow> t3 = ?ids ! 2 | Some (x, y) \<Rightarrow> x \<noteq> y \<and> Sha256d x = Sha256d y)"
    by (rule VerifyMerkleProofJSON_sound [OF t(4) _ _ _ t(3) _ block accept _ _ d])
      (use nodes len in \<open>simp_all add: proof_node_def hash_str_str_parent txidFromTxOrID_def\<close>)
  then have "case path_collision str_parent (\<lambda>l r. BytesFromStringReverse l @ BytesFromStringReverse r)
      t3 [t3, str_parent t1 t2] (?ids ! 2) (merkle_path str_parent ?ids 2) 2 of
      None \<Rightarrow> t3 = ?ids ! 2 | Some (x, y) \<Rightarrow> x \<noteq> y \<and> Sha256d x = Sha256d y"
    unfolding drop_0 by (elim conjE)
  then show ?thesis
    using accept unfolding t1_def t2_def t3_def by (intro exI [of _ l] conjI)
qed

text \<open>C2: nodes pass for transactions. The verifier does not know the depth of the tree, so in a
  block of at least two transactions the node above any two neighbours, with the rest of their path,
  is accepted as the id of a transaction of that block.\<close>

theorem VerifyMerkleProofJSON_inner_node:
  assumes "list_all hash_str txids" "2 \<le> length txids" "length txids < 2 ^ 64" "2 * i < length txids"
    and "bhc blockhash = Ok (Some hdr)" "length blockhash = 64"
    and "BuildMerkleRoot txids = Ok (HashMerkleRootStr hdr)"
  shows "\<exists>isLast. VerifyMerkleProofJSON bhc
    \<lparr> pf_Index = of_nat i, pf_TxOrID = merkle_level str_parent txids ! i, pf_Target = blockhash,
      pf_Nodes = tsc_nodes (merkle_level str_parent txids) i, pf_TargetType = ''hash'',
      pf_ProofType = ''branch'', pf_Composite = False \<rparr> = Ok (True, isLast)"
proof -
  let ?level = "merkle_level str_parent txids"
  have level: "list_all hash_str ?level" "i < length ?level" "length ?level < 2 ^ 64"
    using assms(3,4) str_hash.wf_level [OF assms(1)] by simp_all
  then have node: "hash_str (?level ! i)" by (simp add: list_all_length)
  then have "txidFromTxOrID (?level ! i) = Ok (?level ! i)" "?level ! i \<noteq> ''''"
    by (auto simp: hash_str_def txidFromTxOrID_def)
  moreover have ne: "txids \<noteq> []" using assms(2) by auto
  have "HashMerkleRootStr hdr = merkle_root str_parent txids"
    using assms(7) BuildMerkleRoot_node_str [OF list_all_node_str [OF assms(1)] ne] by simp
  with str_hash.wf_root [OF assms(1) ne] have "HashMerkleRootStr hdr = merkle_root str_parent ?level" "HashMerkleRootStr hdr \<noteq> ''''"
    using assms(2) by (auto simp: merkle_root_step hash_str_def)
  ultimately show ?thesis
    using verifyProof_honest [OF level] assms(5,6) by (simp add: VerifyMerkleProofJSON_def header_root_def)
qed

theorem VerifyMerkleProofJSON_inner_node_witness:
  "\<exists>isLast. VerifyMerkleProofJSON (\<lambda>_. Ok (Some sample_header))
    \<lparr> pf_Index = 0, pf_TxOrID = HashMerkleRootStr sample_header, pf_Target = replicate 64 CHR ''0'',
      pf_Nodes = [], pf_TargetType = ''hash'', pf_ProofType = ''branch'', pf_Composite = False \<rparr> =
    Ok (True, isLast)"
proof -
  define t1 t2 where "t1 = StringFromBytesReverse (replicate 32 1)"
    and "t2 = StringFromBytesReverse (replicate 32 2)"
  have t: "hash_str t1" "hash_str t2" by (simp_all add: t1_def t2_def)
  have root: "HashMerkleRootStr sample_header = str_parent t1 t2"
    by (simp add: HashMerkleRootStr_def sample_header_def str_parent_def t1_def t2_def
        StringFromBytesReverse_def BytesFromStringReverse_def)
  have "BuildMerkleRoot [t1, t2] = Ok (str_parent t1 t2)"
    using t BuildMerkleRoot_node_str [of "[t1, t2]"] by (simp add: hash_str_node merkle_root_step)
  then show ?thesis
    using VerifyMerkleProofJSON_inner_node [of "[t1, t2]" 0 "\<lambda>_. Ok (Some sample_header)"
        "replicate 64 CHR ''0''" sample_header] t
    by (simp add: root tsc_nodes.simps)
qed

end
