(* ===== verification/Bump.thy ===== *)
theory Bump
  imports Merkle_Tree "HOL-Library.Multiset"
begin

text \<open>
  \<open>bump.go\<close>: BSV Unified Merkle Paths (BRC-74), their binary format, the root computed from
  one, and the BUMP of a transaction extracted from the array of
  \<open>BuildMerkleTreeStoreChainHash\<close>. Pointers that may be nil are options. The JSON form is
  in \<open>Bump_Json\<close>.
\<close>

record leaf =
  lf_Offset :: "u64 option"
  lf_Hash :: "string option"
  lf_Txid :: "bool option"
  lf_Duplicate :: "bool option"

record BUMP =
  bump_BlockHeight :: u64
  bump_Path :: "leaf list list"

definition deref :: "'a option \<Rightarrow> 'a res" where
  "deref p = (case p of None \<Rightarrow> Panic NilDereference | Some x \<Rightarrow> Ok x)"

lemma deref_Some [simp]: "deref (Some x) = Ok x"
  by (simp add: deref_def)

lemma deref_None [simp]: "deref None = Panic NilDereference"
  by (simp add: deref_def)

section \<open>Reading\<close>

definition bump_short :: go_error where
  "bump_short = Msg ''BUMP bytes do not contain enough data to be valid''"

definition read_bump_leaf :: "leaf cursor_reader" where
  "read_bump_leaf c =
     bind_res (slice_varint c) (\<lambda>(offset, c1).
     bind_res (slice_byte c1) (\<lambda>(flags, c2).
       let dup = flags AND 1 > 0; txid = flags AND 2 > 0 in
       bind_res (if dup then Ok (None, c2)
                 else if fst c2 < 32 then Err bump_short
                 else bind_res (slice_take 32 c2) (\<lambda>(h, c3). Ok (Some (StringFromBytesReverse h), c3)))
         (\<lambda>(h, c3).
         Ok (\<lparr> lf_Offset = Some offset, lf_Hash = h,
               lf_Txid = (if txid then Some True else None),
               lf_Duplicate = (if dup then Some True else None) \<rparr>, c3))))"

text \<open>A leaf holds four pointers, 32 bytes: \<open>make([]leaf, n)\<close> panics beyond the address space.\<close>

definition make_leaves :: "u64 \<Rightarrow> nat res" where
  "make_leaves n = (if unat n * 32 \<le> max_alloc then Ok (unat n) else Panic MakeSliceLen)"

fun read_levels :: "nat \<Rightarrow> nat \<Rightarrow> leaf list list cursor_reader" where
  "read_levels 0 lv c = Ok ([], c)"
| "read_levels (Suc treeHeight) lv c =
     bind_res (slice_varint c) (\<lambda>(nLeaves, c1).
       if nLeaves = 0 then
         Err (Msg (''There are no leaves at height: '' @ show_nat lv @ '' which makes this invalid''))
       else
         bind_res (make_leaves nLeaves) (\<lambda>n.
         bind_res (slice_many read_bump_leaf n c1) (\<lambda>(level, c2).
         bind_res (read_levels treeHeight (lv + 1) c2) (\<lambda>(path, c3). Ok (level # path, c3)))))"

text \<open>
  \<open>sort.Slice\<close> by the offsets, which are set on every leaf read. It is not stable: where leaves
  have equal offsets, its result is some ordered permutation. The function that sorts a level is an
  argument \<open>srt\<close> of the readers, and this is what is relied on.
\<close>

type_synonym level_sort = "leaf list \<Rightarrow> leaf list"

definition by_offset :: "leaf list \<Rightarrow> bool" where
  "by_offset level \<longleftrightarrow> sorted (map (\<lambda>l. the (lf_Offset l)) level)"

definition sort_Slice :: "level_sort \<Rightarrow> bool" where
  "sort_Slice srt \<longleftrightarrow> (\<forall>level. mset (srt level) = mset level \<and> by_offset (srt level))"

definition NewBUMPFromStream :: "level_sort \<Rightarrow> slice \<Rightarrow> (BUMP \<times> int) res" where
  "NewBUMPFromStream srt bytes =
     (if length (fst bytes) < 37 then Err bump_short
      else
        bind_res (slice_varint (cursor_of bytes)) (\<lambda>(index, c1).
        bind_res (slice_byte c1) (\<lambda>(treeHeight, c2).
        bind_res (read_levels (unat treeHeight) 0 c2) (\<lambda>(path, c3).
          Ok (\<lparr> bump_BlockHeight = index, bump_Path = map srt path \<rparr>,
              int (length (fst bytes)) - fst c3)))))"

definition NewBUMPFromBytes :: "level_sort \<Rightarrow> slice \<Rightarrow> BUMP res" where
  "NewBUMPFromBytes srt bytes = bind_res (NewBUMPFromStream srt bytes) (\<lambda>(bump, _). Ok bump)"

definition NewBUMPFromStr :: "level_sort \<Rightarrow> bytes \<Rightarrow> string \<Rightarrow> BUMP res" where
  "NewBUMPFromStr srt spare str = bind_res (hex_DecodeSlice spare str) (NewBUMPFromBytes srt)"

section \<open>Writing\<close>

definition leaf_Bytes :: "leaf \<Rightarrow> bytes res" where
  "leaf_Bytes l =
     bind_res (deref (lf_Offset l)) (\<lambda>offset.
       let flags = (if lf_Duplicate l \<noteq> None then 1 else 0) OR
                   (if lf_Txid l \<noteq> None then 2 else (0 :: byte))
       in if flags AND 1 = 0 then
            bind_res (deref (lf_Hash l)) (\<lambda>h.
              Ok (VarInt_Bytes offset @ flags # BytesFromStringReverse h))
          else Ok (VarInt_Bytes offset @ [flags]))"

definition level_Bytes :: "leaf list \<Rightarrow> bytes res" where
  "level_Bytes level =
     bind_res (map_res leaf_Bytes level) (\<lambda>leaves.
       Ok (VarInt_Bytes (of_nat (length level)) @ concat leaves))"

definition BUMP_Bytes :: "BUMP \<Rightarrow> bytes res" where
  "BUMP_Bytes bump =
     bind_res (map_res level_Bytes (bump_Path bump)) (\<lambda>levels.
       Ok (VarInt_Bytes (bump_BlockHeight bump) @ of_nat (length (bump_Path bump)) # concat levels))"

definition BUMP_String :: "BUMP \<Rightarrow> string res" where
  "BUMP_String bump = bind_res (BUMP_Bytes bump) (\<lambda>b. Ok (hex_EncodeToString b))"

section \<open>Ids and root\<close>

fun txids_loop :: "leaf list \<Rightarrow> string list res" where
  "txids_loop [] = Ok []"
| "txids_loop (l # leaves) =
     bind_res (if lf_Txid l \<noteq> None then bind_res (deref (lf_Hash l)) (\<lambda>h. Ok [h]) else Ok []) (\<lambda>hs.
     bind_res (txids_loop leaves) (\<lambda>txids. Ok (hs @ txids)))"

definition BUMP_Txids :: "BUMP \<Rightarrow> string list res" where
  "BUMP_Txids bump = bind_res (go_index (bump_Path bump) 0) txids_loop"

text \<open>The first leaf with the id as its hash; every hash up to it is dereferenced.\<close>

fun find_txid :: "string \<Rightarrow> leaf list \<Rightarrow> u64 res" where
  "find_txid txid [] = Err (Msg (''The BUMP does not contain the txid: '' @ txid))"
| "find_txid txid (l # leaves) =
     bind_res (deref (lf_Hash l)) (\<lambda>h.
       if h = txid then deref (lf_Offset l) else find_txid txid leaves)"

fun find_offset :: "nat \<Rightarrow> u64 \<Rightarrow> leaf list \<Rightarrow> leaf res" where
  "find_offset height offset [] =
     Err (MsgIndex ''We do not have a hash for this index at height: '' height)"
| "find_offset height offset (l # leaves) =
     bind_res (deref (lf_Offset l)) (\<lambda>lo.
       if lo = offset then Ok l else find_offset height offset leaves)"

fun root_loop :: "bytes \<Rightarrow> u64 \<Rightarrow> nat \<Rightarrow> leaf list list \<Rightarrow> bytes res" where
  "root_loop workingHash index height [] = Ok workingHash"
| "root_loop workingHash index height (leaves # path) =
     (let offset = drop_bit height index XOR 1 in
      bind_res (find_offset height offset leaves) (\<lambda>leafAtThisLevel.
      bind_res
        (if lf_Duplicate leafAtThisLevel \<noteq> None then Ok (workingHash @ workingHash)
         else bind_res (deref (lf_Hash leafAtThisLevel)) (\<lambda>h.
           let leafBytes = BytesFromStringReverse h
           in if offset mod 2 \<noteq> 0 then Ok (workingHash @ leafBytes)
              else Ok (leafBytes @ workingHash))) (\<lambda>digest.
        root_loop (Sha256Sha256 digest) index (height + 1) path)))"

definition CalculateRootGivenTxid :: "BUMP \<Rightarrow> string \<Rightarrow> string res" where
  "CalculateRootGivenTxid bump txid =
     (if length (bump_Path bump) = 1 \<and> length (bump_Path bump ! 0) = 1 then Ok txid
      else
        bind_res (go_index (bump_Path bump) 0) (\<lambda>level0.
        bind_res (find_txid txid level0) (\<lambda>index.
        bind_res (root_loop (BytesFromStringReverse txid) index 0 (bump_Path bump)) (\<lambda>h.
          Ok (StringFromBytesReverse h)))))"

section \<open>The BUMP of a transaction in a tree\<close>

text \<open>\<open>for height := 0; height < treeHeight; height++\<close>, with the levels still to do.\<close>

fun bump_loop :: "u64 \<Rightarrow> bytes option list \<Rightarrow> nat \<Rightarrow> nat \<Rightarrow> nat \<Rightarrow> bool \<Rightarrow> nat \<Rightarrow>
    (leaf list list \<times> bool) res" where
  "bump_loop txIndex merkleTree levelOffset numOfHashes height oddTxIndex 0 = Ok ([], oddTxIndex)"
| "bump_loop txIndex merkleTree levelOffset numOfHashes height oddTxIndex (Suc todo) =
     (let offset0 = drop_bit height txIndex;
          isEven = (offset0 AND 1 = 0);
          offset = (if isEven then offset0 + 1 else offset0 - 1) in
      bind_res (go_index merkleTree (levelOffset + unat offset)) (\<lambda>hash.
        let thisLeaf = \<lparr> lf_Offset = Some offset, lf_Hash = map_option chainhash_String hash,
                         lf_Txid = None,
                         lf_Duplicate = (if hash = None then Some True else None) \<rparr> in
        bind_res (bump_loop txIndex merkleTree (levelOffset + numOfHashes) (numOfHashes div 2)
                    (height + 1) (oddTxIndex \<or> \<not> isEven) todo) (\<lambda>(path, o').
          Ok ([thisLeaf] # path, o'))))"

definition NewBUMPFromMerkleTreeAndIndex :: "u64 \<Rightarrow> bytes option list \<Rightarrow> u64 \<Rightarrow> BUMP res" where
  "NewBUMPFromMerkleTreeAndIndex blockHeight merkleTree txIndex =
     (if merkleTree = [] then Err (Msg ''merkle tree is empty'')
      else
        bind_res (go_index merkleTree (unat txIndex)) (\<lambda>p.
        bind_res (deref p) (\<lambda>h.
          let txidLeaf = \<lparr> lf_Offset = Some txIndex, lf_Hash = Some (chainhash_String h),
                           lf_Txid = Some True, lf_Duplicate = None \<rparr> in
          if length merkleTree = 1 then
            Ok \<lparr> bump_BlockHeight = blockHeight, bump_Path = [[txidLeaf]] \<rparr>
          else
            let numOfTxids = (length merkleTree + 1) div 2; treeHeight = floor_log2 numOfTxids in
            bind_res (bump_loop txIndex merkleTree 0 numOfTxids 0 False treeHeight)
              (\<lambda>(path, oddTxIndex).
            bind_res (go_index path 0) (\<lambda>level0.
              let level0' = (if oddTxIndex then level0 @ [txidLeaf] else txidLeaf # level0)
              in Ok \<lparr> bump_BlockHeight = blockHeight, bump_Path = path[0 := level0'] \<rparr>)))))"

section \<open>Binary round trip\<close>

definition wf_leaf :: "leaf \<Rightarrow> bool" where
  "wf_leaf l \<longleftrightarrow>
     lf_Offset l \<noteq> None \<and> lf_Txid l \<in> {None, Some True} \<and>
     (case lf_Hash l of Some h \<Rightarrow> hash_str h \<and> lf_Duplicate l = None
      | None \<Rightarrow> lf_Duplicate l = Some True)"

definition wf_level :: "leaf list \<Rightarrow> bool" where
  "wf_level level \<longleftrightarrow>
     level \<noteq> [] \<and> list_all wf_leaf level \<and> length level * 32 \<le> max_alloc \<and>
     by_offset level"

definition wf_BUMP :: "BUMP \<Rightarrow> bool" where
  "wf_BUMP bump \<longleftrightarrow>
     list_all wf_level (bump_Path bump) \<and> length (bump_Path bump) < 256 \<and>
     (\<exists>level \<in> set (bump_Path bump). \<exists>l \<in> set level. lf_Hash l \<noteq> None)"

definition leaf_raw :: "leaf \<Rightarrow> bytes" where
  "leaf_raw l =
     VarInt_Bytes (the (lf_Offset l)) @
     ((if lf_Duplicate l \<noteq> None then 1 else 0) OR (if lf_Txid l \<noteq> None then 2 else 0)) #
     (case lf_Hash l of None \<Rightarrow> [] | Some h \<Rightarrow> BytesFromStringReverse h)"

definition level_raw :: "leaf list \<Rightarrow> bytes" where
  "level_raw level = VarInt_Bytes (of_nat (length level)) @ concat (map leaf_raw level)"

lemma leaf_Bytes_raw: "wf_leaf l \<Longrightarrow> leaf_Bytes l = Ok (leaf_raw l)"
  by (cases l) (auto simp: wf_leaf_def leaf_Bytes_def leaf_raw_def Let_def split: option.splits)

lemma level_Bytes_raw: "wf_level level \<Longrightarrow> level_Bytes level = Ok (level_raw level)"
  by (simp add: wf_level_def level_Bytes_def level_raw_def list_all_iff leaf_Bytes_raw
      map_res_Ok [where g = leaf_raw])

lemma read_bump_leaf_raw:
  "wf_leaf l \<Longrightarrow> read_bump_leaf (cursor_of (leaf_raw l @ p, s)) = Ok (l, cursor_of (p, s))"
  by (cases l) (auto simp: wf_leaf_def leaf_raw_def read_bump_leaf_def fst_cursor_of Let_def
      hash_str_def StringFromBytesReverse_Bytes split: option.splits)

interpretation bump_leaf: slice_codec wf_leaf leaf_raw read_bump_leaf
  by unfold_locales (rule read_bump_leaf_raw)

text \<open>
  Two BUMPs with the same leaves and offsets, that differ at most in the order of leaves of a level
  with equal offsets; and a BUMP whose levels have no equal offsets.
\<close>

definition same_level :: "leaf list \<Rightarrow> leaf list \<Rightarrow> bool" where
  "same_level l l' \<longleftrightarrow> mset l = mset l' \<and> map lf_Offset l = map lf_Offset l'"

definition same_BUMP :: "BUMP \<Rightarrow> BUMP \<Rightarrow> bool" where
  "same_BUMP b b' \<longleftrightarrow>
     bump_BlockHeight b = bump_BlockHeight b' \<and> list_all2 same_level (bump_Path b) (bump_Path b')"

definition distinct_offsets :: "BUMP \<Rightarrow> bool" where
  "distinct_offsets b \<longleftrightarrow> list_all (\<lambda>level. distinct (map lf_Offset level)) (bump_Path b)"

lemma same_level_eq:
  assumes "same_level l l'" "distinct (map lf_Offset l')"
  shows "l = l'"
proof (rule nth_equalityI)
  show len: "length l = length l'"
    using assms(1) by (auto simp: same_level_def dest: mset_eq_length)
  fix i
  assume i: "i < length l"
  with len have off: "lf_Offset (l ! i) = lf_Offset (l' ! i)"
    using assms(1) by (metis nth_map same_level_def)
  have "l ! i \<in> set l'" using i assms(1) by (metis mset_eq_setD nth_mem same_level_def)
  moreover have "l' ! i \<in> set l'" using i len by simp
  ultimately show "l ! i = l' ! i"
    using off assms(2) by (auto simp: distinct_map dest: inj_onD)
qed

lemma same_BUMP_eq: "same_BUMP b b' \<Longrightarrow> distinct_offsets b' \<Longrightarrow> b = b'"
  by (cases b; cases b') (auto simp: same_BUMP_def distinct_offsets_def list_all_length
      list_all2_conv_all_nth intro!: nth_equalityI same_level_eq)

lemma sort_Slice_level:
  assumes "sort_Slice srt" "wf_level level"
  shows "same_level (srt level) level"
proof -
  let ?off = "\<lambda>l. the (lf_Offset l)"
  have m: "mset (srt level) = mset level" and s: "by_offset (srt level)"
    using assms(1) by (simp_all add: sort_Slice_def)
  have offs: "l \<in> set level \<Longrightarrow> lf_Offset l = Some (?off l)" for l
    using assms(2) by (auto simp: wf_level_def wf_leaf_def list_all_iff)
  have "mset (map ?off (srt level)) = mset (map ?off level)" using m by simp
  from properties_for_sort [OF this] s assms(2) have "map ?off (srt level) = map ?off level"
    by (simp add: by_offset_def wf_level_def sorted_sort_id)
  then have "map Some (map ?off (srt level)) = map Some (map ?off level)" by (simp only:)
  moreover have "map Some (map ?off (srt level)) = map lf_Offset (srt level)"
    using offs mset_eq_setD [OF m] by (auto simp del: option.collapse)
  moreover have "map Some (map ?off level) = map lf_Offset level" using offs by auto
  ultimately show ?thesis using m by (simp add: same_level_def)
qed

lemma level_count:
  assumes "wf_level level"
  shows "unat (of_nat (length level) :: u64) = length level" "(of_nat (length level) :: u64) \<noteq> 0"
    "make_leaves (of_nat (length level)) = Ok (length level)"
proof -
  show n: "unat (of_nat (length level) :: u64) = length level"
    using assms by (intro unat_of_nat_u64) (simp add: wf_level_def max_alloc_def)
  then show "(of_nat (length level) :: u64) \<noteq> 0"
    using assms by (metis length_0_conv unat_0 wf_level_def)
  show "make_leaves (of_nat (length level)) = Ok (length level)"
    using assms n by (simp add: make_leaves_def wf_level_def)
qed

lemma read_levels_raw:
  "list_all wf_level path \<Longrightarrow>
     read_levels (length path) lv (cursor_of (concat (map level_raw path) @ p, s)) = Ok (path, cursor_of (p, s))"
proof (induction path arbitrary: lv)
  case (Cons level path)
  then have "list_all wf_leaf level" by (simp add: wf_level_def)
  with Cons level_count [of level] show ?case
    by (simp add: level_raw_def bump_leaf.slice_many_enc)
qed simp

lemma length_concat_member:
  assumes "x \<in> set xs"
  shows "length (f x) \<le> length (concat (map f xs))"
  using assms by (induction xs) auto

lemma length_VarInt_Bytes_pos: "1 \<le> length (VarInt_Bytes v)"
  by (cases "VarInt_Bytes v") auto

lemma BUMP_Bytes_raw:
  assumes "list_all wf_level (bump_Path bump)"
  shows "BUMP_Bytes bump = Ok (VarInt_Bytes (bump_BlockHeight bump) @ of_nat (length (bump_Path bump)) #
      concat (map level_raw (bump_Path bump)))"
  using assms by (simp add: BUMP_Bytes_def level_Bytes_raw map_res_Ok [where g = level_raw] list_all_iff)

text \<open>The BUMP read back: the levels are those written, sorted once more.\<close>

abbreviation resorted :: "level_sort \<Rightarrow> BUMP \<Rightarrow> BUMP" where
  "resorted srt bump \<equiv> bump\<lparr> bump_Path := map srt (bump_Path bump) \<rparr>"

lemma same_BUMP_resorted:
  assumes "sort_Slice srt" "list_all wf_level (bump_Path bump)"
  shows "same_BUMP (resorted srt bump) bump"
  using assms by (simp add: same_BUMP_def list_all2_conv_all_nth list_all_length sort_Slice_level)

lemma NewBUMPFromStream_raw:
  assumes "list_all wf_level (bump_Path bump)" "length (bump_Path bump) < 256"
    "BUMP_Bytes bump = Ok b" "37 \<le> length b"
  shows "NewBUMPFromStream srt (b @ r, s) = Ok (resorted srt bump, int (length b))"
proof -
  have b: "b = VarInt_Bytes (bump_BlockHeight bump) @ of_nat (length (bump_Path bump)) #
      concat (map level_raw (bump_Path bump))"
    using BUMP_Bytes_raw [OF assms(1)] assms(3) by simp
  have n: "unat (of_nat (length (bump_Path bump)) :: byte) = length (bump_Path bump)"
    using assms(2) by (simp add: unat_of_nat take_bit_nat_eq_self)
  show ?thesis
    using assms(1,4) n unfolding NewBUMPFromStream_def
    by (simp add: b read_levels_raw fst_cursor_of)
qed

lemma wf_BUMP_bytes:
  assumes "wf_BUMP bump" "BUMP_Bytes bump = Ok b"
  shows "37 \<le> length b"
proof -
  have wf: "\<And>level. level \<in> set (bump_Path bump) \<Longrightarrow> wf_level level"
    using assms(1) by (simp add: wf_BUMP_def list_all_iff)
  have b: "b = VarInt_Bytes (bump_BlockHeight bump) @ of_nat (length (bump_Path bump)) #
      concat (map level_raw (bump_Path bump))"
    using BUMP_Bytes_raw [of bump] assms by (simp add: wf_BUMP_def)
  obtain level l where l: "level \<in> set (bump_Path bump)" "l \<in> set level" "lf_Hash l \<noteq> None"
    using assms(1) by (auto simp: wf_BUMP_def)
  then have "wf_leaf l" using wf by (auto simp: wf_level_def list_all_iff)
  with l(3) have "34 \<le> length (leaf_raw l)"
    using length_VarInt_Bytes_pos [of "the (lf_Offset l)"]
    by (auto simp: leaf_raw_def wf_leaf_def)
  also have "\<dots> \<le> length (concat (map leaf_raw level))" by (rule length_concat_member [OF l(2)])
  finally have "35 \<le> length (level_raw level)"
    using length_VarInt_Bytes_pos [of "of_nat (length level)"] by (simp add: level_raw_def)
  also have "\<dots> \<le> length (concat (map level_raw (bump_Path bump)))"
    by (rule length_concat_member [OF l(1)])
  finally show "37 \<le> length b"
    using length_VarInt_Bytes_pos [of "bump_BlockHeight bump"] by (simp add: b)
qed

lemma NewBUMPFromStream_Bytes:
  assumes "wf_BUMP bump" "BUMP_Bytes bump = Ok b"
  shows "NewBUMPFromStream srt (b @ r, s) = Ok (resorted srt bump, int (length b))"
  using assms wf_BUMP_bytes [OF assms] by (intro NewBUMPFromStream_raw) (simp_all add: wf_BUMP_def)

lemma resorted_distinct:
  assumes "sort_Slice srt" "list_all wf_level (bump_Path bump)" "distinct_offsets bump"
  shows "resorted srt bump = bump"
  using same_BUMP_eq [OF same_BUMP_resorted] assms by blast

text \<open>Insertion sort keeps the order of equal offsets; it is one function \<open>sort.Slice\<close> could be.\<close>

definition stable_sort :: level_sort where
  "stable_sort = sort_key (\<lambda>l. the (lf_Offset l))"

lemma sort_Slice_stable: "sort_Slice stable_sort"
  by (simp add: sort_Slice_def stable_sort_def by_offset_def)

section \<open>What is read is well-formed\<close>

lemma read_bump_leaf_typed:
  assumes "read_bump_leaf bs = Ok (l, r)"
  shows "wf_leaf l"
  using assms by (auto simp: read_bump_leaf_def slice_take_def take_bytes_def go_simps Let_def wf_leaf_def
      split: if_splits prod.splits)

lemma wf_level_sorted:
  assumes "sort_Slice srt" "level \<noteq> []" "list_all wf_leaf level" "length level * 32 \<le> max_alloc"
  shows "wf_level (srt level)"
proof -
  have m: "mset (srt level) = mset level" and s: "by_offset (srt level)"
    using assms(1) by (simp_all add: sort_Slice_def)
  show ?thesis
    using assms(2-4) s mset_eq_setD [OF m] mset_eq_length [OF m]
    by (auto simp: wf_level_def list_all_iff)
qed

lemma read_levels_typed:
  assumes "sort_Slice srt" "read_levels n lv bs = Ok (path, r)"
  shows "list_all wf_level (map srt path) \<and> length path = n"
  using assms(2)
proof (induction n arbitrary: lv bs path r)
  case (Suc n)
  then obtain k r1 m level r2 path' where "slice_varint bs = Ok (k, r1)" "k \<noteq> 0" "make_leaves k = Ok m"
    "slice_many read_bump_leaf m r1 = Ok (level, r2)" and rest: "read_levels n (lv + 1) r2 = Ok (path', r)"
    and path: "path = level # path'"
    by (auto simp: go_simps split: prod.splits if_splits)
  moreover from this have "length level = m" "list_all wf_leaf level"
    using slice_many_OkD slice_many_all [of read_bump_leaf wf_leaf] read_bump_leaf_typed by blast+
  moreover have "0 < unat k" using \<open>k \<noteq> 0\<close> by (simp add: unat_gt_0)
  ultimately have "wf_level (srt level)"
    by (intro wf_level_sorted [OF assms(1)]) (auto simp: make_leaves_def split: if_splits)
  then show ?case using Suc.IH [OF rest] path by simp
qed simp

lemma byte_unat_less: "unat (b :: byte) < 256"
  using unsigned_less [where ?'a = nat and w = b] by simp

lemma NewBUMPFromStream_typed:
  assumes "sort_Slice srt" "NewBUMPFromStream srt bs = Ok (bump, n)"
  shows "list_all wf_level (bump_Path bump) \<and> length (bump_Path bump) < 256"
proof -
  from assms(2) obtain i h r path r' where "read_levels (unat (h :: byte)) 0 r = Ok (path, r')"
    "bump = \<lparr> bump_BlockHeight = i, bump_Path = map srt path \<rparr>"
    by (auto simp: NewBUMPFromStream_def go_simps split: if_splits prod.splits)
  then show ?thesis using read_levels_typed [OF assms(1), of "unat h" 0 r path r'] byte_unat_less [of h] by simp
qed

text \<open>On well-formed levels only the search for the id can panic, at a leaf without a hash.\<close>

lemma find_txid_Panic:
  "(\<exists>p. find_txid txid leaves = Panic p) \<longleftrightarrow>
     (\<exists>l \<in> set (takeWhile (\<lambda>l. lf_Hash l \<noteq> Some txid) leaves). lf_Hash l = None)"
  if "list_all wf_leaf leaves"
  using that
proof (induction leaves)
  case (Cons l leaves)
  then show ?case by (cases "lf_Hash l") (auto simp: wf_leaf_def)
qed simp

lemma find_offset_wf:
  assumes "list_all wf_leaf leaves"
  shows "find_offset h offset leaves \<noteq> Panic p"
    and "find_offset h offset leaves = Ok l \<Longrightarrow> wf_leaf l"
proof -
  have "find_offset h offset leaves \<noteq> Panic p \<and> (find_offset h offset leaves = Ok l \<longrightarrow> wf_leaf l)"
    using assms
  proof (induction leaves)
    case (Cons a leaves)
    then obtain y where "lf_Offset a = Some y" by (auto simp: wf_leaf_def)
    then show ?case using Cons by auto
  qed simp
  then show "find_offset h offset leaves \<noteq> Panic p"
    and "find_offset h offset leaves = Ok l \<Longrightarrow> wf_leaf l" by auto
qed

lemma root_loop_not_Panic:
  "list_all wf_level path \<Longrightarrow> root_loop w index h path \<noteq> Panic p"
proof (induction path arbitrary: w h)
  case (Cons leaves path)
  then have wf: "list_all wf_leaf leaves" by (simp add: wf_level_def)
  show ?case
  proof (cases "find_offset h (drop_bit h index XOR 1) leaves")
    case (Ok l)
    with find_offset_wf(2) [OF wf] have "wf_leaf l" by blast
    then show ?thesis using Ok Cons by (auto simp: wf_leaf_def Let_def split: option.splits)
  qed (use find_offset_wf(1) [OF wf] in auto)
qed simp

section \<open>Extraction from a tree\<close>

definition sibling_leaf :: "bytes list \<Rightarrow> nat \<Rightarrow> leaf" where
  "sibling_leaf xs i =
     (let j = (if even i then i + 1 else i - 1)
      in \<lparr> lf_Offset = Some (of_nat j),
           lf_Hash = (if j < length xs then Some (chainhash_String (xs ! j)) else None),
           lf_Txid = None, lf_Duplicate = (if j < length xs then None else Some True) \<rparr>)"

function bump_siblings :: "bytes list \<Rightarrow> nat \<Rightarrow> leaf list list" where
  "bump_siblings xs i =
     (if length xs \<le> 1 then []
      else [sibling_leaf xs i] # bump_siblings (merkle_level node_parent xs) (i div 2))"
  by pat_completeness auto
termination
  by (relation "measure (\<lambda>(xs, i). length xs)") auto

declare bump_siblings.simps [simp del]

lemma chainhash_String_eq [simp]: "chainhash_String h = StringFromBytesReverse h"
  by (simp add: chainhash_String_def StringFromBytesReverse_def)

lemma u64_neighbour:
  assumes "unat (w :: u64) = i"
  shows "(if w AND 1 = 0 then w + 1 else w - 1) = of_nat (if even i then i + 1 else i - 1)"
    and "w XOR 1 = of_nat (if even i then i + 1 else i - 1)"
    and "w AND 1 = 0 \<longleftrightarrow> even i"
    and "unat (of_nat (if even i then i + 1 else i - 1) :: u64) = (if even i then i + 1 else i - 1)"
proof -
  have w: "w = of_nat i" using assms by (metis of_nat_unat ucast_id)
  have par: "even w \<longleftrightarrow> even i" using odd_unat [of w] assms by simp
  then show par': "w AND 1 = 0 \<longleftrightarrow> even i"
    by (simp add: and_one_eq flip: even_iff_mod_2_eq_zero)
  have diff: "w - 1 = of_nat (i - 1)" if "odd i"
    using that w by (cases i) simp_all
  show "(if w AND 1 = 0 then w + 1 else w - 1) = of_nat (if even i then i + 1 else i - 1)"
    unfolding par' using diff w by simp
  show "w XOR 1 = of_nat (if even i then i + 1 else i - 1)"
    using par diff w by (simp add: xor_one_eq)
  have "i < 2 ^ 64" using unsigned_less [where ?'a = nat and w = w] assms by simp
  moreover have "i + 1 < 2 ^ 64" if "even i"
    using that \<open>i < 2 ^ 64\<close> by (cases "i + 1 = 2 ^ 64") auto
  ultimately show "unat (of_nat (if even i then i + 1 else i - 1) :: u64) =
      (if even i then i + 1 else i - 1)"
    by (intro unat_of_nat_u64) (auto intro: le_less_trans [of "i - 1" i])
qed

lemma unat_drop_bit_Suc: "unat (drop_bit h w) = i \<Longrightarrow> unat (drop_bit (h + 1) (w :: u64)) = i div 2"
  unfolding unat_drop_bit_eq
  by (simp add: drop_bit_eq_div) (metis div_mult2_eq mult.commute)

lemma chain_level: "merkle_level chain_parent (map Some xs) = map Some (merkle_level node_parent xs)"
  by (rule map_merkle_level [symmetric]) (simp add: chain_parent_def)

lemma bump_loop_store:
  assumes "list_all (\<lambda>h. length h = 32) xs" "i < length xs" "length xs \<le> 2 ^ k"
    and "2 ^ k < 2 * length xs" "unat (drop_bit height txIndex) = i"
  shows "bump_loop txIndex
      (pre @ tree_store (cell_parent None chain_parent) k (padded None (2 ^ k) (map Some xs)))
      (length pre) (2 ^ k) height odd0 k =
    Ok (bump_siblings xs i, odd0 \<or> i \<noteq> 0)"
  using assms
proof (induction k arbitrary: pre xs i height odd0)
  case 0
  then show ?case by (simp add: bump_siblings.simps)
next
  case (Suc k)
  let ?f = "cell_parent None chain_parent"
  let ?l = "merkle_level node_parent xs"
  let ?P = "padded None (2 * 2 ^ k) (map Some xs)"
  let ?rest = "tree_store ?f k (padded None (2 ^ k) (map Some ?l))"
  let ?w = "drop_bit height txIndex"
  define j where "j = (if even i then i + 1 else i - 1)"
  from Suc.prems have l: "length ?l \<le> 2 ^ k" "2 ^ k < 2 * length ?l" "i div 2 < length ?l"
      "list_all (\<lambda>h. length h = 32) ?l" and two: "\<not> length xs \<le> 1"
    by (auto intro: nodes.wf_level)
  have "list_all chain_node (map Some xs)"
    using Suc.prems(1) by (simp add: list_all_iff chain_node_def)
  then have store: "tree_store ?f (Suc k) (padded None (2 ^ Suc k) (map Some xs)) = ?P @ ?rest"
    using chain_cells.tree_store_padded_Suc [of "map Some xs" k] Suc.prems(3)
    by (simp add: chain_level)
  have lenP: "length ?P = 2 * 2 ^ k" using Suc.prems(3) by (simp add: padded_def)
  note w = u64_neighbour [OF Suc.prems(5), folded j_def]
  have j: "j < 2 * 2 ^ k" using Suc.prems(2,3) by (cases "even i") (auto simp: j_def elim!: evenE, presburger)
  have "(pre @ ?P @ ?rest) ! (length pre + j) = ?P ! j"
    using j lenP by (simp add: nth_append)
  also have "\<dots> = (if j < length xs then Some (xs ! j) else None)"
    using j Suc.prems(3) by (simp add: chain_cells.nth_padded)
  finally have "go_index (pre @ ?P @ ?rest) (length pre + unat (of_nat j :: u64)) =
      Ok (if j < length xs then Some (xs ! j) else None)"
    using j lenP w(4) by (simp add: go_index_def)
  moreover have "bump_loop txIndex ((pre @ ?P) @ ?rest) (length (pre @ ?P)) (2 ^ k) (height + 1)
      (odd0 \<or> odd i) k = Ok (bump_siblings ?l (i div 2), (odd0 \<or> odd i) \<or> i div 2 \<noteq> 0)"
    using l unat_drop_bit_Suc [OF Suc.prems(5)] by (intro Suc.IH)
  ultimately show ?case
    unfolding store bump_loop.simps Let_def bump_siblings.simps [of xs] w(1)
    using two lenP
    by (auto simp: w(3) sibling_leaf_def Let_def simp flip: j_def)
qed

section \<open>The root of an extracted BUMP\<close>

lemma root_loop_step:
  assumes "unat (drop_bit height index) = i" "i < length xs" "2 \<le> length xs"
    and "find_offset height (drop_bit height index XOR 1) leaves = Ok (sibling_leaf xs i)"
  shows "root_loop (xs ! i) index height (leaves # path) =
    root_loop (merkle_level node_parent xs ! (i div 2)) index (height + 1) path"
proof -
  define j where "j = (if even i then i + 1 else i - 1)"
  note w = u64_neighbour [OF assms(1), folded j_def]
  have odd: "(of_nat j :: u64) mod 2 \<noteq> 0 \<longleftrightarrow> odd j"
    using odd_unat [of "of_nat j :: u64"] w(4) by (simp flip: even_iff_mod_2_eq_zero)
  have "odd j \<longleftrightarrow> even i" by (auto simp: j_def)
  with odd have "(if lf_Duplicate (sibling_leaf xs i) \<noteq> None then Ok (xs ! i @ xs ! i)
         else bind_res (deref (lf_Hash (sibling_leaf xs i))) (\<lambda>h.
           let leafBytes = BytesFromStringReverse h
           in if (of_nat j :: u64) mod 2 \<noteq> 0 then Ok (xs ! i @ leafBytes)
              else Ok (leafBytes @ xs ! i))) =
      Ok (if even i then xs ! i @ sibling xs i else sibling xs i @ xs ! i)"
    using assms(2) by (auto simp: sibling_leaf_def Let_def sibling_def simp flip: j_def)
      (auto simp: j_def)
  then show ?thesis
    using assms(4) nth_merkle_level [OF assms(2), of node_parent]
    by (simp add: w(2) Let_def Sha256Sha256_Sha256d node_parent_def)
qed

lemma find_offset_sibling:
  assumes "unat (drop_bit height index) = i"
  shows "find_offset height (drop_bit height index XOR 1) (sibling_leaf xs i # leaves) =
    Ok (sibling_leaf xs i)"
  using u64_neighbour(2) [OF assms] by (simp add: sibling_leaf_def Let_def)

lemma root_loop_siblings:
  assumes "i < length xs" "unat (drop_bit height index) = i"
  shows "root_loop (xs ! i) index height (bump_siblings xs i) = Ok (merkle_root node_parent xs)"
  using assms
proof (induction xs i arbitrary: height rule: bump_siblings.induct)
  case (1 xs i)
  show ?case
  proof (cases "length xs \<le> 1")
    case True
    with "1.prems"(1) obtain x where "xs = [x]" "i = 0" by (cases xs) auto
    then show ?thesis by (simp add: bump_siblings.simps)
  next
    case False
    let ?l = "merkle_level node_parent xs"
    have "i div 2 < length ?l" using False "1.prems"(1) by simp
    then have "root_loop (?l ! (i div 2)) index (height + 1) (bump_siblings ?l (i div 2)) =
        Ok (merkle_root node_parent ?l)"
      using False unat_drop_bit_Suc [OF "1.prems"(2)] by (intro "1.IH") simp_all
    moreover have "root_loop (xs ! i) index height
        ([sibling_leaf xs i] # bump_siblings ?l (i div 2)) =
        root_loop (?l ! (i div 2)) index (height + 1) (bump_siblings ?l (i div 2))"
      using False "1.prems" by (intro root_loop_step find_offset_sibling) simp_all
    ultimately show ?thesis
      using False by (subst bump_siblings.simps) (simp add: merkle_root_step del: root_loop.simps)
  qed
qed

text \<open>The level with the transaction itself, in the two orders the code builds.\<close>

definition txid_leaf :: "bytes list \<Rightarrow> nat \<Rightarrow> leaf" where
  "txid_leaf xs i = \<lparr> lf_Offset = Some (of_nat i), lf_Hash = Some (chainhash_String (xs ! i)),
     lf_Txid = Some True, lf_Duplicate = None \<rparr>"

lemma find_offset_level0:
  assumes "i < 2 ^ 63"
  shows "find_offset 0 (of_nat i XOR 1) [txid_leaf xs i, sibling_leaf xs i] = Ok (sibling_leaf xs i)"
    and "find_offset 0 (of_nat i XOR 1) [sibling_leaf xs i, txid_leaf xs i] = Ok (sibling_leaf xs i)"
proof -
  have i: "unat (drop_bit 0 (of_nat i :: u64)) = i"
    using assms by simp (intro unat_of_nat_u64, simp)
  then have s: "find_offset 0 (of_nat i XOR 1) (sibling_leaf xs i # leaves) = Ok (sibling_leaf xs i)"
    for leaves using find_offset_sibling [OF i, of xs leaves] by simp
  have "(of_nat i :: u64) \<noteq> of_nat i XOR 1"
  proof
    assume "(of_nat i :: u64) = of_nat i XOR 1"
    then have "i = (if even i then i + 1 else i - 1)"
      using u64_neighbour(2,4) [OF i] i by (metis drop_bit_0 id_apply)
    then show False by (auto split: if_splits elim: oddE)
  qed
  with s show "find_offset 0 (of_nat i XOR 1) [txid_leaf xs i, sibling_leaf xs i] = Ok (sibling_leaf xs i)"
    and "find_offset 0 (of_nat i XOR 1) [sibling_leaf xs i, txid_leaf xs i] = Ok (sibling_leaf xs i)"
    by (simp_all add: txid_leaf_def)
qed

lemma find_txid_level0:
  assumes "distinct xs" "i < length xs" "2 \<le> length xs"
  shows "find_txid (StringFromBytesReverse (xs ! i)) [txid_leaf xs i, sibling_leaf xs i] = Ok (of_nat i)"
    and "find_txid (StringFromBytesReverse (xs ! i)) [sibling_leaf xs i, txid_leaf xs i] =
      (if even i \<and> i + 1 = length xs then Panic NilDereference else Ok (of_nat i))"
  using assms by (auto simp: txid_leaf_def sibling_leaf_def Let_def nth_eq_iff_index_eq)

lemma floor_log2_pow: "floor_log2 (2 ^ k) = k"
proof (induction k)
  case (Suc k)
  have "\<not> (2 :: nat) ^ Suc k < 2" by simp
  with Suc show ?case by (subst floor_log2.simps) simp
qed (simp add: floor_log2.simps)

lemma NewBUMP_store:
  assumes "list_all (\<lambda>h. length h = 32) hs" "i < length hs" "length hs < 2 ^ 63" "2 \<le> length hs"
    and "BuildMerkleTreeStoreChainHash (map Some hs) = Ok store"
  shows "NewBUMPFromMerkleTreeAndIndex blockHeight store (of_nat i) =
    Ok \<lparr> bump_BlockHeight = blockHeight,
         bump_Path = (if i = 0 then [txid_leaf hs i, sibling_leaf hs i]
                      else [sibling_leaf hs i, txid_leaf hs i]) #
           bump_siblings (merkle_level node_parent hs) (i div 2) \<rparr>"
proof -
  let ?f = "cell_parent None chain_parent"
  have "list_all chain_node (map Some hs)" "map Some hs \<noteq> []"
    using assms(1,2) by (auto simp: list_all_iff chain_node_def)
  then obtain k where k: "length hs \<le> 2 ^ k" "2 ^ k < 2 * length hs"
      "store = tree_store ?f k (padded None (2 ^ k) (map Some hs))"
    using BuildMerkleTreeStoreChainHash_store [of "map Some hs"] assms(5) by auto
  have lenP: "length (padded None (2 ^ k) (map Some hs)) = 2 ^ k" using k(1) by (simp add: padded_def)
  then have len: "length store = 2 * 2 ^ k - 1" unfolding k(3) by (rule length_tree_store)
  have "(2 :: nat) \<le> 2 ^ k" using k(1) assms(4) by linarith
  with len have ne: "store \<noteq> []" "length store \<noteq> 1" "(length store + 1) div 2 = 2 ^ k" by auto
  have idx: "unat (of_nat i :: u64) = i" using assms(2,3) by (intro unat_of_nat_u64) simp
  have i: "i < 2 ^ k" using assms(2) k(1) by simp
  then have "store ! i = Some (hs ! i)"
    using lenP assms(2) k(1) unfolding k(3)
    by (simp add: nth_tree_store_leaf chain_cells.nth_padded)
  then have get: "go_index store i = Ok (Some (hs ! i))" using i len by (simp add: go_index_def)
  have "bump_loop (of_nat i) ([] @ tree_store ?f k (padded None (2 ^ k) (map Some hs)))
      (length ([] :: bytes option list)) (2 ^ k) 0 False k = Ok (bump_siblings hs i, False \<or> i \<noteq> 0)"
    using assms(1,2) k(1,2) idx by (intro bump_loop_store) simp_all
  then have loop: "bump_loop (of_nat i) store 0 (2 ^ k) 0 False k = Ok (bump_siblings hs i, i \<noteq> 0)"
    by (simp add: k(3))
  have sib: "bump_siblings hs i = [sibling_leaf hs i] # bump_siblings (merkle_level node_parent hs) (i div 2)"
    using assms(4) by (subst bump_siblings.simps) simp
  show ?thesis
    using ne get loop by (simp add: NewBUMPFromMerkleTreeAndIndex_def idx sib Let_def txid_leaf_def floor_log2_pow)
qed

lemma CalculateRootGivenTxid_extracted:
  assumes "distinct hs" "i < length hs" "length hs < 2 ^ 63" "2 \<le> length hs"
  shows "CalculateRootGivenTxid
      \<lparr> bump_BlockHeight = blockHeight,
        bump_Path = (if i = 0 then [txid_leaf hs i, sibling_leaf hs i]
                     else [sibling_leaf hs i, txid_leaf hs i]) #
          bump_siblings (merkle_level node_parent hs) (i div 2) \<rparr>
      (StringFromBytesReverse (hs ! i)) =
    (if even i \<and> i + 1 = length hs then Panic NilDereference
     else Ok (StringFromBytesReverse (merkle_root node_parent hs)))"
proof -
  let ?l = "merkle_level node_parent hs"
  let ?level0 = "if i = 0 then [txid_leaf hs i, sibling_leaf hs i]
    else [sibling_leaf hs i, txid_leaf hs i]"
  have i: "unat (drop_bit 0 (of_nat i :: u64)) = i"
    using assms(2,3) by simp (intro unat_of_nat_u64, simp)
  have "find_offset 0 (of_nat i XOR 1) ?level0 = Ok (sibling_leaf hs i)"
    using find_offset_level0 [of i hs] assms(2,3) by (cases "i = 0") (simp_all del: find_offset.simps)
  then have "root_loop (hs ! i) (of_nat i) 0 (?level0 # bump_siblings ?l (i div 2)) =
      root_loop (?l ! (i div 2)) (of_nat i) (0 + 1) (bump_siblings ?l (i div 2))"
    using assms(2,4) by (intro root_loop_step [OF i]) simp_all
  also have "\<dots> = Ok (merkle_root node_parent ?l)"
    using assms(2) by (intro root_loop_siblings unat_drop_bit_Suc [OF i]) simp
  finally have "root_loop (hs ! i) (of_nat i) 0 (?level0 # bump_siblings ?l (i div 2)) =
      Ok (merkle_root node_parent hs)"
    using assms(4) by (simp add: merkle_root_step)
  moreover have "find_txid (StringFromBytesReverse (hs ! i)) ?level0 =
      (if even i \<and> i + 1 = length hs then Panic NilDereference else Ok (of_nat i))"
    using find_txid_level0 [OF assms(1,2,4)] assms(4) by (cases "i = 0") (simp_all del: find_txid.simps)
  moreover have "length ?level0 = 2" by simp
  ultimately show ?thesis
    by (simp add: CalculateRootGivenTxid_def del: root_loop.simps find_txid.simps)
qed

section \<open>Properties\<close>

text \<open>C34: \<open>NewBUMPFromStream\<close> reads back what \<open>BUMP.Bytes\<close> writes and consumes exactly
  these bytes, whatever follows, in the slice or behind it, and \<open>NewBUMPFromStr\<close> reads the same
  from \<open>BUMP.String\<close>. Since the levels are sorted once more, by a sort that is not stable, what is
  read has the same leaves at the same offsets, but leaves of a level with equal offsets may have
  changed places; when no two leaves of a level have the same offset it is the same BUMP. The BUMP
  is well-formed: as read from bytes, with at least one hash.\<close>

theorem BUMP_roundtrip:
  assumes "sort_Slice srt" "wf_BUMP bump"
  shows "\<exists>b t bump'. BUMP_Bytes bump = Ok b \<and> BUMP_String bump = Ok t \<and>
    NewBUMPFromStream srt (b @ r, s) = Ok (bump', int (length b)) \<and> NewBUMPFromStr srt s t = Ok bump' \<and>
    same_BUMP bump' bump \<and> (distinct_offsets bump \<longrightarrow> bump' = bump)"
proof -
  have wf: "list_all wf_level (bump_Path bump)" using assms(2) by (simp add: wf_BUMP_def)
  then obtain b where b: "BUMP_Bytes bump = Ok b" using BUMP_Bytes_raw by blast
  note read = NewBUMPFromStream_Bytes [OF assms(2) b, of srt]
  with read [of r s] read [of "[]" s] same_BUMP_resorted [OF assms(1) wf] resorted_distinct [OF assms(1) wf]
  show ?thesis using b by (auto simp: BUMP_String_def NewBUMPFromStr_def NewBUMPFromBytes_def)
qed

text \<open>A level of three leaves, two of them with the offset 3.\<close>

definition equal_offsets :: BUMP where
  "equal_offsets = \<lparr> bump_BlockHeight = 1000, bump_Path =
     [[\<lparr> lf_Offset = Some 2, lf_Hash = Some (StringFromBytesReverse (replicate 32 1)),
         lf_Txid = Some True, lf_Duplicate = None \<rparr>,
       \<lparr> lf_Offset = Some 3, lf_Hash = None, lf_Txid = None, lf_Duplicate = Some True \<rparr>,
       \<lparr> lf_Offset = Some 3, lf_Hash = Some (StringFromBytesReverse (replicate 32 2)),
         lf_Txid = None, lf_Duplicate = None \<rparr>]] \<rparr>"

theorem BUMP_roundtrip_witness:
  "\<exists>b bump'. BUMP_Bytes equal_offsets = Ok b \<and>
     NewBUMPFromStream stable_sort (b @ [0], [1]) = Ok (bump', int (length b)) \<and>
     same_BUMP bump' equal_offsets"
proof -
  have "wf_BUMP equal_offsets"
    by (simp add: equal_offsets_def wf_BUMP_def wf_level_def wf_leaf_def by_offset_def max_alloc_def)
  from BUMP_roundtrip [OF sort_Slice_stable this, of "[0]" "[1]"] show ?thesis by blast
qed

text \<open>C31: what \<open>NewBUMPFromStream\<close> returns is well-formed whatever the bytes were: every level has
  leaves, sorted by their offsets, and every leaf has an offset and either 32 bytes of hash or
  the duplicate flag. It can be serialised, and what is written, unless it is shorter than any
  BUMP, is read again as a BUMP with the same leaves at the same offsets, which is the same BUMP
  when no two leaves of a level have the same offset.\<close>

theorem NewBUMPFromStream_wf:
  assumes "sort_Slice srt" "NewBUMPFromStream srt bs = Ok (bump, n)"
  shows "list_all wf_level (bump_Path bump) \<and> length (bump_Path bump) < 256 \<and>
    (\<exists>b. BUMP_Bytes bump = Ok b \<and>
      (length b < 37 \<or>
       (\<exists>bump'. NewBUMPFromStream srt (b @ r, s) = Ok (bump', int (length b)) \<and>
          same_BUMP bump' bump \<and> (distinct_offsets bump \<longrightarrow> bump' = bump))))"
proof -
  note typed = NewBUMPFromStream_typed [OF assms]
  then have wf: "list_all wf_level (bump_Path bump)" by simp
  then obtain b where b: "BUMP_Bytes bump = Ok b" using BUMP_Bytes_raw by blast
  have "NewBUMPFromStream srt (b @ r, s) = Ok (resorted srt bump, int (length b))"
    if "\<not> length b < 37"
    using NewBUMPFromStream_raw [of bump b srt r s] typed b that by simp
  then show ?thesis
    using typed b same_BUMP_resorted [OF assms(1) wf] resorted_distinct [OF assms(1) wf] by blast
qed

theorem NewBUMPFromStream_wf_witness:
  "\<exists>bump. NewBUMPFromStream stable_sort (5 # 1 # 1 # 0 # 2 # replicate 32 7, []) = Ok (bump, 37) \<and>
     list_all wf_level (bump_Path bump)"
proof -
  let ?l = "\<lparr> lf_Offset = Some 0, lf_Hash = Some (StringFromBytesReverse (replicate 32 7)),
      lf_Txid = Some True, lf_Duplicate = None \<rparr>"
  let ?b = "\<lparr> bump_BlockHeight = 5, bump_Path = [[?l]] \<rparr>"
  have wf: "wf_BUMP ?b"
    by (simp add: wf_BUMP_def wf_level_def wf_leaf_def by_offset_def max_alloc_def)
  have "BUMP_Bytes ?b = Ok (5 # 1 # 1 # 0 # 2 # replicate 32 7)"
    using BUMP_Bytes_raw [of ?b] wf
    by (simp add: wf_BUMP_def level_raw_def leaf_raw_def VarInt_Bytes_def BytesFromStringReverse_String)
  from NewBUMPFromStream_Bytes [OF wf this, of stable_sort "[]" "[]"]
  have r: "\<exists>bump. NewBUMPFromStream stable_sort (5 # 1 # 1 # 0 # 2 # replicate 32 7, []) = Ok (bump, 37)"
    by simp
  with NewBUMPFromStream_wf [OF sort_Slice_stable] show ?thesis by blast
qed

text \<open>C32: exactly when \<open>CalculateRootGivenTxid\<close> panics on a BUMP that was read: when it has no
  levels, or when a duplicate leaf stands before the leaf of the id.\<close>

theorem CalculateRootGivenTxid_panics_iff:
  assumes "sort_Slice srt" "NewBUMPFromStream srt bs = Ok (bump, n)"
  shows "(\<exists>p. CalculateRootGivenTxid bump txid = Panic p) \<longleftrightarrow>
    bump_Path bump = [] \<or>
    (length (bump_Path bump) \<noteq> 1 \<or> length (bump_Path bump ! 0) \<noteq> 1) \<and>
    (\<exists>l \<in> set (takeWhile (\<lambda>l. lf_Hash l \<noteq> Some txid) (bump_Path bump ! 0)). lf_Hash l = None)"
proof (cases "bump_Path bump")
  case Nil
  then show ?thesis by (simp add: CalculateRootGivenTxid_def go_index_def)
next
  case (Cons level path)
  have wf: "list_all wf_level (level # path)" using NewBUMPFromStream_typed [OF assms] Cons by simp
  then have "list_all wf_leaf level" by (simp add: wf_level_def)
  note panic = find_txid_Panic [OF this, of txid]
  show ?thesis
  proof (cases "find_txid txid level")
    case (Ok i)
    have "bind_res (root_loop w i 0 (level # path)) (\<lambda>h. Ok (StringFromBytesReverse h)) \<noteq> Panic p" for w p
      using root_loop_not_Panic [OF wf, of w i 0 p] by (cases "root_loop w i 0 (level # path)") auto
    then show ?thesis using Ok panic Cons
      by (auto simp: CalculateRootGivenTxid_def simp del: root_loop.simps)
  qed (use panic Cons in \<open>auto simp: CalculateRootGivenTxid_def\<close>)
qed

text \<open>The bytes of a BUMP with one level: a duplicate at offset 0 and a transaction at offset 1.\<close>

definition duplicate_first :: BUMP where
  "duplicate_first = \<lparr> bump_BlockHeight = 5, bump_Path =
     [[\<lparr> lf_Offset = Some 0, lf_Hash = None, lf_Txid = None, lf_Duplicate = Some True \<rparr>,
       \<lparr> lf_Offset = Some 1, lf_Hash = Some (StringFromBytesReverse (replicate 32 7)),
         lf_Txid = Some True, lf_Duplicate = None \<rparr>]] \<rparr>"

theorem CalculateRootGivenTxid_panics_iff_witness:
  "\<exists>bump p. NewBUMPFromStream stable_sort (5 # 1 # 2 # 0 # 1 # 1 # 2 # replicate 32 7, []) = Ok (bump, 39) \<and>
     CalculateRootGivenTxid bump (StringFromBytesReverse (replicate 32 7)) = Panic p"
proof -
  have wf: "wf_BUMP duplicate_first"
    by (simp add: duplicate_first_def wf_BUMP_def wf_level_def wf_leaf_def by_offset_def max_alloc_def)
  then have wfl: "list_all wf_level (bump_Path duplicate_first)" by (simp add: wf_BUMP_def)
  have "BUMP_Bytes duplicate_first = Ok (5 # 1 # 2 # 0 # 1 # 1 # 2 # replicate 32 7)"
    using BUMP_Bytes_raw [of duplicate_first] wf
    by (simp add: duplicate_first_def wf_BUMP_def level_raw_def leaf_raw_def VarInt_Bytes_def)
  from NewBUMPFromStream_Bytes [OF wf this, of stable_sort "[]" "[]"] resorted_distinct [OF sort_Slice_stable wfl]
  have r: "NewBUMPFromStream stable_sort (5 # 1 # 2 # 0 # 1 # 1 # 2 # replicate 32 7, []) = Ok (duplicate_first, 39)"
    by (simp add: duplicate_first_def distinct_offsets_def)
  have "\<exists>p. CalculateRootGivenTxid duplicate_first (StringFromBytesReverse (replicate 32 7)) = Panic p"
    using CalculateRootGivenTxid_panics_iff [OF sort_Slice_stable r, of "StringFromBytesReverse (replicate 32 7)"]
    by (simp add: duplicate_first_def)
  with r show ?thesis by blast
qed

text \<open>C9: the BUMP \<open>NewBUMPFromMerkleTreeAndIndex\<close> extracts for a transaction of a block
  of at least two different ids leads \<open>CalculateRootGivenTxid\<close> to the root of the block,
  except for the last transaction of a block of odd length: there the duplicate leaf, which
  has no hash, is put in front of the transaction's leaf and the search for the id panics.\<close>

theorem NewBUMP_CalculateRoot:
  assumes "list_all (\<lambda>h. length h = 32) hs" "distinct hs" "i < length hs" "2 \<le> length hs"
    and "length hs < 2 ^ 63" "BuildMerkleTreeStoreChainHash (map Some hs) = Ok store"
  shows "\<exists>bump. NewBUMPFromMerkleTreeAndIndex blockHeight store (of_nat i) = Ok bump \<and>
    CalculateRootGivenTxid bump (chainhash_String (hs ! i)) =
    (if even i \<and> i + 1 = length hs then Panic NilDereference
     else BuildMerkleRoot (map chainhash_String hs))"
proof -
  have "list_all hash_str (map StringFromBytesReverse hs)"
    using assms(1) by (auto simp: list_all_iff)
  moreover have "map BytesFromStringReverse (map StringFromBytesReverse hs) = hs"
    by (simp add: comp_def)
  ultimately have "BuildMerkleRoot (map StringFromBytesReverse hs) =
      Ok (StringFromBytesReverse (merkle_root node_parent hs))"
    using assms(4) BuildMerkleRoot_node_str [OF list_all_node_str]
      merkle_root_str_bytes [of "map StringFromBytesReverse hs"]
    by (metis list.map_disc_iff list.size(3) not_numeral_le_zero)
  moreover have "map chainhash_String hs = map StringFromBytesReverse hs" by simp
  ultimately have "BuildMerkleRoot (map chainhash_String hs) =
      Ok (StringFromBytesReverse (merkle_root node_parent hs))" by (simp only:)
  with NewBUMP_store [OF assms(1,3,5,4,6)] CalculateRootGivenTxid_extracted [OF assms(2,3,5,4)]
  show ?thesis by simp
qed

theorem NewBUMP_CalculateRoot_witness:
  "\<exists>store bump. BuildMerkleTreeStoreChainHash (map Some [replicate 32 1, replicate 32 2, replicate 32 3]) =
      Ok store \<and>
    NewBUMPFromMerkleTreeAndIndex 7 store 2 = Ok bump \<and>
    CalculateRootGivenTxid bump (StringFromBytesReverse (replicate 32 3)) = Panic NilDereference"
proof -
  let ?hs = "[replicate 32 1, replicate 32 2, replicate 32 3] :: bytes list"
  obtain store where "BuildMerkleTreeStoreChainHash (map Some ?hs) = Ok store"
    using BuildMerkleTreeStoreChainHash_store [of "map Some ?hs"] by (auto simp: chain_node_def)
  with NewBUMP_CalculateRoot [of ?hs 2 store 7] show ?thesis by (auto simp: replicate_eq_replicate)
qed

end
