(* ===== verification/Bump_Json.thy ===== *)
theory Bump_Json
  imports Bump Json_Decode
begin

text \<open>
  The JSON form of a BUMP: \<open>NewBUMPFromJSON\<close> of \<open>bump.go\<close> and the value its tags describe. It is
  less strict than the binary form: every field of a leaf may be missing, and levels are not
  sorted.
\<close>

section \<open>Reading\<close>

definition zero_leaf :: leaf where
  "zero_leaf = \<lparr> lf_Offset = None, lf_Hash = None, lf_Txid = None, lf_Duplicate = None \<rparr>"

definition leaf_fields :: "(string \<times> leaf decoder) list" where
  "leaf_fields =
     [(''offset'', dec_field (dec_ptr dec_uint 0) lf_Offset lf_Offset_update),
      (''hash'', dec_field (dec_ptr dec_string '''') lf_Hash lf_Hash_update),
      (''txid'', dec_field (dec_ptr dec_bool False) lf_Txid lf_Txid_update),
      (''duplicate'', dec_field (dec_ptr dec_bool False) lf_Duplicate lf_Duplicate_update)]"

text \<open>The structure with its slices as targets.\<close>

record bump_target =
  bt_BlockHeight :: u64
  bt_Path :: "leaf target target"

definition dec_level :: "leaf target decoder" where
  "dec_level = dec_slice (dec_struct leaf_fields) zero_leaf"

definition bump_fields :: "(string \<times> bump_target decoder) list" where
  "bump_fields =
     [(''blockHeight'', dec_field dec_uint bt_BlockHeight bt_BlockHeight_update),
      (''path'', dec_field (dec_slice dec_level nil_target) bt_Path bt_Path_update)]"

definition bump_decode :: "json \<Rightarrow> BUMP option" where
  "bump_decode j =
     map_option (\<lambda>t. \<lparr> bump_BlockHeight = bt_BlockHeight t,
                       bump_Path = map target_list (target_list (bt_Path t)) \<rparr>)
       (dec_struct bump_fields j \<lparr> bt_BlockHeight = 0, bt_Path = nil_target \<rparr>)"

definition NewBUMPFromJSON :: "string \<Rightarrow> BUMP res" where
  "NewBUMPFromJSON jsonStr = json_Unmarshal bump_decode jsonStr"

section \<open>The value of a BUMP\<close>

text \<open>What \<open>json.Marshal\<close> makes of the tags. A nil path, written \<open>null\<close>, is read as an empty one.\<close>

definition leaf_members :: "leaf \<Rightarrow> (string \<times> json) list" where
  "leaf_members l =
     omit_nil ''offset'' json_uint (lf_Offset l) @ omit_nil ''hash'' JStr (lf_Hash l) @
     omit_nil ''txid'' JBool (lf_Txid l) @ omit_nil ''duplicate'' JBool (lf_Duplicate l)"

definition bump_json :: "BUMP \<Rightarrow> json" where
  "bump_json b =
     JObj [(''blockHeight'', json_uint (bump_BlockHeight b)),
           (''path'', JArr (map (\<lambda>level. JArr (map (\<lambda>l. JObj (leaf_members l)) level)) (bump_Path b)))]"

definition utf8_leaf :: "leaf \<Rightarrow> bool" where
  "utf8_leaf l \<longleftrightarrow> (case lf_Hash l of None \<Rightarrow> True | Some h \<Rightarrow> valid_utf8 h)"

definition utf8_BUMP :: "BUMP \<Rightarrow> bool" where
  "utf8_BUMP b \<longleftrightarrow> list_all (list_all utf8_leaf) (bump_Path b)"

lemma dec_leaf: "dec_struct leaf_fields (JObj (leaf_members l)) zero_leaf = Some l"
  by (cases l) (simp add: dec_struct_def leaf_members_def leaf_fields_def omit_nil_def find_field_def
      zero_leaf_def split: option.split)

lemma dec_level_json:
  "dec_level (JArr (map (\<lambda>l. JObj (leaf_members l)) level)) nil_target =
     Some (Target level (length level))"
  using dec_slice_nil [of level "dec_struct leaf_fields" "\<lambda>l. JObj (leaf_members l)" zero_leaf "\<lambda>l. l"]
  by (simp add: dec_level_def dec_leaf)

lemma bump_decode_json: "bump_decode (bump_json b) = Some b"
proof -
  have "dec_slice dec_level nil_target
      (JArr (map (\<lambda>level. JArr (map (\<lambda>l. JObj (leaf_members l)) level)) (bump_Path b))) nil_target =
    Some (Target (map (\<lambda>level. Target level (length level)) (bump_Path b)) (length (bump_Path b)))"
    by (rule dec_slice_nil) (simp add: dec_level_json)
  then show ?thesis
    by (cases b) (simp add: bump_decode_def bump_json_def dec_struct_def bump_fields_def
        find_field_def comp_def)
qed

interpretation bump_codec: json_codec utf8_BUMP bump_json bump_decode
proof
  fix b
  show "bump_decode (bump_json b) = Some b" by (rule bump_decode_json)
  have "fits 1 (JObj (leaf_members l))" for l
    by (simp add: leaf_members_def omit_nil_def json_uint_def split: option.split)
  then show "fits 4 (bump_json b)"
    by (simp add: bump_json_def json_uint_def numeral_eq_Suc list_all_iff)
  have "json_utf8 (JObj (leaf_members l))" if "utf8_leaf l" for l
    using that by (simp add: leaf_members_def omit_nil_def utf8_leaf_def valid_utf8_ascii split: option.splits)
  moreover have "valid_utf8 ''blockHeight''" "valid_utf8 ''path''" by (simp_all add: valid_utf8_ascii)
  ultimately show "json_utf8 (bump_json b)" if "utf8_BUMP b"
    using that by (auto simp: bump_json_def utf8_BUMP_def list_all_iff)
qed

text \<open>What is read from the binary form has hexadecimal hashes.\<close>

lemma wf_level_utf8: "wf_level level \<Longrightarrow> list_all utf8_leaf level"
  using valid_utf8_canonical_hex
  by (force simp: wf_level_def list_all_iff wf_leaf_def utf8_leaf_def hash_str_def split: option.splits)

lemma utf8_BUMP_read:
  assumes "sort_Slice srt" "NewBUMPFromStream srt bs = Ok (bump, n)"
  shows "utf8_BUMP bump"
  using NewBUMPFromStream_typed [OF assms] wf_level_utf8
  by (auto simp: utf8_BUMP_def list_all_iff)

section \<open>Properties\<close>

text \<open>\<open>NewBUMPFromJSON\<close> reads back the JSON text of every BUMP whose hashes are UTF-8, in
  particular of every BUMP read from its binary form.\<close>

theorem NewBUMPFromJSON_roundtrip:
  assumes "utf8_BUMP b \<or> sort_Slice srt \<and> NewBUMPFromStream srt bs = Ok (b, n)"
  shows "NewBUMPFromJSON (json_print (bump_json b)) = Ok b"
proof -
  have "utf8_BUMP b" using assms utf8_BUMP_read by blast
  then have "json_Unmarshal bump_decode (json_print (bump_json b)) = Ok b"
    by (rule bump_codec.Unmarshal_print)
  then show ?thesis by (simp only: NewBUMPFromJSON_def)
qed

theorem NewBUMPFromJSON_roundtrip_witness:
  "NewBUMPFromJSON (json_print (bump_json duplicate_first)) = Ok duplicate_first"
proof (rule NewBUMPFromJSON_roundtrip [of _ stable_sort "([], [])" 0])
  show "utf8_BUMP duplicate_first \<or> sort_Slice stable_sort \<and> NewBUMPFromStream stable_sort ([], []) = Ok (duplicate_first, 0)"
    by (simp add: duplicate_first_def utf8_BUMP_def utf8_leaf_def StringFromBytesReverse_def)
qed

definition one_leaf :: "leaf \<Rightarrow> BUMP" where
  "one_leaf l = \<lparr> bump_BlockHeight = 7, bump_Path = [[l]] \<rparr>"

text \<open>The JSON form is not checked. A leaf without fields is accepted, and \<open>Bytes\<close> panics on
  it; and a leaf with \<open>"duplicate": false\<close> is taken for a duplicate: \<open>Bytes\<close> sets the flag and
  leaves out the hash.\<close>

theorem NewBUMPFromJSON_unchecked:
  "NewBUMPFromJSON (json_print (bump_json (one_leaf zero_leaf))) = Ok (one_leaf zero_leaf) \<and>
   BUMP_Bytes (one_leaf zero_leaf) = Panic NilDereference \<and>
   (let l = zero_leaf\<lparr> lf_Offset := Some n, lf_Hash := Some (hex_EncodeToString h),
                       lf_Duplicate := Some False \<rparr>
    in NewBUMPFromJSON (json_print (bump_json (one_leaf l))) = Ok (one_leaf l) \<and>
       BUMP_Bytes (one_leaf l) = Ok (7 # 1 # 1 # VarInt_Bytes n @ [1]))"
proof -
  have "utf8_BUMP (one_leaf zero_leaf)"
    by (simp add: one_leaf_def utf8_BUMP_def utf8_leaf_def zero_leaf_def)
  note read = bump_codec.Unmarshal_print [OF this]
  let ?l = "zero_leaf\<lparr> lf_Offset := Some n, lf_Hash := Some (hex_EncodeToString h),
      lf_Duplicate := Some False \<rparr>"
  have "utf8_BUMP (one_leaf ?l)" by (simp add: one_leaf_def utf8_BUMP_def utf8_leaf_def)
  note read' = bump_codec.Unmarshal_print [OF this]
  have "BUMP_Bytes (one_leaf zero_leaf) = Panic NilDereference"
    "BUMP_Bytes (one_leaf ?l) = Ok (7 # 1 # 1 # VarInt_Bytes n @ [1])"
    by (simp_all add: one_leaf_def BUMP_Bytes_def level_Bytes_def leaf_Bytes_def zero_leaf_def
        VarInt_Bytes_def)
  then show ?thesis using read read' by (simp only: NewBUMPFromJSON_def Let_def)
qed

end
