(* ===== verification/Block_Codec.thy ===== *)
theory Block_Codec
  imports Block_Header Bt_Tx Go_Slices
begin

text \<open>
  \<open>block.go\<close>: a block is a header, a count and that many transactions. The header pointer of
  a \<open>Block\<close> is taken to be set, as every constructor sets it.
\<close>

record Block =
  bl_BlockHeader :: BlockHeader
  bl_Txs :: "Tx list"

definition Block_Bytes :: "Block \<Rightarrow> bytes" where
  "Block_Bytes b =
     BlockHeader_Bytes (bl_BlockHeader b) @
     VarInt_Bytes (of_nat (length (bl_Txs b))) @
     concat (map Tx_Bytes (bl_Txs b))"

definition Block_String :: "Block \<Rightarrow> string" where
  "Block_String b = hex_EncodeToString (Block_Bytes b)"

text \<open>\<open>tx, size, err := bt.NewTxFromStream(b[offset:]); offset += size\<close>: a transaction is read
  through an \<open>io.Reader\<close>, which ends where the slice ends.\<close>

definition read_block_tx :: "Tx cursor_reader" where
  "read_block_tx c =
     (if fst c < 0 then Panic SliceOutOfRange
      else bind_res (NewTxFromStream (take (nat (fst c)) (snd c))) (\<lambda>(tx, size).
        Ok (tx, fst c - int size, drop size (snd c))))"

text \<open>\<open>b[:80]\<close> is bounded by the capacity, \<open>b[80:]\<close> by the length. Bytes after the last transaction
  are ignored.\<close>

definition NewBlockFromBytes :: "slice \<Rightarrow> Block res" where
  "NewBlockFromBytes b =
     (if length (fst b) = 0 then Err (Msg ''block cannot be empty'')
      else
        bind_res (slice_take 80 (cursor_of b)) (\<lambda>(hb, c1).
        bind_res (NewBlockHeaderFromBytes hb) (\<lambda>bh.
        bind_res (slice_varint c1) (\<lambda>(txCount, c2).
        bind_res (slice_many read_block_tx (int_count txCount) c2) (\<lambda>(txs, _).
          Ok \<lparr> bl_BlockHeader = bh, bl_Txs = txs \<rparr>)))))"

definition NewBlockFromStr :: "bytes \<Rightarrow> string \<Rightarrow> Block res" where
  "NewBlockFromStr spare blockStr = bind_res (hex_DecodeSlice spare blockStr) NewBlockFromBytes"

section \<open>Round trip\<close>

definition wf_Block :: "Block \<Rightarrow> bool" where
  "wf_Block b \<longleftrightarrow>
     wf_BlockHeader (bl_BlockHeader b) \<and> list_all wf_Tx (bl_Txs b) \<and> length (bl_Txs b) < 2 ^ 63"

interpretation block_tx: slice_codec wf_Tx Tx_Bytes read_block_tx
proof
  fix t :: Tx and p s :: bytes
  have "nat (int (length (Tx_Bytes t)) + int (length p)) = length (Tx_Bytes t @ p)" by simp
  moreover assume "wf_Tx t"
  ultimately show "read_block_tx (cursor_of (Tx_Bytes t @ p, s)) = Ok (t, cursor_of (p, s))"
    by (simp add: read_block_tx_def cursor_of_def NewTxFromStream_Bytes)
qed

lemma NewBlockFromBytes_header:
  assumes "wf_BlockHeader bh"
  shows "NewBlockFromBytes (BlockHeader_Bytes bh @ r, s) =
    bind_res (slice_varint (cursor_of (r, s))) (\<lambda>(txCount, c).
    bind_res (slice_many read_block_tx (int_count txCount) c) (\<lambda>(txs, _).
      Ok \<lparr> bl_BlockHeader = bh, bl_Txs = txs \<rparr>))"
proof -
  have "BlockHeader_Bytes bh @ r \<noteq> []" using length_BlockHeader_Bytes [OF assms] by auto
  then show ?thesis
    using assms by (simp add: NewBlockFromBytes_def NewBlockHeaderFromBytes_Bytes)
qed

lemma NewBlockFromBytes_Bytes:
  assumes "wf_Block b"
  shows "NewBlockFromBytes (Block_Bytes b @ r, s) = Ok b"
  using assms
  by (cases b) (simp add: Block_Bytes_def wf_Block_def NewBlockFromBytes_header block_tx.slice_many_enc)

section \<open>Properties\<close>

text \<open>\<open>NewBlockFromBytes\<close> reads back the block \<open>Block.Bytes\<close> writes, whatever bytes
  follow it, in the slice or behind it, and \<open>NewBlockFromStr\<close> reads back \<open>Block.String\<close>.\<close>

theorem Block_roundtrip:
  assumes "wf_Block b"
  shows "NewBlockFromBytes (Block_Bytes b @ r, s) = Ok b \<and> NewBlockFromStr s (Block_String b) = Ok b"
  using NewBlockFromBytes_Bytes [OF assms, of r s] NewBlockFromBytes_Bytes [OF assms, of "[]" s]
  by (simp add: NewBlockFromStr_def Block_String_def)

definition sample_block :: Block where
  "sample_block = \<lparr> bl_BlockHeader = \<lparr> bh_Version = 1, bh_Time = 2, bh_Nonce = 3,
       bh_HashPrevBlock = replicate 32 4, bh_HashMerkleRoot = replicate 32 5, bh_Bits = replicate 4 6 \<rparr>,
     bl_Txs = [\<lparr> tx_Inputs = [\<lparr> in_previousTxID = replicate 32 0, in_PreviousTxSatoshis = 0,
         in_PreviousTxScript = None, in_UnlockingScript = Some [0x51], in_PreviousTxOutIndex = 0,
         in_SequenceNumber = 0 \<rparr>],
       tx_Outputs = [\<lparr> out_Satoshis = 50, out_LockingScript = [0x51] \<rparr>],
       tx_Version = 1, tx_LockTime = 0 \<rparr>] \<rparr>"

theorem Block_roundtrip_witness:
  "NewBlockFromBytes (Block_Bytes sample_block @ [7], [8]) = Ok sample_block"
proof -
  have "wf_Block sample_block"
    by (simp add: wf_Block_def sample_block_def wf_BlockHeader_def wf_Tx_def wf_Input_def
        wf_Output_def wf_script_def max_alloc_def)
  from Block_roundtrip [OF this, of "[7]" "[8]"] show ?thesis by simp
qed

text \<open>C30: whatever the bytes were, the header of a block that was read has 32-byte hashes and
  four bytes of bits and is the one in the first 80 bytes of the slice; every transaction is one the standard or the
  extended format represents; and a block of standard transactions is read back from the bytes it
  is written as.\<close>

theorem NewBlockFromBytes_typed:
  assumes "NewBlockFromBytes bs = Ok b"
  shows "wf_BlockHeader (bl_BlockHeader b) \<and> list_all (\<lambda>t. wf_Tx t \<or> wf_extended_Tx t) (bl_Txs b) \<and>
    80 < length (fst bs) \<and> take 80 (fst bs) = BlockHeader_Bytes (bl_BlockHeader b) \<and>
    (list_all wf_Tx (bl_Txs b) \<longrightarrow> NewBlockFromBytes (Block_Bytes b @ r, s) = Ok b)"
proof -
  from assms obtain hb c1 n c2 c3 where hb: "slice_take 80 (cursor_of bs) = Ok (hb, c1)"
    "NewBlockHeaderFromBytes hb = Ok (bl_BlockHeader b)" and count: "slice_varint c1 = Ok (n, c2)"
    and txs: "slice_many read_block_tx (int_count n) c2 = Ok (bl_Txs b, c3)"
    by (auto simp: NewBlockFromBytes_def go_simps split: if_splits)
  have "list_all (\<lambda>t. wf_Tx t \<or> wf_extended_Tx t) (bl_Txs b)"
    by (rule slice_many_all [OF _ txs])
      (auto simp: read_block_tx_def NewTxFromStream_def go_simps dest: Tx_ReadFrom_typed split: if_splits)
  moreover have "length (bl_Txs b) < 2 ^ 63" 
    using slice_many_OkD [OF txs] int_count_less [of n] by simp
  moreover have "80 < length (fst bs)"
    using hb(1) count by (auto simp: slice_take_def slice_varint_def fst_cursor_of go_simps split: if_splits)
  moreover from this have "hb = take 80 (fst bs)"
    using hb(1) by (auto simp: slice_take_def take_bytes_def cursor_of_def split: if_splits)
  ultimately show ?thesis using NewBlockHeaderFromBytes_OkD [OF hb(2)] NewBlockFromBytes_Bytes [of b r s]
    by (simp add: wf_Block_def)
qed
theorem NewBlockFromBytes_typed_witness:
  "wf_BlockHeader (bl_BlockHeader sample_block) \<and>
     NewBlockFromBytes (Block_Bytes sample_block @ [7], [8]) = Ok sample_block"
proof -
  have wf: "wf_Block sample_block"
    by (simp add: wf_Block_def sample_block_def wf_BlockHeader_def wf_Tx_def wf_Input_def
        wf_Output_def wf_script_def max_alloc_def)
  from NewBlockFromBytes_typed [OF NewBlockFromBytes_Bytes [OF wf, of "[]" "[]"], of "[7]" "[8]"] wf
  show ?thesis by (simp add: wf_Block_def)
qed

text \<open>A transaction count of \<open>2^63\<close> or more is negative as an \<open>int\<close>: the loop does not
  run and \<open>NewBlockFromBytes\<close> returns a block without transactions and no error.\<close>

theorem NewBlockFromBytes_negative_count:
  assumes "wf_BlockHeader bh" "2 ^ 63 \<le> unat txCount"
  shows "NewBlockFromBytes (BlockHeader_Bytes bh @ VarInt_Bytes txCount @ r, s) =
    Ok \<lparr> bl_BlockHeader = bh, bl_Txs = [] \<rparr>"
  using assms by (simp add: NewBlockFromBytes_header int_count_big)

theorem NewBlockFromBytes_negative_count_witness:
  "NewBlockFromBytes (BlockHeader_Bytes (bl_BlockHeader sample_block) @
     VarInt_Bytes (2 ^ 63) @ [1, 2, 3], []) =
   Ok \<lparr> bl_BlockHeader = bl_BlockHeader sample_block, bl_Txs = [] \<rparr>"
  using NewBlockFromBytes_negative_count [of "bl_BlockHeader sample_block" "2 ^ 63" "[1, 2, 3]" "[]"]
  by (simp add: sample_block_def wf_BlockHeader_def)

end
