(* ===== verification/Coinbase.thy ===== *)
theory Coinbase
  imports Target Bt_Tx
begin

text \<open>
  \<open>coinbase.go\<close>: the two halves of a coinbase transaction around the extra nonces, with the
  parts of \<open>go-bt\<close> and \<open>go-bk\<close> (vendored) it calls: base58 addresses and P2PKH scripts.
\<close>

section \<open>Base58 and P2PKH scripts\<close>

definition base58_alphabet :: string where
  "base58_alphabet = ''123456789ABCDEFGHJKLMNPQRSTUVWXYZabcdefghijkmnopqrstuvwxyz''"

text \<open>The table \<open>b58\<close>: the position in the alphabet, 255 for other characters.\<close>

fun index_of :: "char \<Rightarrow> string \<Rightarrow> nat option" where
  "index_of c [] = None"
| "index_of c (x # xs) = (if c = x then Some 0 else map_option Suc (index_of c xs))"

definition b58 :: "char \<Rightarrow> nat" where
  "b58 c = (case index_of c base58_alphabet of None \<Rightarrow> 255 | Some i \<Rightarrow> i)"

text \<open>The loop from the last character to the first, with \<open>j\<close> the weight of the next one.\<close>

fun base58_loop :: "string \<Rightarrow> nat \<Rightarrow> nat \<Rightarrow> nat option" where
  "base58_loop [] j answer = Some answer"
| "base58_loop (c # cs) j answer =
     (let tmp = b58 c
      in if tmp = 255 then None else base58_loop cs (j * 58) (answer + j * tmp))"

definition base58_Decode :: "string \<Rightarrow> bytes" where
  "base58_Decode b =
     (case base58_loop (rev b) 1 0 of
        None \<Rightarrow> []
      | Some answer \<Rightarrow>
          let tmpval = nat_Bytes answer; numZeros = length (takeWhile (\<lambda>c. c = CHR ''1'') b)
          in replicate numZeros 0 @ tmpval)"

text \<open>The checksum, the last four bytes, is cut off and not compared.\<close>

definition addressToPubKeyHashStr :: "string \<Rightarrow> string res" where
  "addressToPubKeyHashStr address =
     (let decoded = base58_Decode address in
      if length decoded \<noteq> 25 then
        Err (WrapErr (Msg ''invalid address length'') ('' for '' @ address))
      else if decoded ! 0 = 0x00 \<or> decoded ! 0 = 0x6f then
        Ok (hex_EncodeToString (take (length decoded - 5) (drop 1 decoded)))
      else Err (WrapErr (Msg ''address not supported'') address))"

definition PushDataPrefix :: "bytes \<Rightarrow> bytes res" where
  "PushDataPrefix data =
     (let l = length data in
      if l \<le> 75 then Ok [of_nat l]
      else if l \<le> 0xFF then Ok [0x4c, of_nat l]
      else if l \<le> 0xFFFF then Ok (0x4d # le16 (of_nat l))
      else if l \<le> 0xFFFFFFFF then Ok (0x4e # le32 (of_nat l))
      else Err (Msg ''data too big''))"

definition NewP2PKHFromAddress :: "string \<Rightarrow> bytes res" where
  "NewP2PKHFromAddress addr =
     bind_res (addressToPubKeyHashStr addr) (\<lambda>pkh.
     bind_res (hex_DecodeString pkh) (\<lambda>publicKeyHashBytes.
     bind_res (PushDataPrefix publicKeyHashBytes) (\<lambda>pd.
       Ok ([0x76, 0xa9] @ (pd @ publicKeyHashBytes) @ [0x88, 0xac]))))"

section \<open>coinbase.go\<close>

definition BuildCoinbase :: "bytes \<Rightarrow> bytes \<Rightarrow> string \<Rightarrow> string \<Rightarrow> bytes" where
  "BuildCoinbase c1 c2 extraNonce1 extraNonce2 =
     (let e1 = fst (hexDecode extraNonce1); e2 = fst (hexDecode extraNonce2)
      in c1 @ e1 @ e2 @ c2)"

definition makeCoinbaseOutputTransactions :: "u64 \<Rightarrow> string \<Rightarrow> string \<Rightarrow> bytes \<Rightarrow> bytes res" where
  "makeCoinbaseOutputTransactions coinbaseValue defaultWitnessCommitment wallet minerIDBytes =
     bind_res (NewP2PKHFromAddress wallet) (\<lambda>lockingScript.
       let buf = le64 coinbaseValue @ VarInt_Bytes (of_nat (length lockingScript)) @ lockingScript in
       bind_res
         (if defaultWitnessCommitment \<noteq> '''' then
            bind_res (hex_DecodeString defaultWitnessCommitment) (\<lambda>wc.
              Ok (2, buf @ replicate 8 0 @ VarInt_Bytes (of_nat (length wc)) @ wc))
          else Ok (1, buf)) (\<lambda>(numberOfTransactions, buf).
       let (numberOfTransactions, buf) =
             (if length minerIDBytes > 0 then
                (numberOfTransactions + 1,
                 buf @ replicate 8 0 @ VarInt_Bytes (of_nat (length minerIDBytes)) @ minerIDBytes)
              else (numberOfTransactions, buf))
       in Ok (VarInt_Bytes numberOfTransactions @ buf)))"

definition spaceForExtraNonce :: nat where
  "spaceForExtraNonce = 12"

text \<open>The text is the bytes of a Go string. Only the low three bytes of the height are used.\<close>

definition coinbase_data :: "u32 \<Rightarrow> string \<Rightarrow> bytes" where
  "coinbase_data height coinbaseText =
     (let arbitraryData = 0x03 # take 3 (le32 height) @ map of_char coinbaseText
      in if length arbitraryData > 100 - spaceForExtraNonce
         then take (100 - spaceForExtraNonce) arbitraryData else arbitraryData)"

definition makeCoinbase1 :: "u32 \<Rightarrow> string \<Rightarrow> bytes" where
  "makeCoinbase1 height coinbaseText =
     (let arbitraryData = coinbase_data height coinbaseText
      in le32 1 @ [0x01] @ replicate 32 0 @ [0xff, 0xff, 0xff, 0xff] @
         VarInt_Bytes (of_nat (length arbitraryData + spaceForExtraNonce)) @ arbitraryData)"

definition makeCoinbase2 :: "bytes \<Rightarrow> bytes" where
  "makeCoinbase2 ot = [0xff, 0xff, 0xff, 0xff] @ ot @ replicate 4 0"

text \<open>On an error the first half, already assigned, is returned with it.\<close>

definition GetCoinbaseParts ::
  "u32 \<Rightarrow> u64 \<Rightarrow> string \<Rightarrow> string \<Rightarrow> string \<Rightarrow> bytes \<Rightarrow> (bytes \<times> bytes \<times> go_error option) res" where
  "GetCoinbaseParts height coinbaseValue defaultWitnessCommitment coinbaseText walletAddress minerIDBytes =
     (let coinbase1 = makeCoinbase1 height coinbaseText in
      on_err (makeCoinbaseOutputTransactions coinbaseValue defaultWitnessCommitment walletAddress
                minerIDBytes)
        (\<lambda>err. Ok (coinbase1, [], Some err))
        (\<lambda>ot. Ok (coinbase1, makeCoinbase2 ot, None)))"

section \<open>The recombined transaction\<close>

definition p2pkh_script :: "bytes \<Rightarrow> bytes" where
  "p2pkh_script pkh = [0x76, 0xa9, 0x14] @ pkh @ [0x88, 0xac]"

definition coinbase_input :: "bytes \<Rightarrow> Input" where
  "coinbase_input script =
     \<lparr> in_previousTxID = replicate 32 0, in_PreviousTxSatoshis = 0, in_PreviousTxScript = None,
       in_UnlockingScript = Some script, in_PreviousTxOutIndex = 0xffffffff,
       in_SequenceNumber = 0xffffffff \<rparr>"

definition coinbase_outputs :: "u64 \<Rightarrow> bytes \<Rightarrow> bytes \<Rightarrow> bytes \<Rightarrow> Output list" where
  "coinbase_outputs coinbaseValue script wc minerIDBytes =
     \<lparr> out_Satoshis = coinbaseValue, out_LockingScript = script \<rparr> #
     (if wc = [] then [] else [\<lparr> out_Satoshis = 0, out_LockingScript = wc \<rparr>]) @
     (if minerIDBytes = [] then [] else [\<lparr> out_Satoshis = 0, out_LockingScript = minerIDBytes \<rparr>])"

definition coinbase_tx :: "u32 \<Rightarrow> u64 \<Rightarrow> bytes \<Rightarrow> string \<Rightarrow> bytes \<Rightarrow> bytes \<Rightarrow> bytes \<Rightarrow> Tx" where
  "coinbase_tx height coinbaseValue wc coinbaseText pkh minerIDBytes extraNonce =
     \<lparr> tx_Inputs = [coinbase_input (coinbase_data height coinbaseText @ extraNonce)],
       tx_Outputs = coinbase_outputs coinbaseValue (p2pkh_script pkh) wc minerIDBytes,
       tx_Version = 1, tx_LockTime = 0 \<rparr>"

lemma addressToPubKeyHashStr_OkD:
  "addressToPubKeyHashStr addr = Ok pkh \<Longrightarrow> \<exists>h. pkh = hex_EncodeToString h \<and> length h = 20"
  by (auto simp: addressToPubKeyHashStr_def Let_def split: if_splits)

lemma NewP2PKHFromAddress_script:
  assumes "addressToPubKeyHashStr addr = Ok (hex_EncodeToString pkh)"
  shows "NewP2PKHFromAddress addr = Ok (p2pkh_script pkh)" and "length pkh = 20"
proof -
  show "length pkh = 20" using addressToPubKeyHashStr_OkD [OF assms] by auto
  with assms show "NewP2PKHFromAddress addr = Ok (p2pkh_script pkh)"
    by (simp add: NewP2PKHFromAddress_def PushDataPrefix_def p2pkh_script_def)
qed

lemma le64_0: "le64 0 = replicate 8 0"
  by code_simp

lemma le32_consts: "le32 0 = replicate 4 0" "le32 0xffffffff = [0xff, 0xff, 0xff, 0xff]"
  by code_simp+

lemma length_coinbase_data: "length (coinbase_data height msg) \<le> 88"
  by (simp add: coinbase_data_def Let_def spaceForExtraNonce_def)

lemma concat_Output_Bytes_outputs:
  "VarInt_Bytes (of_nat (length (coinbase_outputs v s wc m))) @
     concat (map Output_Bytes (coinbase_outputs v s wc m)) =
   VarInt_Bytes (1 + (if wc = [] then 0 else 1) + (if m = [] then 0 else 1)) @
     le64 v @ VarInt_Bytes (of_nat (length s)) @ s @
     (if wc = [] then [] else replicate 8 0 @ VarInt_Bytes (of_nat (length wc)) @ wc) @
     (if m = [] then [] else replicate 8 0 @ VarInt_Bytes (of_nat (length m)) @ m)"
  by (simp add: coinbase_outputs_def Output_Bytes_def le64_0)

lemma makeCoinbaseOutputTransactions_bytes:
  assumes "addressToPubKeyHashStr wallet = Ok (hex_EncodeToString pkh)"
    and "valid_hex commitment"
  shows "makeCoinbaseOutputTransactions v commitment wallet m =
    (let outs = coinbase_outputs v (p2pkh_script pkh) (fst (hexDecode commitment)) m
     in Ok (VarInt_Bytes (of_nat (length outs)) @ concat (map Output_Bytes outs)))"
proof -
  have "fst (hexDecode commitment) = [] \<longleftrightarrow> commitment = ''''"
    using length_hexDecode_valid [OF assms(2)] by (metis list.size(3) length_0_conv mult_eq_0_iff zero_neq_numeral)
  then show ?thesis
    unfolding Let_def concat_Output_Bytes_outputs
    using NewP2PKHFromAddress_script [OF assms(1)] assms(2)
    by (cases "commitment = ''''"; cases "m = []")
      (simp_all add: makeCoinbaseOutputTransactions_def hex_DecodeString_valid Let_def)
qed

lemma BuildCoinbase_Tx_Bytes:
  assumes "addressToPubKeyHashStr wallet = Ok (hex_EncodeToString pkh)"
    and "valid_hex commitment"
    and "length (fst (hexDecode e1) @ fst (hexDecode e2)) = 12"
    and "makeCoinbaseOutputTransactions v commitment wallet m = Ok ot"
  shows "BuildCoinbase (makeCoinbase1 height msg) (makeCoinbase2 ot) e1 e2 =
    Tx_Bytes (coinbase_tx height v (fst (hexDecode commitment)) msg pkh m
      (fst (hexDecode e1) @ fst (hexDecode e2)))"
proof -
  let ?outs = "coinbase_outputs v (p2pkh_script pkh) (fst (hexDecode commitment)) m"
  have ot: "ot = VarInt_Bytes (of_nat (length ?outs)) @ concat (map Output_Bytes ?outs)"
    using makeCoinbaseOutputTransactions_bytes [OF assms(1,2)] assms(4) by (simp add: Let_def)
  have "VarInt_Bytes 1 = [1]" by (simp add: VarInt_Bytes_def)
  with assms(3) show ?thesis
    by (simp add: ot BuildCoinbase_def makeCoinbase1_def makeCoinbase2_def coinbase_tx_def Tx_Bytes_def
        Let_def coinbase_input_def Input_Bytes_def le32_consts spaceForExtraNonce_def add.assoc)
qed

lemma wf_coinbase_tx:
  assumes "length pkh = 20" "length wc \<le> max_alloc" "length m \<le> max_alloc" "length e = 12"
  shows "wf_Tx (coinbase_tx height v wc msg pkh m e)"
  using assms length_coinbase_data [of height msg]
  by (simp add: wf_Tx_def coinbase_tx_def coinbase_input_def wf_Input_def wf_script_def
      coinbase_outputs_def wf_Output_def p2pkh_script_def max_alloc_def)

section \<open>Properties\<close>

text \<open>C29: the coinbase that \<open>BuildCoinbase\<close> recombines from the halves of
  \<open>GetCoinbaseParts\<close> and two extra nonces of 12 bytes in all is the serialisation of the
  intended transaction, which \<open>bt.NewTxFromBytes\<close> reads back: version 1, one input with the
  null outpoint whose script is the height, the text and the nonces (at most 100 bytes),
  outputs for the wallet's public key hash, the witness commitment and the miner id, lock
  time 0.\<close>

theorem BuildCoinbase_spec:
  assumes "addressToPubKeyHashStr wallet = Ok (hex_EncodeToString pkh)" "valid_hex commitment"
    and "length (fst (hexDecode e1) @ fst (hexDecode e2)) = 12"
    and "length commitment \<le> max_alloc" "length minerID \<le> max_alloc"
  shows "\<exists>c1 c2. GetCoinbaseParts height v commitment msg wallet minerID = Ok (c1, c2, None) \<and>
    NewTxFromBytes (BuildCoinbase c1 c2 e1 e2) =
    Ok (coinbase_tx height v (fst (hexDecode commitment)) msg pkh minerID
      (fst (hexDecode e1) @ fst (hexDecode e2))) \<and>
    length (coinbase_data height msg @ fst (hexDecode e1) @ fst (hexDecode e2)) \<le> 100"
proof -
  obtain ot where ot: "makeCoinbaseOutputTransactions v commitment wallet minerID = Ok ot"
    using makeCoinbaseOutputTransactions_bytes [OF assms(1,2)] by (simp add: Let_def)
  have "length (fst (hexDecode commitment)) \<le> max_alloc"
    using length_hexDecode_valid [OF assms(2)] assms(4) by simp
  with assms(3,5) have "wf_Tx (coinbase_tx height v (fst (hexDecode commitment)) msg pkh minerID
      (fst (hexDecode e1) @ fst (hexDecode e2)))"
    using NewP2PKHFromAddress_script(2) [OF assms(1)] by (intro wf_coinbase_tx) simp_all
  then have "NewTxFromBytes (BuildCoinbase (makeCoinbase1 height msg) (makeCoinbase2 ot) e1 e2) =
      Ok (coinbase_tx height v (fst (hexDecode commitment)) msg pkh minerID
        (fst (hexDecode e1) @ fst (hexDecode e2)))"
    by (simp only: BuildCoinbase_Tx_Bytes [OF assms(1-3) ot] NewTxFromBytes_Bytes)
  moreover have "length (coinbase_data height msg @ fst (hexDecode e1) @ fst (hexDecode e2)) \<le> 100"
    using length_coinbase_data [of height msg] assms(3) by simp
  ultimately show ?thesis by (simp add: GetCoinbaseParts_def Let_def ot)
qed

lemma address_sample:
  "addressToPubKeyHashStr ''1BitcoinEaterAddressDontSendf59kuE'' =
     Ok (hex_EncodeToString [0x75, 0x9d, 0x66, 0x77, 0x09, 0x1e, 0x97, 0x3b, 0x9e, 0x9d, 0x99, 0xf1,
       0x9c, 0x68, 0xfb, 0xf4, 0x3e, 0x3f, 0x05, 0xf9])"
  by (simp add: addressToPubKeyHashStr_def base58_Decode_def Let_def b58_def base58_alphabet_def
      nat_Bytes.simps)

theorem BuildCoinbase_spec_witness:
  "\<exists>c1 c2 tx. GetCoinbaseParts 518847 2504275756 '''' ''/text/'' ''1BitcoinEaterAddressDontSendf59kuE'' [1] =
      Ok (c1, c2, None) \<and>
    NewTxFromBytes (BuildCoinbase c1 c2 (replicate 12 CHR ''0'') (replicate 12 CHR ''0'')) = Ok tx \<and>
    length (tx_Outputs tx) = 2"
proof -
  have e: "hexDecode (replicate 12 CHR ''0'') = (replicate 6 0, None)"
    by (simp add: from_hex_char_def numeral_eq_Suc)
  have "length (fst (hexDecode (replicate 12 CHR ''0'')) @ fst (hexDecode (replicate 12 CHR ''0''))) = 12"
    by (simp add: e)
  from BuildCoinbase_spec [OF address_sample, of "''''" "replicate 12 CHR ''0''" "replicate 12 CHR ''0''"
      "[1]" 518847 2504275756 "''/text/''"] this
  show ?thesis by (auto simp: max_alloc_def coinbase_tx_def coinbase_outputs_def valid_hex_def)
qed

end
