(* ===== verification/Go_Float.thy ===== *)
theory Go_Float
  imports Complex_Main "HOL-Library.Log_Nat" Var_Int
begin

text \<open>
  The \<open>float64\<close> of Go: IEEE 754 double precision with rounding to the nearest value, ties to
  the even mantissa. A finite value is a sign, a mantissa and an exponent, and every operation
  rounds the exact result once; all computations are on natural numbers. \<open>valof\<close> is the real
  number a value stands for, and the lemmas state how far rounding may be from the exact result.
\<close>

datatype float64 = NaN | Inf (f_neg: bool) | Fin (f_neg: bool) (f_mant: nat) (f_exp: int)

definition wf_float :: "float64 \<Rightarrow> bool" where
  "wf_float x = (case x of Fin s m e \<Rightarrow> m < 2 ^ 53 \<and> - 1074 \<le> e \<and> e \<le> 971 \<and> (2 ^ 52 \<le> m \<or> e = - 1074)
     | _ \<Rightarrow> True)"

definition finite_float :: "float64 \<Rightarrow> bool" where
  "finite_float x = (case x of Fin s m e \<Rightarrow> True | _ \<Rightarrow> False)"

definition valof :: "float64 \<Rightarrow> real" where
  "valof x = (case x of Fin s m e \<Rightarrow> (if s then - 1 else 1) * (real m * 2 powi e) | _ \<Rightarrow> 0)"

section \<open>Rounding\<close>

text \<open>The integer nearest to \<open>n / d\<close>.\<close>

definition round_half_even :: "nat \<Rightarrow> nat \<Rightarrow> nat" where
  "round_half_even n d =
     (let q = n div d; r = n mod d in if 2 * r < d \<or> (2 * r = d \<and> even q) then q else q + 1)"

text \<open>The fraction \<open>n / d\<close> divided by \<open>2 ^ e\<close>.\<close>

definition ratio_at :: "int \<Rightarrow> nat \<Rightarrow> nat \<Rightarrow> nat \<times> nat" where
  "ratio_at e n d = (if 0 \<le> e then (n, d * 2 ^ nat e) else (n * 2 ^ nat (- e), d))"

definition round_at :: "int \<Rightarrow> nat \<Rightarrow> nat \<Rightarrow> nat" where
  "round_at e n d = (case ratio_at e n d of (n', d') \<Rightarrow> round_half_even n' d')"

definition log2_ratio :: "nat \<Rightarrow> nat \<Rightarrow> int" where
  "log2_ratio n d =
     (let k = int (floorlog 2 n) - int (floorlog 2 d) in
      case ratio_at k n d of (n', d') \<Rightarrow> if d' \<le> n' then k else k - 1)"

text \<open>The double nearest to \<open>n / d\<close>, an infinity beyond the largest double.\<close>

definition round64 :: "bool \<Rightarrow> nat \<Rightarrow> nat \<Rightarrow> float64" where
  "round64 s n d =
     (if n = 0 then Fin s 0 (- 1074)
      else let e = max (- 1074) (log2_ratio n d - 52); m = round_at e n d in
        if 971 < e then Inf s
        else if m = 2 ^ 53 then (if e = 971 then Inf s else Fin s (2 ^ 52) (e + 1))
        else Fin s m e)"

lemma round_half_even_error:
  assumes "0 < d"
  shows "\<bar>real (round_half_even n d) - real n / real d\<bar> \<le> 1 / 2"
proof -
  have "real n = real d * real (n div d) + real (n mod d)"
    by (simp flip: of_nat_mult of_nat_add)
  then have n: "real n / real d = real (n div d) + real (n mod d) / real d"
    using assms by (simp add: field_simps)
  have "n mod d < d" using assms by simp
  then have r: "0 \<le> real (n mod d) / real d" "real (n mod d) / real d < 1" using assms by simp_all
  show ?thesis
  proof (cases "2 * (n mod d) < d \<or> (2 * (n mod d) = d \<and> even (n div d))")
    case True
    then have "2 * real (n mod d) \<le> real d" by linarith
    then have "real (n mod d) / real d \<le> 1 / 2" using assms by (simp add: field_simps)
    with True n r show ?thesis by (simp add: round_half_even_def)
  next
    case False
    then have "d \<le> 2 * (n mod d)" by linarith
    then have "real d \<le> 2 * real (n mod d)" by linarith
    then have "1 / 2 \<le> real (n mod d) / real d" using assms by (simp add: field_simps)
    with False n r assms show ?thesis by (simp add: round_half_even_def Let_def)
  qed
qed

text \<open>An integer is no nearer to \<open>n / d\<close> than the rounded one.\<close>

lemma round_half_even_nearest:
  fixes k :: int
  assumes "0 < d"
  shows "\<bar>real (round_half_even n d) - real n / real d\<bar> \<le> \<bar>of_int k - real n / real d\<bar>"
proof (cases "k = int (round_half_even n d)")
  case False
  then have "1 \<le> \<bar>of_int k - real (round_half_even n d)\<bar>" by linarith
  with round_half_even_error [OF assms, of n] show ?thesis by linarith
qed simp

lemma round_half_even_mono:
  assumes "0 < d" "0 < d'" "real n / real d \<le> real n' / real d'"
  shows "round_half_even n d \<le> round_half_even n' d'"
proof (rule ccontr)
  assume less: "\<not> round_half_even n d \<le> round_half_even n' d'"
  note e = round_half_even_error [OF assms(1), of n] round_half_even_error [OF assms(2), of n']
  from less have "real (round_half_even n' d') + 1 \<le> real (round_half_even n d)" by linarith
  with e assms(3) have half: "real n / real d = real (round_half_even n' d') + 1 / 2"
    "real n' / real d' = real (round_half_even n' d') + 1 / 2"
    "round_half_even n d = round_half_even n' d' + 1"
    by linarith+
  have tie: "even (round_half_even a b)" if "0 < b" "real a / real b = real q + 1 / 2" for a b q
  proof -
    from that have "real (2 * a) = real ((2 * q + 1) * b)" by (simp add: field_simps)
    then have ab: "2 * a = (2 * q + 1) * b" by (rule of_nat_eq_iff [THEN iffD1])
    have "even ((2 * q + 1) * b)" unfolding ab [symmetric] by simp
    then have "even b" by simp
    then obtain c where c: "b = 2 * c" by blast
    with ab have a: "a = q * b + c" by (simp add: algebra_simps)
    with that(1) c have "a div b = q" "a mod b = c" by auto
    with c that(1) show ?thesis by (simp add: round_half_even_def)
  qed
  from tie [OF assms(1) half(1)] tie [OF assms(2) half(2)] half(3) show False by simp
qed


lemma div_powi_le [simp]: "x / 2 powi e \<le> c \<longleftrightarrow> x \<le> c * 2 powi e" for x c :: real
  by (simp add: pos_divide_le_eq)

lemma le_div_powi [simp]: "c \<le> x / 2 powi e \<longleftrightarrow> c * 2 powi e \<le> x" for x c :: real
  by (simp add: pos_le_divide_eq)

lemma div_powi_less [simp]: "x / 2 powi e < c \<longleftrightarrow> x < c * 2 powi e" for x c :: real
  by (simp add: pos_divide_less_eq)

lemma powi_shift: "(2 :: real) powi (int k + e) = 2 ^ k * 2 powi e"
  by (simp add: power_int_add)

lemma ratio_at_value:
  assumes "0 < d" "ratio_at e n d = (n', d')"
  shows "0 < d' \<and> real n' / real d' = real n / real d / 2 powi e"
  using assms by (auto simp: ratio_at_def power_int_def field_simps split: if_splits)

lemma round_at_error:
  assumes "0 < d"
  shows "\<bar>real (round_at e n d) - real n / real d / 2 powi e\<bar> \<le> 1 / 2"
proof (cases "ratio_at e n d")
  case (Pair n' d')
  with ratio_at_value [OF assms this] round_half_even_error [of d' n'] show ?thesis
    by (simp add: round_at_def)
qed

lemma round_at_nearest:
  fixes k :: int
  assumes "0 < d"
  shows "\<bar>real (round_at e n d) - real n / real d / 2 powi e\<bar> \<le> \<bar>of_int k - real n / real d / 2 powi e\<bar>"
proof (cases "ratio_at e n d")
  case (Pair n' d')
  with ratio_at_value [OF assms this] round_half_even_nearest [of d' n' k] show ?thesis
    by (simp add: round_at_def)
qed

lemma round_at_mono:
  assumes "0 < d" "0 < d'" "real n / real d \<le> real n' / real d'"
  shows "round_at e n d \<le> round_at e n' d'"
proof (cases "ratio_at e n d"; cases "ratio_at e n' d'")
  fix a b a' b' assume r: "ratio_at e n d = (a, b)" "ratio_at e n' d' = (a', b')"
  have "real n / real d / 2 powi e \<le> real n' / real d' / 2 powi e"
    using assms(3) by (intro divide_right_mono) simp_all
  with ratio_at_value [OF assms(1) r(1)] ratio_at_value [OF assms(2) r(2)]
  show ?thesis by (auto simp: round_at_def r intro!: round_half_even_mono)
qed

lemma round_at_bounds:
  fixes l u :: nat
  assumes "0 < d"
  shows "real l \<le> real n / real d / 2 powi e \<Longrightarrow> l \<le> round_at e n d"
    and "real n / real d / 2 powi e \<le> real u \<Longrightarrow> round_at e n d \<le> u"
  using round_at_error [OF assms, of e n] by linarith+

lemma floorlog_real:
  assumes "0 < n"
  shows "2 powi (int (floorlog 2 n) - 1) \<le> real n" "real n < 2 powi int (floorlog 2 n)"
proof -
  have b: "2 ^ (floorlog 2 n - 1) \<le> n" "n < 2 ^ floorlog 2 n"
    using floorlog_bounds [of n 2] assms by simp_all
  have "0 < floorlog 2 n" using b(2) assms by (cases "floorlog 2 n") auto
  then have l: "int (floorlog 2 n) - 1 = int (floorlog 2 n - 1)" by simp
  have "real (2 ^ (floorlog 2 n - 1)) \<le> real n" using b(1) by (rule of_nat_mono)
  then show "2 powi (int (floorlog 2 n) - 1) \<le> real n" by (simp add: l)
  have "real n < real (2 ^ floorlog 2 n)" using b(2) by (rule of_nat_less_iff [THEN iffD2])
  then show "real n < 2 powi int (floorlog 2 n)" by simp
qed

lemma log2_ratio_bounds:
  assumes "0 < n" "0 < d"
  shows "2 powi log2_ratio n d \<le> real n / real d" "real n / real d < 2 powi (log2_ratio n d + 1)"
proof -
  define k where "k = int (floorlog 2 n) - int (floorlog 2 d)"
  note fn = floorlog_real [OF assms(1)] and fd = floorlog_real [OF assms(2)]
  have "real n / real d < 2 powi int (floorlog 2 n) / 2 powi (int (floorlog 2 d) - 1)"
    using fn fd assms by (intro frac_less) simp_all
  also have "\<dots> = 2 powi (int (floorlog 2 n) - (int (floorlog 2 d) - 1))"
    by (rule power_int_diff [symmetric]) simp
  also have "int (floorlog 2 n) - (int (floorlog 2 d) - 1) = k + 1" by (simp add: k_def)
  finally have hi: "real n / real d < 2 powi (k + 1)" .
  have "k - 1 = (int (floorlog 2 n) - 1) - int (floorlog 2 d)" by (simp add: k_def)
  then have "2 powi (k - 1) = (2 :: real) powi (int (floorlog 2 n) - 1) / 2 powi int (floorlog 2 d)"
    by (simp only:) (rule power_int_diff, simp)
  also have "\<dots> \<le> real n / real d"
    using fn fd assms by (intro frac_le) simp_all
  finally have lo: "2 powi (k - 1) \<le> real n / real d" .
  obtain n' d' where r: "ratio_at k n d = (n', d')" by fastforce
  have v: "0 < d'" "real n' / real d' = real n / real d / 2 powi k"
    using ratio_at_value [OF assms(2) r] by simp_all
  have "d' \<le> n' \<longleftrightarrow> 1 \<le> real n' / real d'" using v(1) by (simp add: field_simps)
  also have "\<dots> \<longleftrightarrow> 2 powi k \<le> real n / real d" unfolding v(2) by (simp del: divide_divide_eq_left)
  finally have "log2_ratio n d = (if 2 powi k \<le> real n / real d then k else k - 1)"
    by (simp add: log2_ratio_def k_def [symmetric] r Let_def)
  with hi lo show "2 powi log2_ratio n d \<le> real n / real d"
    "real n / real d < 2 powi (log2_ratio n d + 1)"
    by (auto split: if_splits)
qed


text \<open>The exponent of the result: that of the fraction, but not below the subnormal one.\<close>

definition round_exp :: "nat \<Rightarrow> nat \<Rightarrow> int" where
  "round_exp n d = max (- 1074) (log2_ratio n d - 52)"

lemma round64_unfold:
  "0 < n \<Longrightarrow> round64 s n d =
     (if 971 < round_exp n d then Inf s
      else if round_at (round_exp n d) n d = 2 ^ 53 then
        (if round_exp n d = 971 then Inf s else Fin s (2 ^ 52) (round_exp n d + 1))
      else Fin s (round_at (round_exp n d) n d) (round_exp n d))"
  by (simp only: round64_def round_exp_def Let_def) simp

lemma round_exp_bounds:
  assumes "0 < n" "0 < d"
  shows "real n / real d / 2 powi round_exp n d \<le> 2 ^ 53"
    and "- 1074 < round_exp n d \<Longrightarrow> 2 ^ 52 \<le> real n / real d / 2 powi round_exp n d"
proof -
  note b = log2_ratio_bounds [OF assms]
  have shift: "(2 :: real) powi (round_exp n d + int k) = 2 ^ k * 2 powi round_exp n d" for k
    by (simp add: power_int_add)
  have "real n / real d \<le> 2 powi (log2_ratio n d + 1)" using b(2) by simp
  also have "\<dots> \<le> 2 powi (round_exp n d + int 53)"
    by (intro power_int_increasing) (auto simp: round_exp_def)
  finally show "real n / real d / 2 powi round_exp n d \<le> 2 ^ 53"
    unfolding shift div_powi_le .
  assume "- 1074 < round_exp n d"
  then have "log2_ratio n d = round_exp n d + int 52" by (simp add: round_exp_def)
  with b(1) have "2 powi (round_exp n d + int 52) \<le> real n / real d" by simp
  then show "2 ^ 52 \<le> real n / real d / 2 powi round_exp n d"
    unfolding shift le_div_powi .
qed

lemma round_mantissa:
  assumes "0 < n" "0 < d"
  shows "round_at (round_exp n d) n d \<le> 2 ^ 53"
    and "- 1074 < round_exp n d \<Longrightarrow> 2 ^ 52 \<le> round_at (round_exp n d) n d"
  using round_exp_bounds [OF assms] round_at_bounds(1) [OF assms(2), of "2 ^ 52" n "round_exp n d"]
    round_at_bounds(2) [OF assms(2), of n "round_exp n d" "2 ^ 53"] by simp_all

text \<open>A finite result is the fraction rounded to a multiple of \<open>2 ^ round_exp n d\<close>.\<close>

lemma round64_Fin:
  assumes "0 < n" "0 < d" "round64 s n d = Fin s' m e"
  shows "s' = s" "wf_float (Fin s' m e)"
    and "real m * 2 powi e = real (round_at (round_exp n d) n d) * 2 powi round_exp n d"
proof -
  have e: "- 1074 \<le> round_exp n d" by (simp add: round_exp_def)
  show "s' = s" using assms by (simp add: round64_unfold split: if_splits)
  show "wf_float (Fin s' m e)"
    using assms e round_mantissa [OF assms(1,2)]
    by (auto simp: round64_unfold wf_float_def split: if_splits)
  show "real m * 2 powi e = real (round_at (round_exp n d) n d) * 2 powi round_exp n d"
    using assms by (auto simp: round64_unfold power_int_add split: if_splits)
qed


lemma round64_error:
  assumes "0 < n" "0 < d" "round64 s n d = Fin s' m e"
  shows "\<bar>real m * 2 powi e - real n / real d\<bar> \<le> 2 powi round_exp n d / 2"
    and "2 powi (- 1022) \<le> real n / real d \<Longrightarrow>
      \<bar>real m * 2 powi e - real n / real d\<bar> \<le> real n / real d / 2 ^ 53"
proof -
  let ?E = "2 powi round_exp n d :: real" and ?m = "real (round_at (round_exp n d) n d)"
  have "?m * ?E - real n / real d = (?m - real n / real d / ?E) * ?E" by (simp add: left_diff_distrib)
  then have "\<bar>real m * 2 powi e - real n / real d\<bar> = \<bar>?m - real n / real d / ?E\<bar> * ?E"
    unfolding round64_Fin(3) [OF assms] by (simp add: abs_mult)
  also have "\<dots> \<le> 1 / 2 * ?E" by (intro mult_right_mono round_at_error [OF assms(2)]) simp
  finally show err: "\<bar>real m * 2 powi e - real n / real d\<bar> \<le> ?E / 2" by simp
  assume r: "2 powi (- 1022) \<le> real n / real d"
  have "2 ^ 52 * ?E \<le> real n / real d"
  proof (cases "- 1074 < round_exp n d")
    case True
    from round_exp_bounds(2) [OF assms(1,2) this] show ?thesis unfolding le_div_powi .
  next
    case False
    then have e: "round_exp n d = - 1074" by (simp add: round_exp_def)
    have "(2 :: real) powi (int 52 + - 1074) = 2 powi int 52 * 2 powi (- 1074)"
      by (rule power_int_add) simp
    moreover have "int 52 + - 1074 = (- 1022 :: int)" by simp
    ultimately have "(2 :: real) ^ 52 * 2 powi (- 1074) = 2 powi (- 1022)"
      by (simp only: power_int_of_nat)
    with r show ?thesis unfolding e by (simp only:)
  qed
  with err show "\<bar>real m * 2 powi e - real n / real d\<bar> \<le> real n / real d / 2 ^ 53" by simp
qed

text \<open>No double is nearer to the exact result than the rounded one.\<close>

lemma round64_nearest:
  assumes "0 < n" "0 < d" "round64 s n d = Fin s' m e" "wf_float (Fin s0 m0 e0)"
  shows "\<bar>real m * 2 powi e - real n / real d\<bar> \<le> \<bar>real m0 * 2 powi e0 - real n / real d\<bar>"
proof -
  let ?e = "round_exp n d"
  let ?E = "2 powi ?e :: real" and ?m = "real (round_at ?e n d)"
  have near: "\<bar>?m * ?E - real n / real d\<bar> \<le> \<bar>of_int k * ?E - real n / real d\<bar>" for k :: int
  proof -
    have "\<bar>x * ?E - real n / real d\<bar> = \<bar>x - real n / real d / ?E\<bar> * ?E" for x
    proof -
      have "x * ?E - real n / real d = (x - real n / real d / ?E) * ?E" by (simp add: left_diff_distrib)
      then show ?thesis by (simp add: abs_mult)
    qed
    then show ?thesis by (simp only:) (intro mult_right_mono round_at_nearest [OF assms(2)], simp)
  qed
  have m0: "real m0 < 2 ^ 53" "- 1074 \<le> e0"
    using assms(4) by (simp_all add: wf_float_def)
  show ?thesis
  proof (cases "?e \<le> e0")
    case True
    then have "2 powi e0 = 2 ^ nat (e0 - ?e) * ?E"
      by (simp add: power_int_add [symmetric] flip: power_int_of_nat)
    then have eq: "real m0 * 2 powi e0 = of_int (int m0 * 2 ^ nat (e0 - ?e)) * ?E" by simp
    show ?thesis unfolding round64_Fin(3) [OF assms(1-3)] eq by (rule near)
  next
    case False
    with m0(2) have "- 1074 < ?e" by simp
    from round_exp_bounds(2) [OF assms(1,2) this] have r: "2 ^ 52 * ?E \<le> real n / real d"
      unfolding le_div_powi .
    have "real m0 * 2 powi e0 \<le> 2 ^ 53 * 2 powi (?e - 1)"
      using m0 False by (intro mult_mono power_int_increasing) simp_all
    also have "\<dots> = 2 ^ 52 * ?E" by (simp add: power_int_diff)
    finally show ?thesis using near [of "2 ^ 52"] r unfolding round64_Fin(3) [OF assms(1-3)] by simp
  qed
qed

lemma wf_float_inject:
  assumes "wf_float (Fin s m e)" "wf_float (Fin s' m' e')" "real m * 2 powi e = real m' * 2 powi e'"
  shows "m = m' \<and> e = e'"
proof -
  have less: False if "e < e'" "wf_float (Fin s m e)" "wf_float (Fin s' m' e')"
    "real m * 2 powi e = real m' * 2 powi e'" for s m e s' m' e'
  proof -
    from that have "2 ^ 52 \<le> real m'" "real m < 2 ^ 53" by (auto simp: wf_float_def)
    have "real m * 2 powi e < 2 ^ 53 * 2 powi e" using \<open>real m < 2 ^ 53\<close> by simp
    also have "\<dots> = 2 ^ 52 * 2 powi (e + 1)" by (simp add: power_int_add)
    also have "\<dots> \<le> real m' * 2 powi e'"
      using that(1) \<open>2 ^ 52 \<le> real m'\<close> by (intro mult_mono power_int_increasing) simp_all
    finally show False using that(4) by simp
  qed
  have "e = e'" using less [of e e' s m s' m'] less [of e' e s' m' s m] assms by (metis linorder_neqE)
  with assms(3) show ?thesis by simp
qed

lemma round64_overflow:
  assumes "0 < n" "0 < d" "2 ^ 1024 \<le> real n / real d"
  shows "round64 s n d = Inf s"
proof (rule ccontr)
  assume no: "round64 s n d \<noteq> Inf s"
  have e: "round_exp n d \<le> 971" "round_exp n d = 971 \<Longrightarrow> round_at (round_exp n d) n d \<noteq> 2 ^ 53"
    using no by (auto simp: round64_unfold [OF assms(1)] split: if_splits)
  have "real n / real d \<le> 2 ^ 53 * 2 powi round_exp n d"
    using round_exp_bounds(1) [OF assms(1,2)] unfolding div_powi_le .
  also have "\<dots> = 2 powi (int 53 + round_exp n d)" by (simp add: power_int_add)
  finally have "2 powi int 1024 \<le> (2 :: real) powi (int 53 + round_exp n d)" using assms(3) by simp
  moreover have "(2 :: real) powi (int 53 + round_exp n d) < 2 powi int 1024" if "round_exp n d < 971"
    using that by (intro power_int_strict_increasing) simp_all
  ultimately have "\<not> round_exp n d < 971" by linarith
  with e have e: "round_exp n d = 971" "round_at (round_exp n d) n d \<noteq> 2 ^ 53" by simp_all
  have "2 ^ 53 * 2 powi 971 = (2 :: real) ^ 1024" by (simp add: power_int_def)
  with assms(3) have "2 ^ 53 \<le> real n / real d / 2 powi round_exp n d" unfolding e le_div_powi by simp
  then have "2 ^ 53 \<le> round_at (round_exp n d) n d"
    using round_at_bounds(1) [OF assms(2), of "2 ^ 53"] by simp
  with round_mantissa(1) [OF assms(1,2)] e(2) show False by simp
qed


lemma round64_finite:
  assumes "0 < n" "0 < d" "real n / real d \<le> (2 ^ 53 - 1) * 2 powi 971"
  obtains m e where "round64 s n d = Fin s m e"
proof -
  have hi: "real n / real d < 2 powi (int 53 + 971)"
  proof -
    have "real n / real d < 2 ^ 53 * 2 powi 971"
      using assms(3) by (rule le_less_trans) (simp add: left_diff_distrib)
    then show ?thesis unfolding powi_shift .
  qed
  have "round_exp n d \<le> 971"
  proof (rule ccontr)
    assume e: "\<not> round_exp n d \<le> 971"
    then have "2 ^ 52 * 2 powi round_exp n d \<le> real n / real d"
      using round_exp_bounds(2) [OF assms(1,2)] by (simp only: le_div_powi)
    moreover have "(2 :: real) powi (int 53 + 971) \<le> 2 powi (int 52 + round_exp n d)"
      using e by (intro power_int_increasing) simp_all
    ultimately show False using hi unfolding powi_shift by linarith
  qed
  moreover have "round_at (round_exp n d) n d \<le> 2 ^ 53 - 1" if "round_exp n d = 971"
    using round_at_bounds(2) [OF assms(2), of n "round_exp n d" "2 ^ 53 - 1"] assms(3)
    unfolding that div_powi_le by simp
  ultimately have "round64 s n d =
      (if round_at (round_exp n d) n d = 2 ^ 53 then Fin s (2 ^ 52) (round_exp n d + 1)
       else Fin s (round_at (round_exp n d) n d) (round_exp n d))"
    by (auto simp: round64_unfold [OF assms(1)])
  then show ?thesis using that by (metis (full_types))
qed

text \<open>A representable result is exact.\<close>

lemma wf_float_max:
  assumes "wf_float (Fin s m e)"
  shows "real m * 2 powi e \<le> (2 ^ 53 - 1) * 2 powi 971"
proof -
  have "real m \<le> 2 ^ 53 - 1" "e \<le> 971" using assms by (auto simp: wf_float_def)
  then show ?thesis by (intro mult_mono power_int_increasing) simp_all
qed

lemma round64_exact:
  assumes "0 < n" "0 < d" "wf_float (Fin s0 m e)" "real m * 2 powi e = real n / real d"
  shows "round64 s n d = Fin s m e"
proof -
  obtain m' e' where r: "round64 s n d = Fin s m' e'"
    using round64_finite [OF assms(1,2)] wf_float_max [OF assms(3)] assms(4) by metis
  have "real m' * 2 powi e' = real m * 2 powi e"
    using round64_nearest [OF assms(1,2) r assms(3)] assms(4) by simp
  with wf_float_inject [OF round64_Fin(2) [OF assms(1,2) r] assms(3)] r show ?thesis by simp
qed

text \<open>Rounding is monotone.\<close>

lemma round64_mono:
  assumes "0 < n" "0 < d" "0 < n'" "0 < d'" "real n / real d \<le> real n' / real d'"
    "round64 s n d = Fin s m e" "round64 s' n' d' = Fin s' m' e'"
  shows "real m * 2 powi e \<le> real m' * 2 powi e'"
proof -
  let ?e = "round_exp n d" and ?e' = "round_exp n' d'"
  note R = round64_Fin(3) [OF assms(1,2,6)] round64_Fin(3) [OF assms(3,4,7)]
  consider "?e = ?e'" | "?e < ?e'" | "?e' < ?e" by linarith
  then show ?thesis
  proof cases
    case 1
    have "round_at ?e n d \<le> round_at ?e n' d'" by (rule round_at_mono [OF assms(2,4,5)])
    with R show ?thesis by (simp add: 1)
  next
    case 2
    have "real m * 2 powi e \<le> 2 ^ 53 * 2 powi ?e"
      unfolding R(1)
      using of_nat_mono [where ?'a = real, OF round_mantissa(1) [OF assms(1,2)]]
      by (intro mult_right_mono) simp_all
    also have "\<dots> = 2 ^ 52 * 2 powi (?e + 1)" by (simp add: power_int_add)
    also have "\<dots> \<le> real (round_at ?e' n' d') * 2 powi ?e'"
    proof (intro mult_mono power_int_increasing)
      have "- 1074 < ?e'" using 2 by (simp add: round_exp_def)
      from of_nat_mono [where ?'a = real, OF round_mantissa(2) [OF assms(3,4) this]]
      show "2 ^ 52 \<le> real (round_at ?e' n' d')" by simp
    qed (use 2 in simp_all)
    finally show ?thesis unfolding R(2) .
  next
    case 3
    then have "- 1074 < ?e" by (simp add: round_exp_def [of n' d'])
    from round_exp_bounds(2) [OF assms(1,2) this] have "2 ^ 52 * 2 powi ?e \<le> real n / real d"
      unfolding le_div_powi .
    moreover have "real n' / real d' < 2 powi (int 53 + ?e')"
    proof -
      have "real n' / real d' < 2 powi (log2_ratio n' d' + 1)" by (rule log2_ratio_bounds [OF assms(3,4)])
      also have "\<dots> \<le> 2 powi (int 53 + ?e')" by (intro power_int_increasing) (simp_all add: round_exp_def)
      finally show ?thesis .
    qed
    moreover have "(2 :: real) powi (int 53 + ?e') \<le> 2 powi (int 52 + ?e)"
      using 3 by (intro power_int_increasing) simp_all
    ultimately have False using assms(5) unfolding powi_shift by linarith
    then show ?thesis ..
  qed
qed


section \<open>Arithmetic\<close>

abbreviation float_zero :: "bool \<Rightarrow> float64" where
  "float_zero s \<equiv> Fin s 0 (- 1074)"

text \<open>The exact result \<open>n / d * 2 ^ e\<close>, rounded.\<close>

definition round_scaled :: "bool \<Rightarrow> nat \<Rightarrow> nat \<Rightarrow> int \<Rightarrow> float64" where
  "round_scaled s n d e = (case ratio_at (- e) n d of (n', d') \<Rightarrow> round64 s n' d')"

fun float_mul :: "float64 \<Rightarrow> float64 \<Rightarrow> float64" where
  "float_mul (Fin s m e) (Fin s' m' e') = round_scaled (s \<noteq> s') (m * m') 1 (e + e')"
| "float_mul (Fin s m e) (Inf s') = (if m = 0 then NaN else Inf (s \<noteq> s'))"
| "float_mul (Inf s) (Fin s' m e) = (if m = 0 then NaN else Inf (s \<noteq> s'))"
| "float_mul (Inf s) (Inf s') = Inf (s \<noteq> s')"
| "float_mul NaN y = NaN"
| "float_mul x NaN = NaN"

fun float_div :: "float64 \<Rightarrow> float64 \<Rightarrow> float64" where
  "float_div (Fin s m e) (Fin s' m' e') =
     (if m' = 0 then (if m = 0 then NaN else Inf (s \<noteq> s'))
      else round_scaled (s \<noteq> s') m m' (e - e'))"
| "float_div (Fin s m e) (Inf s') = float_zero (s \<noteq> s')"
| "float_div (Inf s) (Fin s' m e) = Inf (s \<noteq> s')"
| "float_div (Inf s) (Inf s') = NaN"
| "float_div NaN y = NaN"
| "float_div x NaN = NaN"

text \<open>Comparisons are false when an operand is NaN; the two zeros are equal.\<close>

definition mant_at :: "int \<Rightarrow> float64 \<Rightarrow> int" where
  "mant_at k x = (if f_neg x then - 1 else 1) * int (f_mant x) * 2 ^ nat (f_exp x - k)"

fun float_le :: "float64 \<Rightarrow> float64 \<Rightarrow> bool" where
  "float_le (Fin s m e) (Fin s' m' e') \<longleftrightarrow>
     mant_at (min e e') (Fin s m e) \<le> mant_at (min e e') (Fin s' m' e')"
| "float_le (Fin s m e) (Inf s') \<longleftrightarrow> \<not> s'"
| "float_le (Inf s) (Fin s' m e) \<longleftrightarrow> s"
| "float_le (Inf s) (Inf s') \<longleftrightarrow> s \<or> \<not> s'"
| "float_le NaN y \<longleftrightarrow> False"
| "float_le x NaN \<longleftrightarrow> False"

instantiation float64 :: "{times, inverse, ord}"
begin

definition times_float64 :: "float64 \<Rightarrow> float64 \<Rightarrow> float64" where
  "times_float64 = float_mul"

definition divide_float64 :: "float64 \<Rightarrow> float64 \<Rightarrow> float64" where
  "divide_float64 = float_div"

definition inverse_float64 :: "float64 \<Rightarrow> float64" where
  "inverse_float64 = float_div (Fin False (2 ^ 52) (- 52))"

definition less_eq_float64 :: "float64 \<Rightarrow> float64 \<Rightarrow> bool" where
  "less_eq_float64 = float_le"

definition less_float64 :: "float64 \<Rightarrow> float64 \<Rightarrow> bool" where
  "less_float64 x y \<longleftrightarrow> float_le x y \<and> \<not> float_le y x"

instance ..

end

text \<open>Conversions of integers, and \<open>strconv.ParseFloat(n.String(), 64)\<close> for a \<open>big.Int\<close>.\<close>

definition float_of_nat :: "nat \<Rightarrow> float64" where
  "float_of_nat n = round64 False n 1"

definition float_of_int :: "int \<Rightarrow> float64" where
  "float_of_int n = round64 (n < 0) (nat \<bar>n\<bar>) 1"

definition big_String :: "int \<Rightarrow> string" where
  "big_String n = (if n < 0 then ''-'' else '''') @ show_nat (nat \<bar>n\<bar>)"

definition ParseFloat_int :: "int \<Rightarrow> float64 res" where
  "ParseFloat_int n =
     (case float_of_int n of
        Inf s \<Rightarrow> Err (Msg (''strconv.ParseFloat: parsing '' @ [CHR 0x22] @ big_String n @ [CHR 0x22] @
                          '': value out of range''))
      | x \<Rightarrow> Ok x)"

text \<open>\<open>%.2f\<close>: the exact value rounded to hundredths, ties to even.\<close>

definition hundredths :: "float64 \<Rightarrow> nat" where
  "hundredths x = round_at (- f_exp x) (100 * f_mant x) 1"

definition show_hundredths :: "nat \<Rightarrow> string" where
  "show_hundredths h = show_nat (h div 100) @ ''.'' @ show_nat (h div 10 mod 10) @ show_nat (h mod 10)"

definition Sprintf_2f :: "float64 \<Rightarrow> string" where
  "Sprintf_2f x =
     (case x of
        NaN \<Rightarrow> ''NaN''
      | Inf s \<Rightarrow> if s then ''-Inf'' else ''+Inf''
      | Fin s m e \<Rightarrow> (if s then ''-'' else '''') @ show_hundredths (hundredths x))"

lemma round_scaled_value:
  assumes "0 < n" "0 < d"
  obtains n' d' where "round_scaled s n d e = round64 s n' d'" "0 < n'" "0 < d'"
    "real n' / real d' = real n / real d * 2 powi e"
proof (cases "ratio_at (- e) n d")
  case (Pair n' d')
  from ratio_at_value [OF assms(2) Pair] have v: "0 < d'" "real n' / real d' = real n / real d * 2 powi e"
    by (simp_all add: power_int_minus_divide)
  with assms have "0 < real n' / real d'" by simp
  then have "0 < n'" by (simp add: zero_less_divide_iff)
  with v Pair show ?thesis by (intro that) (simp_all add: round_scaled_def)
qed


section \<open>Evaluation\<close>

text \<open>With the exponent given, the computation is one division: no logarithm is needed.\<close>

lemma round64_eval:
  assumes "0 < n" "0 < d" "- 1074 \<le> e" "e \<le> 971"
    and "case ratio_at e n d of (n', d') \<Rightarrow>
      2 ^ 52 * d' \<le> n' \<and> n' < 2 ^ 53 * d' \<and> round_half_even n' d' = m" "m < 2 ^ 53"
  shows "round64 s n d = Fin s m e"
proof (cases "ratio_at e n d")
  case ratio: (Pair n' d')
  with assms(5) have n': "2 ^ 52 * d' \<le> n'" "n' < 2 ^ 53 * d'" "round_half_even n' d' = m" by simp_all
  note v = ratio_at_value [OF assms(2) ratio]
  then have d': "0 < real d'" by simp
  have "real (2 ^ 52 * d') \<le> real n'" "real n' < real (2 ^ 53 * d')"
    using n' by (simp_all only: of_nat_le_iff of_nat_less_iff)
  then have "2 ^ 52 \<le> real n' / real d'" "real n' / real d' < 2 ^ 53"
    using d' by (simp_all only: pos_le_divide_eq pos_divide_less_eq) simp_all
  then have r: "2 powi (int 52 + e) \<le> real n / real d" "real n / real d < 2 powi (int 53 + e)"
    unfolding powi_shift v [THEN conjunct2] by (simp_all only: le_div_powi div_powi_less)
  note l = log2_ratio_bounds [OF assms(1,2)]
  have "\<not> log2_ratio n d + 1 \<le> 52 + e"
  proof
    assume "log2_ratio n d + 1 \<le> 52 + e"
    then have "(2 :: real) powi (log2_ratio n d + 1) \<le> 2 powi (int 52 + e)"
      by (intro power_int_increasing) simp_all
    with l r show False by linarith
  qed
  moreover have "\<not> 53 + e \<le> log2_ratio n d"
  proof
    assume "53 + e \<le> log2_ratio n d"
    then have "(2 :: real) powi (int 53 + e) \<le> 2 powi log2_ratio n d"
      by (intro power_int_increasing) simp_all
    with l r show False by linarith
  qed
  ultimately have "round_exp n d = e" using assms(3) by (simp add: round_exp_def)
  moreover have "round_at e n d = m" using n'(3) ratio by (simp add: round_at_def)
  ultimately show ?thesis using assms(1,4,6) by (simp add: round64_unfold)
qed


section \<open>The operations on positive values\<close>

lemma mant_at_value:
  assumes "k \<le> e"
  shows "of_int (mant_at k (Fin s m e)) * 2 powi k = valof (Fin s m e)"
proof -
  have "e = int (nat (e - k)) + k" using assms by simp
  then have "(2 :: real) powi e = 2 ^ nat (e - k) * 2 powi k" by (metis powi_shift)
  then show ?thesis by (simp add: mant_at_def valof_def)
qed

lemma float_le_iff: "Fin s m e \<le> Fin s' m' e' \<longleftrightarrow> valof (Fin s m e) \<le> valof (Fin s' m' e')"
proof -
  let ?k = "min e e'"
  have "Fin s m e \<le> Fin s' m' e' \<longleftrightarrow>
      of_int (mant_at ?k (Fin s m e)) * (2 :: real) powi ?k \<le> of_int (mant_at ?k (Fin s' m' e')) * 2 powi ?k"
    by (simp add: less_eq_float64_def)
  also have "\<dots> \<longleftrightarrow> valof (Fin s m e) \<le> valof (Fin s' m' e')" by (simp only: mant_at_value min.cobounded1 min.cobounded2)
  finally show ?thesis .
qed

text \<open>A positive double that is exact up to one rounding.\<close>

definition positive :: "float64 \<Rightarrow> real \<Rightarrow> bool" where
  "positive x r \<longleftrightarrow> (\<exists>m e. x = Fin False m e \<and> wf_float x \<and> 0 < m \<and> real m * 2 powi e = r)"

lemma positive_valof: "positive x r \<Longrightarrow> valof x = r \<and> finite_float x \<and> wf_float x \<and> 0 < r"
  by (auto simp: positive_def valof_def finite_float_def)

definition rounded :: "real \<Rightarrow> float64 \<Rightarrow> bool" where
  "rounded r x \<longleftrightarrow> (\<exists>n d. 0 < n \<and> 0 < d \<and> real n / real d = r \<and> x = round64 False n d)"

lemma rounded_positive:
  assumes "rounded r x" "2 powi (- 1022) \<le> r" "r \<le> (2 ^ 53 - 1) * 2 powi 971"
  obtains \<delta> where "positive x (r * (1 + \<delta>))" "\<bar>\<delta>\<bar> \<le> 1 / 2 ^ 53"
proof -
  obtain n d where nd: "0 < n" "0 < d" "real n / real d = r" "x = round64 False n d"
    using assms(1) by (auto simp: rounded_def)
  obtain m e where x: "round64 False n d = Fin False m e"
    using round64_finite [OF nd(1,2)] assms(3) nd(3) by metis
  have err: "\<bar>real m * 2 powi e - r\<bar> \<le> r / 2 ^ 53"
    using round64_error(2) [OF nd(1,2) x] assms(2) nd(3) by simp
  have "0 < r" using nd by auto
  then have "r / 2 ^ 53 < r" by simp
  with err have "0 < real m * 2 powi e" by linarith
  then have m: "0 < m" by (simp add: zero_less_mult_iff)
  show ?thesis
  proof
    show "positive x (r * (1 + (real m * 2 powi e / r - 1)))"
      using x nd m round64_Fin(2) [OF nd(1,2) x] \<open>0 < r\<close> by (simp add: positive_def)
    have "real m * 2 powi e / r - 1 = (real m * 2 powi e - r) / r" using \<open>0 < r\<close> by (simp add: field_simps)
    then have "\<bar>real m * 2 powi e / r - 1\<bar> = \<bar>real m * 2 powi e - r\<bar> / r" using \<open>0 < r\<close> by simp
    also have "\<dots> \<le> 1 / 2 ^ 53" using err \<open>0 < r\<close> by (simp add: field_simps)
    finally show "\<bar>real m * 2 powi e / r - 1\<bar> \<le> 1 / 2 ^ 53" .
  qed
qed

lemma rounded_exact: "rounded r x \<Longrightarrow> positive y r \<Longrightarrow> x = y"
  unfolding rounded_def positive_def using round64_exact by metis

lemma rounded_nearest:
  assumes "rounded r x" "finite_float x" "wf_float y" "finite_float y"
  shows "\<bar>valof x - r\<bar> \<le> \<bar>valof y - r\<bar>"
proof -
  obtain n d where nd: "0 < n" "0 < d" "real n / real d = r" "x = round64 False n d"
    using assms(1) by (auto simp: rounded_def)
  obtain s m e where x: "round64 False n d = Fin s m e"
    using assms(2) nd(4) by (auto simp: finite_float_def split: float64.splits)
  have s: "\<not> s" using round64_Fin(1) [OF nd(1,2) x] by simp
  obtain s' m' e' where y: "y = Fin s' m' e'" using assms(4) by (cases y) (auto simp: finite_float_def)
  have wf: "wf_float (Fin b m' e')" for b using assms(3) by (simp add: y wf_float_def)
  have zero: "wf_float (float_zero False)" by (simp add: wf_float_def)
  have "0 < r" using nd by auto
  have "\<bar>real m * 2 powi e - r\<bar> \<le> \<bar>real m' * 2 powi e' - r\<bar>"
    "\<bar>real m * 2 powi e - r\<bar> \<le> r"
    using round64_nearest [OF nd(1,2) x wf] round64_nearest [OF nd(1,2) x zero] nd(3) \<open>0 < r\<close> by simp_all
  moreover have "0 \<le> real m' * 2 powi e'" by simp
  then have "r \<le> \<bar>- (real m' * 2 powi e') - r\<bar>" using \<open>0 < r\<close> by linarith
  ultimately show ?thesis using x s nd(4) by (simp add: y valof_def)
qed

lemma rounded_mono:
  assumes "rounded r x" "rounded r' x'" "r \<le> r'" "finite_float x" "finite_float x'"
  shows "x \<le> x'"
proof -
  obtain n d n' d' where nd: "0 < n" "0 < d" "real n / real d = r" "x = round64 False n d"
    "0 < n'" "0 < d'" "real n' / real d' = r'" "x' = round64 False n' d'"
    using assms(1,2) by (auto simp: rounded_def)
  obtain s m e s' m' e' where x: "round64 False n d = Fin s m e" "round64 False n' d' = Fin s' m' e'"
    using assms(4,5) nd(4,8) by (auto simp: finite_float_def split: float64.splits)
  have s: "s = False" "s' = False"
    using round64_Fin(1) [OF nd(1,2) x(1)] round64_Fin(1) [OF nd(5,6) x(2)] by simp_all
  show ?thesis
    using round64_mono [OF nd(1,2,5,6) _ x(1) [unfolded s] x(2) [unfolded s]] assms(3) nd x
    by (simp add: float_le_iff valof_def s)
qed

lemma round_scaled_rounded:
  assumes "0 < n" "0 < d"
  shows "rounded (real n / real d * 2 powi e) (round_scaled False n d e)"
  using round_scaled_value [OF assms, of False e] unfolding rounded_def by metis

lemma mul_rounded: "positive x a \<Longrightarrow> positive y b \<Longrightarrow> rounded (a * b) (x * y)"
proof -
  assume "positive x a" "positive y b"
  then obtain m e m' e' where v: "x = Fin False m e" "0 < m" "real m * 2 powi e = a"
    "y = Fin False m' e'" "0 < m'" "real m' * 2 powi e' = b"
    by (auto simp: positive_def)
  have "rounded (real (m * m') / real 1 * 2 powi (e + e')) (round_scaled False (m * m') 1 (e + e'))"
    using v by (intro round_scaled_rounded) simp_all
  moreover have "real (m * m') / real 1 * 2 powi (e + e') = a * b"
    by (simp add: power_int_add flip: v(3,6))
  ultimately show ?thesis by (simp add: v(1,4) times_float64_def)
qed

lemma div_rounded: "positive x a \<Longrightarrow> positive y b \<Longrightarrow> rounded (a / b) (x / y)"
proof -
  assume "positive x a" "positive y b"
  then obtain m e m' e' where v: "x = Fin False m e" "0 < m" "real m * 2 powi e = a"
    "y = Fin False m' e'" "0 < m'" "real m' * 2 powi e' = b"
    by (auto simp: positive_def)
  have "rounded (real m / real m' * 2 powi (e - e')) (round_scaled False m m' (e - e'))"
    using v by (intro round_scaled_rounded) simp_all
  moreover have "real m / real m' * 2 powi (e - e') = a / b"
    by (simp add: power_int_diff flip: v(3,6))
  ultimately show ?thesis using v(5) by (simp add: v(1,4) divide_float64_def)
qed

lemma float_of_nat_rounded: "0 < n \<Longrightarrow> rounded (real n) (float_of_nat n)"
  unfolding rounded_def float_of_nat_def by (intro exI [of _ n] exI [of _ 1]) simp

end
