(* ===== verification/Difficulty.thy ===== *)
theory Difficulty
  imports Target Go_Float
begin

text \<open>
  The floating-point half of \<open>difficulty.go\<close> (difficulties and hash rates) and
  \<open>humanhash.go\<close>, over the \<open>float64\<close> of \<open>Go_Float\<close>.
\<close>

section \<open>Hash rates\<close>

text \<open>
  \<open>bf.SetInt(bn); bf.Float64()\<close> for a \<open>big.Float\<close> of 53 bits, then \<open>math.Pow(2, 256)\<close>
  (exact) divided by it. An error is logged and the nil \<open>bn\<close> used.
\<close>

definition pow_2_256 :: float64 where
  "pow_2_256 = Fin False (2 ^ 52) 204"

definition init_diff :: "string \<Rightarrow> float64 res" where
  "init_diff bits =
     on_err (ExpandTargetFromAsInt bits) (\<lambda>_. Panic NilDereference)
       (\<lambda>bn. Ok (pow_2_256 / float_of_int bn))"

definition genesisDiff :: "float64 res" where
  "genesisDiff = init_diff ''1d00ffff''"

definition regDiff :: "float64 res" where
  "regDiff = init_diff ''207fffff''"

definition DifficultyToHashrate :: "string \<Rightarrow> u64 \<Rightarrow> float64 \<Rightarrow> float64 res" where
  "DifficultyToHashrate coin diff targetSeconds =
     bind_res (go_index coin 0) (\<lambda>c.
     bind_res (if c = CHR ''R'' then regDiff else genesisDiff) (\<lambda>genesis.
       Ok (float_of_nat (unat diff) * genesis / targetSeconds)))"

section \<open>Difficulties\<close>

text \<open>The difficulty of the first block as a constant.\<close>

definition genesis_target :: int where
  "genesis_target = 0xFFFF0000000000000000000000000000000000000000000000000000"

definition targetToDifficulty :: "int \<Rightarrow> float64 res" where
  "targetToDifficulty target =
     (let a = float_of_int genesis_target in
      bind_res (ParseFloat_int target) (\<lambda>b. Ok (a / b)))"

definition DifficultyFromBits :: "bytes \<Rightarrow> float64 res" where
  "DifficultyFromBits bits =
     bind_res (uint32_be bits) (\<lambda>ib. targetToDifficulty (toCompactSize ib))"

section \<open>Human-readable hash rates\<close>

definition HumanHash :: "float64 \<Rightarrow> string" where
  "HumanHash val =
     (let (val', unit) =
        (if float_of_nat (10 ^ 21) \<le> val then (val / float_of_nat (10 ^ 21), ''ZH/s'')
         else if float_of_nat (10 ^ 18) \<le> val then (val / float_of_nat (10 ^ 18), ''EH/s'')
         else if float_of_nat (10 ^ 15) \<le> val then (val / float_of_nat (10 ^ 15), ''PH/s'')
         else if float_of_nat (10 ^ 12) \<le> val then (val / float_of_nat (10 ^ 12), ''TH/s'')
         else if float_of_nat (10 ^ 9) \<le> val then (val / float_of_nat (10 ^ 9), ''GH/s'')
         else if float_of_nat (10 ^ 6) \<le> val then (val / float_of_nat (10 ^ 6), ''MH/s'')
         else if float_of_nat (10 ^ 3) \<le> val then (val / float_of_nat (10 ^ 3), ''kH/s'')
         else (val, ''H/s''))
      in Sprintf_2f val' @ '' '' @ unit)"

section \<open>Targets as doubles\<close>

text \<open>A mantissa of at most 53 bits times a power of two is a double while it is in range.\<close>

lemma float_of_nat_exact:
  assumes "0 < m" "m < 2 ^ 53" "m * 2 ^ k < 2 ^ 1024"
  shows "positive (float_of_nat (m * 2 ^ k)) (real (m * 2 ^ k))"
proof -
  define l where "l = floorlog 2 m"
  have b: "2 ^ (l - 1) \<le> m" "m < 2 ^ l" using floorlog_bounds [of m 2] assms(1) by (simp_all add: l_def)
  have l0: "0 < l" using b(2) assms(1) by (cases l) auto
  have "l - 1 < 53"
    using le_less_trans [OF b(1) assms(2)] by (rule power_less_imp_less_exp [rotated]) simp
  then have l: "l \<le> 53" by simp
  let ?m = "m * 2 ^ (53 - l)" and ?e = "int k - int (53 - l)"
  have "(2 :: nat) ^ (l - 1 + (53 - l)) \<le> ?m" unfolding power_add using b(1) by simp
  moreover have "l - 1 + (53 - l) = 52" using l l0 by simp
  ultimately have lo: "2 ^ 52 \<le> ?m" by simp
  have "?m < 2 ^ (l + (53 - l))" unfolding power_add using b(2) by simp
  then have hi: "?m < 2 ^ 53" using l by simp
  have "(2 :: nat) ^ (l - 1 + k) < 2 ^ 1024"
    unfolding power_add using b(1) assms(3) by (meson le_less_trans mult_le_mono1)
  then have "l - 1 + k < 1024" by (simp only: power_strict_increasing_iff)
  then have e: "?e \<le> 971" using l l0 by simp
  have val: "real ?m * 2 powi ?e = real (m * 2 ^ k)"
  proof -
    have "(2 :: real) ^ k = 2 powi (int (53 - l) + ?e)" by simp
    then have "(2 :: real) ^ k = 2 ^ (53 - l) * 2 powi ?e" unfolding powi_shift .
    then show ?thesis by simp
  qed
  have wf: "wf_float (Fin False ?m ?e)" using lo hi e by (simp add: wf_float_def)
  have "float_of_nat (m * 2 ^ k) = Fin False ?m ?e"
    unfolding float_of_nat_def using assms(1) wf val by (intro round64_exact) simp_all
  with wf assms(1) val show ?thesis by (simp add: positive_def)
qed

lemma float_of_int_pos: "0 < n \<Longrightarrow> float_of_int n = float_of_nat (nat n)"
  by (simp add: float_of_int_def float_of_nat_def)

lemma compact_target:
  obtains m k where "toCompactSize c = int m * 256 ^ k" "m < 2 ^ 24"
  using that [OF toCompactSize_eq] by simp

lemma ParseFloat_target:
  assumes "0 < toCompactSize c" "toCompactSize c < 2 ^ 1024"
  obtains b where "ParseFloat_int (toCompactSize c) = Ok b" "positive b (of_int (toCompactSize c))"
proof -
  obtain m k where t: "toCompactSize c = int m * 256 ^ k" "m < 2 ^ 24" by (rule compact_target)
  have t': "toCompactSize c = int (m * 2 ^ (8 * k))" unfolding t(1) by (simp add: power_mult)
  have m: "0 < m" using assms(1) t(1) by (cases m) auto
  have "int (m * 2 ^ (8 * k)) < int (2 ^ 1024)" using assms(2) unfolding t' by simp
  then have "m * 2 ^ (8 * k) < 2 ^ 1024" by (simp only: of_nat_less_iff)
  with m t(2) have p: "positive (float_of_nat (m * 2 ^ (8 * k))) (real (m * 2 ^ (8 * k)))"
    by (intro float_of_nat_exact) simp_all
  have f: "float_of_int (toCompactSize c) = float_of_nat (m * 2 ^ (8 * k))"
    unfolding float_of_int_pos [OF assms(1)] unfolding t' nat_int ..
  have "ParseFloat_int (toCompactSize c) = Ok (float_of_nat (m * 2 ^ (8 * k)))"
    using p unfolding ParseFloat_int_def f by (auto simp: positive_def)
  with p show ?thesis by (intro that) (simp_all add: t')
qed

lemma ParseFloat_overflow:
  assumes "2 ^ 1024 \<le> n"
  shows "\<exists>e. ParseFloat_int n = Err e"
proof -
  have "0 < n" using assms by (rule less_le_trans [rotated]) simp
  have "(of_int (2 ^ 1024) :: real) \<le> of_int n" using assms by (simp only: of_int_le_iff)
  also have "\<dots> = real (nat n)" using \<open>0 < n\<close> by simp
  finally have "float_of_int n = Inf False"
    unfolding float_of_int_pos [OF \<open>0 < n\<close>] float_of_nat_def using \<open>0 < n\<close>
    by (intro round64_overflow) simp_all
  then show ?thesis by (simp add: ParseFloat_int_def)
qed

lemma genesis_float: "positive (float_of_int genesis_target) (of_int genesis_target)"
proof -
  have g: "genesis_target = int (0xFFFF * 2 ^ 208)" by (simp add: genesis_target_def)
  have "positive (float_of_nat (0xFFFF * 2 ^ 208)) (real (0xFFFF * 2 ^ 208))"
    by (rule float_of_nat_exact) simp_all
  moreover have "float_of_int genesis_target = float_of_nat (nat genesis_target)"
    by (rule float_of_int_pos) (simp add: genesis_target_def)
  ultimately show ?thesis unfolding g nat_int of_int_of_nat_eq by (simp only:)
qed


lemma target_ratio_bounds:
  assumes "0 < t" "t < 2 ^ 1024"
  shows "2 powi (- 1022) \<le> of_int genesis_target / (of_int t :: real)"
    and "of_int genesis_target / (of_int t :: real) \<le> (2 ^ 53 - 1) * 2 powi 971"
proof -
  have t: "(1 :: real) \<le> of_int t" "(of_int t :: real) \<le> of_int (2 ^ 1024)"
    using assms unfolding of_int_le_iff of_int_1_le_iff by simp_all
  have "2 powi (- 1022) * (of_int t :: real) \<le> 2 powi (- 1022) * 2 powi 1024"
    using t(2) by (intro mult_left_mono) simp_all
  also have "\<dots> = 2 powi (- 1022 + 1024)" by (rule power_int_add [symmetric]) simp
  also have "\<dots> \<le> of_int genesis_target" by (simp add: genesis_target_def)
  finally show "2 powi (- 1022) \<le> of_int genesis_target / (of_int t :: real)"
    using t(1) by (simp add: pos_le_divide_eq)
  have "of_int genesis_target / (of_int t :: real) \<le> of_int genesis_target / 1"
    using t(1) by (intro divide_left_mono) (simp_all add: genesis_target_def)
  also have "\<dots> \<le> (2 ^ 53 - 1) * 2 powi 971" by (simp add: genesis_target_def)
  finally show "of_int genesis_target / (of_int t :: real) \<le> (2 ^ 53 - 1) * 2 powi 971" .
qed

lemma DifficultyFromBits_rounded:
  assumes "uint32_be bits = Ok c" "0 < toCompactSize c" "toCompactSize c < 2 ^ 1024"
  obtains d \<delta> where "DifficultyFromBits bits = Ok d"
    "rounded (of_int genesis_target / of_int (toCompactSize c)) d"
    "positive d (of_int genesis_target / of_int (toCompactSize c) * (1 + \<delta>))" "\<bar>\<delta>\<bar> \<le> 1 / 2 ^ 53"
proof -
  obtain b where b: "ParseFloat_int (toCompactSize c) = Ok b" "positive b (of_int (toCompactSize c))"
    by (rule ParseFloat_target [OF assms(2,3)])
  note r = div_rounded [OF genesis_float b(2)]
  from rounded_positive [OF r target_ratio_bounds [OF assms(2,3)]] obtain \<delta> where
    "positive (float_of_int genesis_target / b) (of_int genesis_target / of_int (toCompactSize c) * (1 + \<delta>))"
    "\<bar>\<delta>\<bar> \<le> 1 / 2 ^ 53" .
  with r b(1) assms(1) show ?thesis
    by (intro that) (simp_all add: DifficultyFromBits_def targetToDifficulty_def Let_def)
qed

section \<open>Relative errors\<close>

text \<open>An approximation \<open>r * p\<close> of \<open>r\<close> with \<open>p\<close> near 1; each rounding adds at most two units.\<close>

lemma approx_mult:
  fixes p q :: real
  assumes "\<bar>p - 1\<bar> \<le> a" "\<bar>q - 1\<bar> \<le> b" "a \<le> 1" "a + 2 * b \<le> c"
  shows "\<bar>p * q - 1\<bar> \<le> c"
proof -
  have "p * q - 1 = (p - 1) + p * (q - 1)" by (simp add: algebra_simps)
  then have "\<bar>p * q - 1\<bar> \<le> \<bar>p - 1\<bar> + \<bar>p\<bar> * \<bar>q - 1\<bar>" by (metis abs_mult abs_triangle_ineq)
  also have "\<bar>p\<bar> * \<bar>q - 1\<bar> \<le> 2 * b" using assms by (intro mult_mono) auto
  finally show ?thesis using assms by linarith
qed

lemma rounded_approx:
  assumes "rounded (r * p) x" "\<bar>p - 1\<bar> \<le> a" "a \<le> 1 / 2" "2 powi (- 1021) \<le> r" "r \<le> 2 ^ 1022"
    "a + 2 / 2 ^ 53 \<le> c"
  shows "\<exists>p'. positive x (r * p') \<and> \<bar>p' - 1\<bar> \<le> c"
proof -
  have p: "1 / 2 \<le> p" "p \<le> 2" using assms(2,3) by linarith+
  have r: "0 < r" using assms(4) by (rule less_le_trans [rotated]) simp
  have "(2 :: real) powi (- 1022) = 2 powi (- 1021 + - 1)" by simp
  also have "\<dots> = 2 powi (- 1021) * 2 powi (- 1)" by (rule power_int_add) simp
  finally have half: "(2 :: real) powi (- 1022) = 2 powi (- 1021) * (1 / 2)" by simp
  have lo: "2 powi (- 1022) \<le> r * p" unfolding half using assms(4) p r by (intro mult_mono) simp_all
  have "r * p \<le> 2 ^ 1022 * 2" using assms(5) p r by (intro mult_mono) simp_all
  also have "\<dots> \<le> (2 ^ 53 - 1) * 2 powi 971" by simp
  finally obtain \<delta> where d: "positive x (r * p * (1 + \<delta>))" "\<bar>\<delta>\<bar> \<le> 1 / 2 ^ 53"
    using rounded_positive [OF assms(1) lo] by metis
  show ?thesis
  proof (intro exI conjI)
    show "positive x (r * (p * (1 + \<delta>)))" using d(1) by (simp add: mult.assoc)
    show "\<bar>p * (1 + \<delta>) - 1\<bar> \<le> c"
      by (rule approx_mult [OF assms(2), of _ "1 / 2 ^ 53"]) (use assms d in simp_all)
  qed
qed

lemma one_le_real: "0 < n \<Longrightarrow> 1 \<le> real n"
  by simp

lemma small_range:
  fixes r :: real
  assumes "1 \<le> r" "r \<le> 2 ^ 256"
  shows "2 powi (- 1021) \<le> r" "r \<le> 2 ^ 1022"
proof -
  have "(2 :: real) powi (- 1021) \<le> 2 powi 0" by (rule power_int_increasing) simp_all
  with assms(1) show "2 powi (- 1021) \<le> r" by simp
  have "(2 :: real) ^ 256 \<le> 2 ^ 1022" by (rule power_increasing) simp_all
  with assms(2) show "r \<le> 2 ^ 1022" by linarith
qed

lemma rounded_approx_once:
  fixes r :: real
  assumes "rounded r x" "1 \<le> r" "r \<le> 2 ^ 256"
  obtains p where "positive x (r * p)" "\<bar>p - 1\<bar> \<le> 2 / 2 ^ 53"
  using rounded_approx [of r 1 x 0 "2 / 2 ^ 53"] assms small_range [OF assms(2,3)] by auto

lemma float_of_u64:
  assumes "0 < unat (diff :: u64)"
  obtains p where "positive (float_of_nat (unat diff)) (real (unat diff) * p)" "\<bar>p - 1\<bar> \<le> 2 / 2 ^ 53"
proof -
  have "real (unat diff) \<le> real (2 ^ 64)"
    using unsigned_less [where ?'a = nat and w = diff] by (intro of_nat_mono) simp
  also have "\<dots> \<le> 2 ^ 256" by simp
  finally have hi: "real (unat diff) \<le> 2 ^ 256" .
  have "1 \<le> real (unat diff)" using assms by (rule one_le_real)
  from rounded_approx_once [OF float_of_nat_rounded [OF assms] this hi] that show ?thesis by blast
qed

section \<open>Hash rates of the easiest block\<close>

definition easiest_target :: "string \<Rightarrow> int" where
  "easiest_target coin = (if hd coin = CHR ''R'' then 0x7FFFFF * 2 ^ 232 else 0xFFFF * 2 ^ 208)"

lemma sample_bits:
  "uint32_be [0x1d, 0, 0xff, 0xff] = Ok 0x1d00ffff" "uint32_be [0x20, 0x7f, 0xff, 0xff] = Ok 0x207fffff"
  by code_simp+

lemma easiest_bits:
  "ExpandTargetFromAsInt ''1d00ffff'' = Ok (int (0xFFFF * 2 ^ 208))"
  "ExpandTargetFromAsInt ''207fffff'' = Ok (int (0x7FFFFF * 2 ^ 232))"
proof -
  have hex: "hex_DecodeString ''1d00ffff'' = Ok [0x1d, 0, 0xff, 0xff]"
    "hex_DecodeString ''207fffff'' = Ok [0x20, 0x7f, 0xff, 0xff]"
    by (simp_all add: hex_DecodeString_def from_hex_char_def)
  note c = sample_bits
  have "compact_value 0x1d00ffff = int (0xFFFF * 2 ^ 208)" "compact_value 0x207fffff = int (0x7FFFFF * 2 ^ 232)"
    using compact_exponent [of "0x1d00ffff"] compact_exponent [of "0x207fffff"]
    by (simp_all add: compact_value_def Let_def bit_iff_odd)
  then show "ExpandTargetFromAsInt ''1d00ffff'' = Ok (int (0xFFFF * 2 ^ 208))"
    "ExpandTargetFromAsInt ''207fffff'' = Ok (int (0x7FFFFF * 2 ^ 232))"
    using ExpandTargetFromAsInt_value [OF hex(1) c(1)] ExpandTargetFromAsInt_value [OF hex(2) c(2)]
    by (simp_all only:)
qed

lemma pow_2_256: "positive pow_2_256 (2 ^ 256)"
proof -
  have "real (2 ^ 52) * 2 powi 204 = 2 powi (int 52 + 204)" unfolding powi_shift by simp
  then show ?thesis by (simp add: positive_def pow_2_256_def wf_float_def)
qed

lemma init_diff:
  assumes "ExpandTargetFromAsInt bits = Ok (int (m * 2 ^ k))" "0 < m" "m < 2 ^ 53" "m * 2 ^ k \<le> 2 ^ 256"
  obtains g p where "init_diff bits = Ok g" "positive g (2 ^ 256 / real (m * 2 ^ k) * p)"
    "\<bar>p - 1\<bar> \<le> 2 / 2 ^ 53"
proof -
  let ?t = "m * 2 ^ k"
  have "positive (float_of_nat ?t) (real ?t)"
    using assms by (intro float_of_nat_exact) (auto intro: le_less_trans)
  moreover have "float_of_int (int ?t) = float_of_nat ?t"
    using float_of_int_pos [of "int ?t"] assms(2) by (simp only: nat_int) simp
  ultimately have r: "rounded (2 ^ 256 / real ?t) (pow_2_256 / float_of_int (int ?t))"
    using div_rounded [OF pow_2_256] by simp
  have t: "1 \<le> real ?t" "real ?t \<le> real (2 ^ 256)"
  proof -
    have "0 < ?t" using assms(2) by simp
    then show "1 \<le> real ?t" by (rule one_le_real)
    show "real ?t \<le> real (2 ^ 256)" using assms(4) by (rule of_nat_mono)
  qed
  then have q: "1 \<le> 2 ^ 256 / real ?t" by (simp add: pos_le_divide_eq)
  have "2 ^ 256 / real ?t \<le> 2 ^ 256 / 1" using t by (intro divide_left_mono) simp_all
  then have "2 ^ 256 / real ?t \<le> 2 ^ 256" by simp
  from rounded_approx_once [OF r q this] obtain p where
    "positive (pow_2_256 / float_of_int (int ?t)) (2 ^ 256 / real ?t * p)" "\<bar>p - 1\<bar> \<le> 2 / 2 ^ 53" .
  with assms(1) show ?thesis by (intro that) (simp_all only: init_diff_def on_err.simps)
qed

lemma hashrate_genesis:
  assumes "coin \<noteq> []"
  obtains g p where "DifficultyToHashrate coin diff ts = Ok (float_of_nat (unat diff) * g / ts)"
    "positive g (2 ^ 256 / of_int (easiest_target coin) * p)" "\<bar>p - 1\<bar> \<le> 2 / 2 ^ 53"
proof -
  obtain c cs where coin: "coin = c # cs" using assms by (cases coin) auto
  show ?thesis
  proof (cases "c = CHR ''R''")
    case True
    obtain g p where "init_diff ''207fffff'' = Ok g" "positive g (2 ^ 256 / real (0x7FFFFF * 2 ^ 232) * p)"
      "\<bar>p - 1\<bar> \<le> 2 / 2 ^ 53"
      by (rule init_diff [OF easiest_bits(2)]) simp_all
    with True coin show ?thesis
      by (intro that) (simp_all add: DifficultyToHashrate_def regDiff_def easiest_target_def)
  next
    case False
    obtain g p where "init_diff ''1d00ffff'' = Ok g" "positive g (2 ^ 256 / real (0xFFFF * 2 ^ 208) * p)"
      "\<bar>p - 1\<bar> \<le> 2 / 2 ^ 53"
      by (rule init_diff [OF easiest_bits(1)]) simp_all
    with False coin show ?thesis
      by (intro that) (simp_all add: DifficultyToHashrate_def genesisDiff_def easiest_target_def)
  qed
qed

lemma hashrate_size:
  assumes "0 < unat (diff :: u64)"
  shows "1 \<le> real (unat diff) * (2 ^ 256 / of_int (easiest_target coin))"
    and "real (unat diff) * (2 ^ 256 / of_int (easiest_target coin)) \<le> 2 ^ 100"
proof -
  have d: "1 \<le> real (unat diff)" "real (unat diff) \<le> real (2 ^ 64)"
    using one_le_real [OF assms] unsigned_less [where ?'a = nat and w = diff]
    by (simp_all only: of_nat_le_iff) simp
  have g: "1 \<le> (2 ^ 256 / of_int (easiest_target coin) :: real)"
    "(2 ^ 256 / of_int (easiest_target coin) :: real) \<le> 2 ^ 36"
    by (simp_all add: easiest_target_def)
  show "1 \<le> real (unat diff) * (2 ^ 256 / of_int (easiest_target coin))"
    using mult_mono [OF d(1) g(1)] d(1) g(1) by linarith
  have "real (unat diff) * (2 ^ 256 / of_int (easiest_target coin)) \<le> real (2 ^ 64) * 2 ^ 36"
    by (rule mult_mono [OF d(2) g(2)]) (simp, use g(1) in linarith)
  then show "real (unat diff) * (2 ^ 256 / of_int (easiest_target coin)) \<le> 2 ^ 100" by simp
qed

section \<open>Units\<close>

definition hash_units :: "string list" where
  "hash_units = [''H/s'', ''kH/s'', ''MH/s'', ''GH/s'', ''TH/s'', ''PH/s'', ''EH/s'', ''ZH/s'']"

lemma positive_thousands:
  assumes "i < 8"
  shows "positive (float_of_nat (10 ^ (3 * i))) (1000 ^ i)"
proof -
  have p: "10 ^ (3 * i) = 5 ^ (3 * i) * (2 :: nat) ^ (3 * i)" by (simp flip: power_mult_distrib)
  have "(10 :: nat) ^ (3 * i) \<le> 10 ^ 21" using assms by (intro power_increasing) simp_all
  then have b: "(5 :: nat) ^ (3 * i) * 2 ^ (3 * i) < 2 ^ 1024" unfolding p [symmetric] by (rule le_less_trans) simp
  have "(5 :: nat) ^ (3 * i) \<le> 5 ^ 21" using assms by (intro power_increasing) simp_all
  then have m: "(5 :: nat) ^ (3 * i) < 2 ^ 53" by (rule le_less_trans) simp
  have "positive (float_of_nat (5 ^ (3 * i) * 2 ^ (3 * i))) (real (5 ^ (3 * i) * 2 ^ (3 * i)))"
    by (rule float_of_nat_exact [OF _ m b]) simp
  moreover have "real (10 ^ (3 * i)) = 1000 ^ i" by (simp add: power_mult)
  ultimately show ?thesis unfolding p [symmetric] by (simp only:)
qed

lemma thousands_le:
  "i < 8 \<Longrightarrow> float_of_nat (10 ^ (3 * i)) \<le> Fin False m e \<longleftrightarrow> 1000 ^ i \<le> valof (Fin False m e)"
  using positive_thousands [of i] positive_valof [OF positive_thousands, of i]
  by (auto simp: positive_def float_le_iff)

lemma HumanHash_unit:
  fixes m e
  defines "x \<equiv> Fin False m e"
  assumes "i < 8" "i = 0 \<or> 1000 ^ i \<le> valof x" "i = 7 \<or> valof x < 1000 ^ (i + 1)"
  shows "HumanHash x = Sprintf_2f (if i = 0 then x else x / float_of_nat (10 ^ (3 * i))) @ '' '' @ hash_units ! i"
proof -
  have below: "\<not> float_of_nat (10 ^ (3 * j)) \<le> x" if "i < j" "j < 8" for j
  proof -
    have "valof x < 1000 ^ (i + 1)" using assms(4) that by simp
    also have "\<dots> \<le> 1000 ^ j" using that by (intro power_increasing) simp_all
    finally show ?thesis unfolding x_def using thousands_le [OF that(2)] by simp
  qed
  have at: "float_of_nat (10 ^ (3 * i)) \<le> x" if "i \<noteq> 0"
    using assms(3) that unfolding x_def using thousands_le [OF assms(2)] by simp
  note c = below [of 7, simplified] below [of 6, simplified] below [of 5, simplified]
    below [of 4, simplified] below [of 3, simplified] below [of 2, simplified] below [of 1, simplified]
  consider "i = 0" | "i = 1" | "i = 2" | "i = 3" | "i = 4" | "i = 5" | "i = 6" | "i = 7"
    using assms(2) by linarith
  then show ?thesis using c at by cases (simp_all add: HumanHash_def hash_units_def Let_def)
qed

lemma Sprintf_2f_hundredths:
  assumes "\<not> f_neg x" "finite_float x"
  obtains h where "Sprintf_2f x = show_hundredths h" "\<bar>real h / 100 - valof x\<bar> \<le> 1 / 200"
proof -
  obtain m e where x: "x = Fin False m e" using assms by (cases x) (auto simp: finite_float_def)
  let ?h = "round_at (- e) (100 * m) 1"
  have "real (100 * m) / real 1 / 2 powi (- e) = 100 * valof x"
    by (simp add: x valof_def power_int_minus_divide)
  then have "\<bar>real ?h - 100 * valof x\<bar> \<le> 1 / 2"
    using round_at_error [of 1 "- e" "100 * m"] by (simp only: zero_less_one)
  then have "\<bar>real ?h / 100 - valof x\<bar> \<le> 1 / 200" by linarith
  then show ?thesis by (intro that) (simp_all add: x Sprintf_2f_def hundredths_def)
qed

lemma scaled_value:
  assumes "wf_float x" "finite_float x" "\<not> f_neg x" "i < 8" "i = 0 \<or> 1000 ^ i \<le> valof x"
  shows "let y = if i = 0 then x else x / float_of_nat (10 ^ (3 * i)) in
    finite_float y \<and> \<not> f_neg y \<and> \<bar>valof y - valof x / 1000 ^ i\<bar> \<le> valof x / 1000 ^ i / 2 ^ 53"
proof (cases "i = 0")
  case True
  have "0 \<le> valof x" using assms(2,3) by (auto simp: finite_float_def valof_def split: float64.splits)
  with True assms(2,3) show ?thesis by simp
next
  case False
  obtain m e where x: "x = Fin False m e" using assms(2,3) by (cases x) (auto simp: finite_float_def)
  let ?q = "valof x / 1000 ^ i"
  have "1000 ^ i \<le> valof x" using assms(5) False by simp
  then have v: "0 < valof x" by (rule less_le_trans [rotated]) simp
  then have "positive x (valof x)" using assms(1) by (auto simp: x positive_def valof_def zero_less_mult_iff)
  from div_rounded [OF this positive_thousands [OF assms(4)]]
  have r: "rounded ?q (x / float_of_nat (10 ^ (3 * i)))" .
  have one: "1 \<le> ?q" using \<open>1000 ^ i \<le> valof x\<close> by simp
  have "(2 :: real) powi (- 1022) \<le> 2 powi 0" by (rule power_int_increasing) simp_all
  then have "(2 :: real) powi (- 1022) \<le> 1" by (simp only: power_int_0_right)
  from order_trans [OF this one] have lo: "2 powi (- 1022) \<le> ?q" .
  have "?q \<le> valof x / 1" using v by (intro divide_left_mono) simp_all
  also have "\<dots> \<le> (2 ^ 53 - 1) * 2 powi 971" using wf_float_max [of False m e] assms(1) by (simp add: x valof_def)
  finally obtain \<delta> where d: "positive (x / float_of_nat (10 ^ (3 * i))) (?q * (1 + \<delta>))" "\<bar>\<delta>\<bar> \<le> 1 / 2 ^ 53"
    using rounded_positive [OF r lo] by metis
  have "\<bar>?q * (1 + \<delta>) - ?q\<bar> = ?q * \<bar>\<delta>\<bar>" using one v by (simp add: distrib_left abs_mult)
  also have "\<dots> \<le> ?q * (1 / 2 ^ 53)" by (rule mult_left_mono [OF d(2)]) (use one in linarith)
  finally show ?thesis using False positive_valof [OF d(1)] d(1) by (auto simp: positive_def)
qed

section \<open>Properties\<close>

text \<open>C36: \<open>DifficultyFromBits\<close> is the target of the first block divided by the target of the
  bits: no double is nearer to the exact quotient, and the error is at most \<open>2^-53\<close> of it. The
  difficulty of the zero target is an infinity, and a target of \<open>2^1024\<close> or more is an error.\<close>

theorem DifficultyFromBits_spec:
  assumes "uint32_be bits = Ok c"
  defines "t \<equiv> toCompactSize c" and "q \<equiv> of_int genesis_target / of_int (toCompactSize c) :: real"
  shows "if t = 0 then DifficultyFromBits bits = Ok (Inf False)
    else if 2 ^ 1024 \<le> t then \<exists>e. DifficultyFromBits bits = Err e
    else \<exists>d. DifficultyFromBits bits = Ok d \<and> finite_float d \<and> \<bar>valof d - q\<bar> \<le> q / 2 ^ 53 \<and>
      (\<forall>x. wf_float x \<and> finite_float x \<longrightarrow> \<bar>valof d - q\<bar> \<le> \<bar>valof x - q\<bar>)"
proof -
  consider "t = 0" | "2 ^ 1024 \<le> t" "t \<noteq> 0" | "0 < t" "t < 2 ^ 1024"
    unfolding t_def using toCompactSize_eq [of c] by (cases "toCompactSize c = 0") (fastforce+)
  then show ?thesis
  proof cases
    case 1
    obtain m e where "float_of_int genesis_target = Fin False m e" "0 < m"
      using genesis_float by (auto simp: positive_def)
    with 1 assms(1) have "DifficultyFromBits bits = Ok (Inf False)"
      by (simp add: DifficultyFromBits_def targetToDifficulty_def t_def ParseFloat_int_def
          float_of_int_def [of 0] round64_def divide_float64_def)
    with 1 show ?thesis by simp
  next
    case 2
    with ParseFloat_overflow [OF 2(1)] assms(1) show ?thesis
      by (auto simp: DifficultyFromBits_def targetToDifficulty_def t_def Let_def)
  next
    case 3
    obtain d \<delta> where d: "DifficultyFromBits bits = Ok d" "rounded q d" "positive d (q * (1 + \<delta>))"
      "\<bar>\<delta>\<bar> \<le> 1 / 2 ^ 53"
      using 3 unfolding q_def t_def by (rule DifficultyFromBits_rounded [OF assms(1)])
    have "0 < q" using 3 by (simp add: q_def t_def genesis_target_def)
    have "valof d - q = q * \<delta>" using positive_valof [OF d(3)] by (simp add: algebra_simps)
    then have "\<bar>valof d - q\<bar> \<le> q * (1 / 2 ^ 53)"
      using d(4) \<open>0 < q\<close> by (simp only: abs_mult abs_of_pos) (rule mult_left_mono, simp_all)
    moreover have "\<forall>x. wf_float x \<and> finite_float x \<longrightarrow> \<bar>valof d - q\<bar> \<le> \<bar>valof x - q\<bar>"
      using rounded_nearest [OF d(2)] positive_valof [OF d(3)] by blast
    ultimately show ?thesis using 3 d(1) positive_valof [OF d(3)] by auto
  qed
qed

theorem DifficultyFromBits_spec_witness:
  "\<exists>d. DifficultyFromBits [0x1d, 0, 0xff, 0xff] = Ok d \<and> finite_float d \<and> \<bar>valof d - 1\<bar> \<le> 1 / 2 ^ 53"
proof -
  have t: "toCompactSize 0x1d00ffff = genesis_target"
    using toCompactSize_eq [of "0x1d00ffff"] by (simp add: genesis_target_def)
  then have "(of_int genesis_target / of_int (toCompactSize 0x1d00ffff) :: real) = 1"
    by (simp add: genesis_target_def)
  with DifficultyFromBits_spec [OF sample_bits(1)] t show ?thesis by (auto simp: genesis_target_def)
qed

text \<open>A smaller target never has a smaller difficulty.\<close>

lemma DifficultyFromBits_mono:
  assumes "uint32_be bits = Ok c" "uint32_be bits' = Ok c'"
    and "0 < toCompactSize c'" "toCompactSize c' \<le> toCompactSize c" "toCompactSize c < 2 ^ 1024"
  shows "\<exists>d d'. DifficultyFromBits bits = Ok d \<and> DifficultyFromBits bits' = Ok d' \<and> d \<le> d'"
proof -
  let ?q = "\<lambda>c. of_int genesis_target / of_int (toCompactSize c) :: real"
  have c: "0 < toCompactSize c" "toCompactSize c' < 2 ^ 1024" using assms(3-5) by simp_all
  obtain d \<delta> where d: "DifficultyFromBits bits = Ok d" "rounded (?q c) d" "positive d (?q c * (1 + \<delta>))"
    by (rule DifficultyFromBits_rounded [OF assms(1) c(1) assms(5)])
  obtain d' \<delta>' where d': "DifficultyFromBits bits' = Ok d'" "rounded (?q c') d'"
    "positive d' (?q c' * (1 + \<delta>'))"
    by (rule DifficultyFromBits_rounded [OF assms(2,3) c(2)])
  have "?q c \<le> ?q c'" using assms(3,4) by (intro divide_left_mono) (simp_all add: genesis_target_def)
  from rounded_mono [OF d(2) d'(2) this] d d' show ?thesis by (auto dest: positive_valof)
qed

text \<open>C37: \<open>DifficultyToHashrate\<close> is the difficulty times the expected number of hashes of the
  easiest block (\<open>2^256\<close> over its target, which depends on the first letter of the coin) over
  the seconds per block, with a relative error of at most \<open>2^-49\<close>.\<close>

theorem DifficultyToHashrate_error:
  assumes "coin \<noteq> []" "0 < unat diff" "positive targetSeconds s"
  defines "rate \<equiv> real (unat diff) * (2 ^ 256 / of_int (easiest_target coin)) / s"
  assumes "2 powi (- 1021) \<le> rate" "rate \<le> 2 ^ 1022"
  shows "\<exists>h. DifficultyToHashrate coin diff targetSeconds = Ok h \<and> finite_float h \<and>
    \<bar>valof h - rate\<bar> \<le> rate / 2 ^ 49"
proof -
  obtain g p where g: "DifficultyToHashrate coin diff targetSeconds =
      Ok (float_of_nat (unat diff) * g / targetSeconds)"
    "positive g (2 ^ 256 / of_int (easiest_target coin) * p)" "\<bar>p - 1\<bar> \<le> 2 / 2 ^ 53"
    by (rule hashrate_genesis [OF assms(1)])
  obtain p1 where p1: "positive (float_of_nat (unat diff)) (real (unat diff) * p1)" "\<bar>p1 - 1\<bar> \<le> 2 / 2 ^ 53"
    by (rule float_of_u64 [OF assms(2)])
  let ?G = "2 ^ 256 / of_int (easiest_target coin) :: real"
  have pp: "\<bar>p1 * p - 1\<bar> \<le> 6 / 2 ^ 53" by (rule approx_mult [OF p1(2) g(3)]) simp_all
  have size: "1 \<le> real (unat diff) * ?G" "real (unat diff) * ?G \<le> 2 ^ 100"
    by (rule hashrate_size [OF assms(2)])+
  have "rounded (real (unat diff) * ?G * (p1 * p)) (float_of_nat (unat diff) * g)"
    using mul_rounded [OF p1(1) g(2)] by (simp add: mult_ac)
  from rounded_approx [OF this pp _ small_range, of "8 / 2 ^ 53"] size
  obtain p2 where p2: "positive (float_of_nat (unat diff) * g) (real (unat diff) * ?G * p2)"
    "\<bar>p2 - 1\<bar> \<le> 8 / 2 ^ 53" by auto
  have "rounded (rate * p2) (float_of_nat (unat diff) * g / targetSeconds)"
    using div_rounded [OF p2(1) assms(3)] by (simp add: rate_def mult_ac)
  from rounded_approx [OF this p2(2) _ assms(5,6), of "10 / 2 ^ 53"]
  obtain p3 where p3: "positive (float_of_nat (unat diff) * g / targetSeconds) (rate * p3)"
    "\<bar>p3 - 1\<bar> \<le> 10 / 2 ^ 53" by auto
  have "0 < rate" using assms(5) by (rule less_le_trans [rotated]) simp
  have "\<bar>rate * p3 - rate\<bar> = rate * \<bar>p3 - 1\<bar>"
    using \<open>0 < rate\<close> by (simp add: abs_mult flip: right_diff_distrib [of rate p3 1, simplified])
  also have "\<dots> \<le> rate * (1 / 2 ^ 49)" using p3(2) \<open>0 < rate\<close> by (intro mult_left_mono) simp_all
  finally show ?thesis using g(1) positive_valof [OF p3(1)] by simp
qed

theorem DifficultyToHashrate_error_witness:
  "\<exists>h. DifficultyToHashrate ''BSV'' 22000 (float_of_nat 7) = Ok h \<and>
     \<bar>valof h - 22000 * (2 ^ 48 / 0xFFFF) / 7\<bar> \<le> 22000 * (2 ^ 48 / 0xFFFF) / 7 / 2 ^ 49"
proof -
  have "positive (float_of_nat (7 * 2 ^ 0)) (real (7 * 2 ^ 0))" by (rule float_of_nat_exact) simp_all
  then have seven: "positive (float_of_nat 7) 7" by simp
  have rate: "real (unat (22000 :: u64)) * (2 ^ 256 / of_int (easiest_target ''BSV'')) / 7 =
      22000 * (2 ^ 48 / 0xFFFF) / 7"
    by (simp add: easiest_target_def)
  have range: "2 powi (- 1021) \<le> (22000 * (2 ^ 48 / 0xFFFF) / 7 :: real)"
    "(22000 * (2 ^ 48 / 0xFFFF) / 7 :: real) \<le> 2 ^ 1022"
    by (rule small_range; simp)+
  from DifficultyToHashrate_error [OF _ _ seven, of "''BSV''" 22000, unfolded rate, OF _ _ range]
  show ?thesis by fastforce
qed

text \<open>C38: \<open>HumanHash\<close> prints a hash rate in the unit whose prefix fits it (the highest one from
  \<open>10^21\<close> on): the two-digit decimal is within half a hundredth, and one rounding, of the rate in
  that unit. The decimal lies between 1.00 and 1000.00, so it may be 1000.00 of one unit where 1.00
  of the next would do.\<close>

theorem HumanHash_spec:
  assumes "wf_float x" "finite_float x" "\<not> f_neg x"
    and "i < 8" "i = 0 \<or> 1000 ^ i \<le> valof x" "i = 7 \<or> valof x < 1000 ^ (i + 1)"
  defines "v \<equiv> valof x / 1000 ^ i"
  shows "\<exists>h. HumanHash x = show_hundredths h @ '' '' @ hash_units ! i \<and>
    \<bar>real h / 100 - v\<bar> \<le> 1 / 200 + v / 2 ^ 53 \<and>
    (if i = 0 then 0 \<le> h else 100 \<le> h) \<and> (if i = 7 then 0 \<le> h else h \<le> 100000)"
proof -
  obtain m e where x: "x = Fin False m e" using assms(2,3) by (cases x) (auto simp: finite_float_def)
  define y where "y = (if i = 0 then x else x / float_of_nat (10 ^ (3 * i)))"
  have y: "finite_float y" "\<not> f_neg y" "\<bar>valof y - v\<bar> \<le> v / 2 ^ 53"
    using scaled_value [OF assms(1-5)] unfolding Let_def y_def v_def by blast+
  obtain h where h: "Sprintf_2f y = show_hundredths h" "\<bar>real h / 100 - valof y\<bar> \<le> 1 / 200"
    by (rule Sprintf_2f_hundredths [OF y(2,1)])
  have "HumanHash x = show_hundredths h @ '' '' @ hash_units ! i"
    using HumanHash_unit [OF assms(4), of m e] assms(5,6) h(1) by (simp only: x y_def)
  moreover have err: "\<bar>real h / 100 - v\<bar> \<le> 1 / 200 + v / 2 ^ 53" using h(2) y(3) by linarith
  moreover have "0 \<le> v"
    unfolding v_def x valof_def using assms(3) x by simp
  then have "v / 2 ^ 53 \<le> v / 1000000" by (intro divide_left_mono) simp_all
  with err have err': "\<bar>real h / 100 - v\<bar> \<le> 1 / 200 + v / 1000000" by linarith
  moreover have "100 \<le> h" if "i \<noteq> 0"
  proof -
    have "1 \<le> v" using assms(5) that by (simp add: v_def)
    with err' have "99 < real h" by linarith
    then show ?thesis by linarith
  qed
  moreover have "h \<le> 100000" if "i \<noteq> 7"
  proof -
    have "v < 1000" using assms(6) that by (simp add: v_def pos_divide_less_eq)
    with err' have "real h < 100001" by linarith
    then show ?thesis by linarith
  qed
  ultimately show ?thesis by auto
qed

theorem HumanHash_spec_witness:
  "HumanHash (float_of_nat 999999) = ''1000.00 kH/s''"
proof -
  have "positive (float_of_nat (999999 * 2 ^ 0)) (real (999999 * 2 ^ 0))"
    by (rule float_of_nat_exact) simp_all
  then have x: "positive (float_of_nat 999999) 999999" by simp
  note v = positive_valof [OF x]
  have "\<not> f_neg (float_of_nat 999999)" using x by (auto simp: positive_def)
  with HumanHash_spec [of "float_of_nat 999999" 1] v obtain h where
    h: "HumanHash (float_of_nat 999999) = show_hundredths h @ '' '' @ hash_units ! 1"
    "\<bar>real h / 100 - 999999 / 1000\<bar> \<le> 1 / 200 + 999999 / 1000 / 2 ^ 53"
    by auto
  have "(1 / 200 + 999999 / 1000 / 2 ^ 53 :: real) \<le> 1 / 150" by simp
  with h(2) have "\<bar>real h / 100 - 999999 / 1000\<bar> \<le> 1 / 150" by linarith
  then have "h = 100000" by linarith
  moreover have "char_of (48 :: nat) = CHR ''0''" "char_of (49 :: nat) = CHR ''1''" by code_simp+
  ultimately show ?thesis using h(1) by (simp add: show_hundredths_def show_nat.simps hash_units_def)
qed

end
