(* ===== verification/Mapi_Callback.thy ===== *)
theory Mapi_Callback
  imports Json_Decode
begin

text \<open>
  \<open>mapicallback.go\<close>: the body a miner posts when a transaction is mined, and its JSON text.
\<close>

record MapiCallback =
  mc_CallbackPayload :: string
  mc_APIVersion :: string
  mc_Timestamp :: string
  mc_MinerID :: string
  mc_BlockHash :: string
  mc_BlockHeight :: u64
  mc_CallbackTxID :: string
  mc_CallbackReason :: string

definition zero_MapiCallback :: MapiCallback where
  "zero_MapiCallback =
     \<lparr> mc_CallbackPayload = '''', mc_APIVersion = '''', mc_Timestamp = '''', mc_MinerID = '''',
       mc_BlockHash = '''', mc_BlockHeight = 0, mc_CallbackTxID = '''', mc_CallbackReason = '''' \<rparr>"

text \<open>The tags of the fields.\<close>

definition mapi_fields :: "(string \<times> MapiCallback decoder) list" where
  "mapi_fields =
     [(''callbackPayload'', dec_field dec_string mc_CallbackPayload mc_CallbackPayload_update),
      (''apiVersion'', dec_field dec_string mc_APIVersion mc_APIVersion_update),
      (''timestamp'', dec_field dec_string mc_Timestamp mc_Timestamp_update),
      (''minerId'', dec_field dec_string mc_MinerID mc_MinerID_update),
      (''blockHash'', dec_field dec_string mc_BlockHash mc_BlockHash_update),
      (''blockHeight'', dec_field dec_uint mc_BlockHeight mc_BlockHeight_update),
      (''callbackTxId'', dec_field dec_string mc_CallbackTxID mc_CallbackTxID_update),
      (''callbackReason'', dec_field dec_string mc_CallbackReason mc_CallbackReason_update)]"

definition mapi_members :: "MapiCallback \<Rightarrow> (string \<times> json) list" where
  "mapi_members m =
     [(''callbackPayload'', JStr (mc_CallbackPayload m)), (''apiVersion'', JStr (mc_APIVersion m)),
      (''timestamp'', JStr (mc_Timestamp m)), (''minerId'', JStr (mc_MinerID m)),
      (''blockHash'', JStr (mc_BlockHash m)), (''blockHeight'', json_uint (mc_BlockHeight m)),
      (''callbackTxId'', JStr (mc_CallbackTxID m)), (''callbackReason'', JStr (mc_CallbackReason m))]"

definition mapi_decode :: "json \<Rightarrow> MapiCallback option" where
  "mapi_decode j = dec_struct mapi_fields j zero_MapiCallback"

definition NewMapiCallbackFromBytes :: "bytes \<Rightarrow> MapiCallback res" where
  "NewMapiCallbackFromBytes b = json_Unmarshal mapi_decode (bytes_text b)"

text \<open>Strings and integers always marshal, so there is no error.\<close>

definition MapiCallback_Bytes :: "MapiCallback \<Rightarrow> bytes res" where
  "MapiCallback_Bytes mcb = Ok (text_bytes (json_print (JObj (mapi_members mcb))))"

section \<open>The contract\<close>

definition wf_MapiCallback :: "MapiCallback \<Rightarrow> bool" where
  "wf_MapiCallback m \<longleftrightarrow>
     valid_utf8 (mc_CallbackPayload m) \<and> valid_utf8 (mc_APIVersion m) \<and> valid_utf8 (mc_Timestamp m) \<and>
     valid_utf8 (mc_MinerID m) \<and> valid_utf8 (mc_BlockHash m) \<and> valid_utf8 (mc_CallbackTxID m) \<and>
     valid_utf8 (mc_CallbackReason m)"

lemma dec_members_mapi: "dec_members mapi_fields (mapi_members m) old = Some m"
  by (cases m) (simp add: mapi_fields_def mapi_members_def find_field_def)

lemma mapi_names_utf8: "list_all (\<lambda>m. valid_utf8 (fst m)) (mapi_members m)"
  by (simp add: mapi_members_def valid_utf8_ascii)

interpretation mapi: json_codec wf_MapiCallback "\<lambda>m. JObj (mapi_members m)" mapi_decode
proof
  fix m
  show "mapi_decode (JObj (mapi_members m)) = Some m"
    by (simp add: mapi_decode_def dec_struct_def dec_members_mapi)
  show "fits 4 (JObj (mapi_members m))"
    by (simp add: mapi_members_def json_uint_def numeral_eq_Suc)
  show "json_utf8 (JObj (mapi_members m))" if "wf_MapiCallback m"
    using that mapi_names_utf8 [of m] by (simp add: mapi_members_def wf_MapiCallback_def)
qed

lemma wf_zero_MapiCallback: "wf_MapiCallback zero_MapiCallback"
  by (simp add: wf_MapiCallback_def zero_MapiCallback_def)

lemma mapi_field_wf:
  assumes "(n, d) \<in> set mapi_fields" "json_utf8 j" "wf_MapiCallback r" "d j r = Some r'"
  shows "wf_MapiCallback r'"
proof -
  from assms(1) consider "d = dec_field dec_uint mc_BlockHeight mc_BlockHeight_update"
    | get upd where "d = dec_field dec_string get upd"
      "valid_utf8 (get r)" "\<And>s. valid_utf8 s \<Longrightarrow> wf_MapiCallback (upd (\<lambda>_. s) r)"
    using assms(3) by (auto simp: mapi_fields_def wf_MapiCallback_def)
  then show ?thesis
  proof cases
    case 1
    then show ?thesis using assms(3,4) by (auto simp: dec_field_def wf_MapiCallback_def)
  next
    case 2
    show ?thesis using dec_string_field_wf [where P = wf_MapiCallback] assms(2,4) 2 by blast
  qed
qed

lemma mapi_decode_wf: 
  assumes "json_utf8 j" "mapi_decode j = Some m"
  shows "wf_MapiCallback m"
proof (cases j)
  case (JObj ms)
  then have "list_all (\<lambda>m. json_utf8 (snd m)) ms" using assms(1) by (auto simp: list_all_iff)
  moreover have "dec_members mapi_fields ms zero_MapiCallback = Some m"
    using assms(2) JObj by (simp add: mapi_decode_def dec_struct_def)
  ultimately show ?thesis
    using wf_zero_MapiCallback dec_members_inv [where P = wf_MapiCallback and fs = mapi_fields] mapi_field_wf
    by metis
qed (use assms(2) wf_zero_MapiCallback in \<open>auto simp: mapi_decode_def dec_struct_def\<close>)

text \<open>The text of a callback, as a chunk of data.\<close>

definition callback_text :: "MapiCallback \<Rightarrow> bytes" where
  "callback_text m = text_bytes (json_print (JObj (mapi_members m)))"

definition sized_callback :: "MapiCallback \<Rightarrow> bool" where
  "sized_callback m \<longleftrightarrow> wf_MapiCallback m \<and> length (callback_text m) < 2 ^ 64"

lemma callback_codec:
  "MapiCallback_Bytes m = Ok (callback_text m)"
  "wf_MapiCallback m \<Longrightarrow> NewMapiCallbackFromBytes (callback_text m) = Ok m"
  using mapi.Unmarshal_print [of m]
  by (simp_all add: MapiCallback_Bytes_def callback_text_def NewMapiCallbackFromBytes_def)

section \<open>Properties\<close>

definition sample_callback :: MapiCallback where
  "sample_callback = zero_MapiCallback\<lparr> mc_APIVersion := ''1.4.0'', mc_BlockHeight := 773 \<rparr>"

lemma sized_sample_callback: "sized_callback sample_callback"
proof -
  have "wf_MapiCallback sample_callback"
    by (simp add: sample_callback_def wf_MapiCallback_def zero_MapiCallback_def valid_utf8_ascii)
  moreover have "length (callback_text sample_callback) < 2 ^ 64"
    using length_json_quote [of "''callbackPayload''"] length_json_quote [of "''apiVersion''"]
      length_json_quote [of "''timestamp''"] length_json_quote [of "''minerId''"]
      length_json_quote [of "''blockHash''"] length_json_quote [of "''blockHeight''"]
      length_json_quote [of "''callbackTxId''"] length_json_quote [of "''callbackReason''"]
      length_json_quote [of "''1.4.0''"] length_json_quote [of "[]"]
    by (simp add: callback_text_def mapi_members_def json_uint_def show_nat.simps
        sample_callback_def zero_MapiCallback_def)
  ultimately show ?thesis by (simp add: sized_callback_def)
qed

text \<open>C33: whatever the bytes were, a callback that was read holds UTF-8 strings only, and it is read
  back from the text it is written as.\<close>

theorem NewMapiCallbackFromBytes_stable:
  assumes "NewMapiCallbackFromBytes b = Ok m"
  shows "wf_MapiCallback m \<and>
    (\<exists>b'. MapiCallback_Bytes m = Ok b' \<and> NewMapiCallbackFromBytes b' = Ok m)"
proof -
  have "wf_MapiCallback m"
    using json_Unmarshal_OkD [OF assms [unfolded NewMapiCallbackFromBytes_def]] mapi_decode_wf by blast
  then show ?thesis
    using mapi.Unmarshal_print by (simp add: MapiCallback_Bytes_def NewMapiCallbackFromBytes_def)
qed

theorem NewMapiCallbackFromBytes_stable_witness:
  "wf_MapiCallback sample_callback"
proof -
  have "wf_MapiCallback sample_callback"
    by (simp add: sample_callback_def wf_MapiCallback_def zero_MapiCallback_def valid_utf8_ascii)
  then have "NewMapiCallbackFromBytes (text_bytes (json_print (JObj (mapi_members sample_callback)))) = Ok sample_callback"
    using mapi.Unmarshal_print by (simp add: NewMapiCallbackFromBytes_def)
  from NewMapiCallbackFromBytes_stable [OF this] show ?thesis by blast
qed

text \<open>the text of a callback is not kept. A document with one more member, whose name no field
  has, is read as the same callback, and \<open>Bytes\<close> writes a different document: the signature of
  the miner over the posted bytes cannot be checked any more.\<close>

theorem MapiCallback_unknown_lost:
  assumes "wf_MapiCallback m" "find_field mapi_fields k = None" "valid_utf8 k" "json_utf8 j" "fits 3 j"
    and "b = text_bytes (json_print (JObj (mapi_members m @ [(k, j)])))"
  shows "NewMapiCallbackFromBytes b = Ok m \<and> MapiCallback_Bytes m \<noteq> Ok b"
proof -
  let ?j = "JObj (mapi_members m @ [(k, j)])"
  have "fits 3 (snd x)" if "x \<in> set (mapi_members m)" for x
    using that by (auto simp: mapi_members_def json_uint_def numeral_eq_Suc)
  then have fits: "fits 4 ?j" "fits 4 (JObj (mapi_members m))"
    using assms(5) by (auto simp: numeral_eq_Suc list_all_iff)
  have utf8: "json_utf8 (JObj (mapi_members m))" using assms(1) by (rule mapi.utf8_to_json)
  then have utf8': "json_utf8 ?j" using assms(3,4) by simp
  have "json_parse (json_print ?j) = Some ?j"
    using json_parse_print [of ?j] fits_mono [OF fits(1)] clean_json_utf8 [OF utf8']
    by (simp add: max_depth_def)
  moreover have "mapi_decode ?j = Some m"
    using dec_members_unknown [OF assms(2), of "mapi_members m" j "[]" zero_MapiCallback]
    by (simp add: mapi_decode_def dec_struct_def dec_members_mapi)
  ultimately have "NewMapiCallbackFromBytes b = Ok m"
    by (simp add: NewMapiCallbackFromBytes_def json_Unmarshal_def assms(6))
  moreover have "json_print (JObj (mapi_members m)) \<noteq> json_print ?j"
    using json_print_inject [OF fits(2,1)] clean_json_utf8 [OF utf8] clean_json_utf8 [OF utf8'] by auto
  ultimately show ?thesis by (simp add: MapiCallback_Bytes_def assms(6))
qed

theorem MapiCallback_unknown_lost_witness:
  "\<exists>b b'. NewMapiCallbackFromBytes b = Ok sample_callback \<and> MapiCallback_Bytes sample_callback = Ok b' \<and> b' \<noteq> b"
proof -
  have "find_field mapi_fields ''signature'' = None"
    by (rule find_field_ascii) (simp_all add: mapi_fields_def lower_def in_range_def)
  moreover have "wf_MapiCallback sample_callback"
    by (simp add: sample_callback_def wf_MapiCallback_def zero_MapiCallback_def valid_utf8_ascii)
  ultimately show ?thesis
    using MapiCallback_unknown_lost [of sample_callback "''signature''" "JStr ''00''"]
    by (auto simp: valid_utf8_ascii MapiCallback_Bytes_def numeral_eq_Suc)
qed

end
