(* ===== verification/Ancestry.thy ===== *)
theory Ancestry
  imports Merkle_Proof Mapi_Callback "HOL-Library.AList" "HOL-Library.Multiset"
begin

text \<open>
  \<open>spv/ancestry_binary.go\<close>, \<open>spv/ancestry_json.go\<close> and \<open>spv/ancestry_tsc_json.go\<close>: the
  ancestry of a payment, in binary and as structures. The map from 32-byte ids to ancestors is an
  association list without duplicate keys; the order in which Go ranges over it is an argument of
  the operations that depend on it. So are the conversions \<open>marshal\<close> and \<open>unmarshal\<close> of a
  callback: most properties hold for any, and \<open>Mapi_Callback\<close> has those of the code.
\<close>

type_synonym unmarshal_mapi = "bytes \<Rightarrow> MapiCallback res"
type_synonym marshal_mapi = "MapiCallback \<Rightarrow> bytes res"

section \<open>Parsing\<close>

definition flagTx :: byte where "flagTx = 1"
definition flagProof :: byte where "flagProof = 2"
definition flagMapi :: byte where "flagMapi = 3"

text \<open>A nil \<open>Proof\<close> is \<open>None\<close>; a parsed chunk, even an empty one, is not nil. A proof is a part of the
  slice that was parsed and keeps what lies behind it within its capacity.\<close>

record ancestry =
  an_Tx :: Tx
  an_Proof :: "slice option"
  an_MapiResponses :: "MapiCallback list"

type_synonym ancestors = "(bytes \<times> ancestry) list"

record binaryChunk =
  ContentType :: byte
  Data :: bytes

text \<open>The slice \<open>Data\<close> of a chunk is a part of \<open>b\<close>: its spare capacity is what is left to read, the
  second component of the result.\<close>

definition parseChunk :: "binaryChunk reader" where
  "parseChunk b =
     bind_res (next_byte b) (\<lambda>(typeOfNextData, r1).
     bind_res (read_varint r1) (\<lambda>(l, r2).
     bind_res (take_bytes (unat l) r2) (\<lambda>(data, r3).
       Ok (\<lparr> ContentType = typeOfNextData, Data = data \<rparr>, r3))))"

lemma take_bytes_rest: "take_bytes n bs = Ok (a, r) \<Longrightarrow> length r \<le> length bs"
  by (auto simp: take_bytes_def split: if_splits)

lemma parseChunk_less: "parseChunk b = Ok (c, r) \<Longrightarrow> length r < length b"
  by (auto simp: parseChunk_def go_simps dest!: next_byte_OkD read_varint_less take_bytes_rest)

text \<open>\<open>for allBinary > internalOffset\<close>\<close>

function split_responses :: "cursor \<Rightarrow> bytes list res" where
  "split_responses b =
     (if fst b \<le> 0 then Ok []
      else bind_res (slice_varint b) (\<lambda>(l, r1).
           bind_res (slice_take (unat l) r1) (\<lambda>(response, r2).
           bind_res (split_responses r2) (\<lambda>responses. Ok (response # responses)))))"
  by pat_completeness auto
termination
  by (relation "measure (length \<circ> snd)") (auto dest!: slice_varint_less slice_take_rest)

declare split_responses.simps [simp del]

text \<open>The count byte in front is not compared with the number of responses.\<close>

definition parseMapiCallbacks :: "unmarshal_mapi \<Rightarrow> slice \<Rightarrow> MapiCallback list res" where
  "parseMapiCallbacks unmarshal b =
     (if length (fst b) = 0 then Err (SpvErr ErrTriedToParseZeroBytes)
      else if fst b ! 0 = 0 \<and> length (fst b) = 1 then Err (SpvErr ErrTriedToParseZeroBytes)
      else bind_res (split_responses (cursor_of (drop 1 (fst b), snd b))) (map_res unmarshal))"

definition set_ancestor :: "bytes \<Rightarrow> (ancestry \<Rightarrow> ancestry) \<Rightarrow> ancestors \<Rightarrow> ancestors res" where
  "set_ancestor txid f aa =
     (case map_of aa txid of
        None \<Rightarrow> Panic NilDereference
      | Some a \<Rightarrow> Ok (AList.update txid (f a) aa))"

text \<open>The loop over the chunks, with the id of the last transaction read.\<close>

function parse_chunks :: "unmarshal_mapi \<Rightarrow> bytes \<Rightarrow> ancestors \<Rightarrow> bytes \<Rightarrow> ancestors res" where
  "parse_chunks unmarshal txid aa b =
     (if b = [] then Ok aa
      else bind_res (parseChunk b) (\<lambda>(chunk, r).
        if ContentType chunk = flagTx then
          let txid' = ReverseBytes (Sha256d (Data chunk)) in
          bind_res (NewTxFromBytes (Data chunk)) (\<lambda>tx.
            if length (tx_Inputs tx) = 0 then Err (SpvErr ErrNoTxInputsToVerify)
            else parse_chunks unmarshal txid'
                   (AList.update txid' \<lparr> an_Tx = tx, an_Proof = None, an_MapiResponses = [] \<rparr> aa) r)
        else if ContentType chunk = flagProof then
          bind_res (set_ancestor txid (\<lambda>a. a\<lparr> an_Proof := Some (Data chunk, r) \<rparr>) aa) (\<lambda>aa'.
            parse_chunks unmarshal txid aa' r)
        else if ContentType chunk = flagMapi then
          bind_res (parseMapiCallbacks unmarshal (Data chunk, r)) (\<lambda>callBacks.
          bind_res (set_ancestor txid (\<lambda>a. a\<lparr> an_MapiResponses := callBacks \<rparr>) aa) (\<lambda>aa'.
            parse_chunks unmarshal txid aa' r))
        else parse_chunks unmarshal txid aa r))"
  by pat_completeness auto
termination
  by (relation "measure (\<lambda>(u, t, aa, b). length b)") (auto dest: parseChunk_less)

declare parse_chunks.simps [simp del]

definition parseAncestry :: "unmarshal_mapi \<Rightarrow> bytes \<Rightarrow> ancestors res" where
  "parseAncestry unmarshal b =
     bind_res (go_index b 0) (\<lambda>version.
       if version \<noteq> 1 then Err (SpvErr ErrUnsupporredVersion)
       else if length b = 1 then Err (SpvErr ErrCannotCalculateFeePaid)
       else bind_res (go_index b 1) (\<lambda>t.
         if t \<noteq> 1 then Err (SpvErr ErrTipTxConfirmed)
         else parse_chunks unmarshal (replicate 32 0) [] (drop 1 b)))"

section \<open>The TSC structure\<close>

record TSCAncestryJSON =
  tsc_RawTx :: string
  tsc_Proof :: "MerkleProof option"
  tsc_MapiResponses :: "MapiCallback list"

definition chunk_Bytes :: "byte \<Rightarrow> bytes \<Rightarrow> bytes" where
  "chunk_Bytes flag data = flag # VarInt_Bytes (of_nat (length data)) @ data"

text \<open>A count and the length-prefixed responses, after the flag: no length of the whole.\<close>

definition mapi_Bytes :: "marshal_mapi \<Rightarrow> MapiCallback list \<Rightarrow> bytes res" where
  "mapi_Bytes marshal responses =
     (if length responses > 0 then
        bind_res (map_res (\<lambda>m. bind_res (marshal m) (\<lambda>mapiR.
            Ok (VarInt_Bytes (of_nat (length mapiR)) @ mapiR))) responses) (\<lambda>items.
          Ok (flagMapi # VarInt_Bytes (of_nat (length responses)) @ concat items))
      else Ok [])"

definition TSCAncestry_Bytes :: "marshal_mapi \<Rightarrow> TSCAncestryJSON \<Rightarrow> bytes res" where
  "TSCAncestry_Bytes marshal ancestor =
     bind_res (hex_DecodeString (tsc_RawTx ancestor)) (\<lambda>rawTx.
     bind_res (case tsc_Proof ancestor of
                 None \<Rightarrow> Ok []
               | Some p \<Rightarrow> bind_res (MerkleProof_Bytes p) (\<lambda>rawProof. Ok (chunk_Bytes flagProof rawProof)))
       (\<lambda>proof.
     bind_res (mapi_Bytes marshal (tsc_MapiResponses ancestor)) (\<lambda>mapi.
       Ok (chunk_Bytes flagTx rawTx @ proof @ mapi))))"

definition TSCAncestries_Bytes :: "marshal_mapi \<Rightarrow> TSCAncestryJSON list \<Rightarrow> bytes res" where
  "TSCAncestries_Bytes marshal j =
     bind_res (map_res (TSCAncestry_Bytes marshal) j) (\<lambda>items. Ok (1 # concat items))"

definition flagProofType :: "byte \<Rightarrow> string" where
  "flagProofType flags =
     (if flags AND 6 = 0 \<or> flags AND 6 = 4 then ''blockhash''
      else if flags AND 6 = 2 then ''header'' else '''')"

definition ancestor_json :: "ancestry \<Rightarrow> TSCAncestryJSON res" where
  "ancestor_json ancestor =
     (let a = \<lparr> tsc_RawTx = Tx_String (an_Tx ancestor), tsc_Proof = None,
                tsc_MapiResponses = an_MapiResponses ancestor \<rparr>
      in case an_Proof ancestor of
           None \<Rightarrow> Ok a
         | Some p \<Rightarrow> bind_res (parseBinaryMerkleProof p) (\<lambda>mpb.
             Ok (a\<lparr> tsc_Proof := Some \<lparr> pf_Index = mpb_index mpb, pf_TxOrID = mpb_txOrID mpb,
               pf_Target = mpb_target mpb, pf_Nodes = mpb_nodes mpb, pf_TargetType = '''',
               pf_ProofType = flagProofType (mpb_flags mpb), pf_Composite = False \<rparr> \<rparr>)))"

text \<open>\<open>ord\<close> is the order of \<open>range\<close> over the map.\<close>

definition NewAncestryJSONFromBytes ::
  "unmarshal_mapi \<Rightarrow> (ancestors \<Rightarrow> ancestors) \<Rightarrow> bytes \<Rightarrow> TSCAncestryJSON list res" where
  "NewAncestryJSONFromBytes unmarshal ord b =
     bind_res (parseAncestry unmarshal b) (\<lambda>aa. map_res (\<lambda>(k, a). ancestor_json a) (ord aa))"

section \<open>The nested structure\<close>

text \<open>The parents, a map from ids, are an association list in the order of \<open>range\<close>.\<close>

datatype AncestryJSON = AncestryJSON
  (aj_TxID: string) (aj_RawTx: string) (aj_Proof: "MerkleProof option")
  (aj_MapiResponses: "MapiCallback list") (aj_Parents: "(string \<times> AncestryJSON) list")

definition IsAnchored :: "AncestryJSON \<Rightarrow> bool" where
  "IsAnchored e \<longleftrightarrow> aj_Proof e \<noteq> None"

definition HasParents :: "AncestryJSON \<Rightarrow> bool" where
  "HasParents e \<longleftrightarrow> length (aj_Parents e) > 0"

definition ParentTx :: "AncestryJSON \<Rightarrow> string \<Rightarrow> Tx res" where
  "ParentTx e txID =
     (case map_of (aj_Parents e) txID of
        None \<Rightarrow> Err (WrapErr (SpvErr ErrNotAllInputsSupplied)
                       (''expected parent tx '' @ txID @ '' is missing''))
      | Some env \<Rightarrow> NewTxFromString (aj_RawTx env))"

fun serialiseInputs :: "marshal_mapi \<Rightarrow> (string \<times> AncestryJSON) list \<Rightarrow> bytes res" where
  "serialiseInputs marshal [] = Ok []"
| "serialiseInputs marshal ((k, AncestryJSON txid rawTx proof mapis pars) # rest) =
     bind_res (hex_DecodeString rawTx) (\<lambda>currentTx.
     bind_res (mapi_Bytes marshal mapis) (\<lambda>mapi.
     bind_res (case proof of
                 Some p \<Rightarrow> bind_res
                   (wrap_err ''Failed to serialise this input's proof struct'' (MerkleProof_Bytes p))
                   (\<lambda>b. Ok (chunk_Bytes flagProof b))
               | None \<Rightarrow> if length pars > 0 then serialiseInputs marshal pars else Ok []) (\<lambda>more.
     bind_res (serialiseInputs marshal rest) (\<lambda>others.
       Ok (chunk_Bytes flagTx currentTx @ mapi @ more @ others)))))"

definition AncestryJSON_Bytes :: "marshal_mapi \<Rightarrow> AncestryJSON \<Rightarrow> bytes res" where
  "AncestryJSON_Bytes marshal e =
     bind_res (serialiseInputs marshal (aj_Parents e)) (\<lambda>binary. Ok (1 # binary))"

section \<open>Chunks\<close>

definition wf_chunk :: "binaryChunk \<Rightarrow> bool" where
  "wf_chunk c \<longleftrightarrow> length (Data c) < 2 ^ 64"

lemma parseChunk_Bytes:
  "length data < 2 ^ 64 \<Longrightarrow>
     parseChunk (chunk_Bytes f data @ r) = Ok (\<lparr> ContentType = f, Data = data \<rparr>, r)"
  by (simp add: parseChunk_def chunk_Bytes_def read_varint_Bytes unat_of_nat_u64)

interpretation chunk: stream_codec wf_chunk "\<lambda>c. chunk_Bytes (ContentType c) (Data c)" parseChunk
  by unfold_locales (simp add: wf_chunk_def parseChunk_Bytes)

lemma chunk_Bytes_not_Nil [simp]: "chunk_Bytes f data \<noteq> []"
  by (simp add: chunk_Bytes_def)

lemma flags_distinct [simp]:
  "flagProof \<noteq> flagTx" "flagMapi \<noteq> flagTx" "flagMapi \<noteq> flagProof"
  by (simp_all add: flagTx_def flagProof_def flagMapi_def)

lemma parse_chunks_Nil [simp]: "parse_chunks u t aa [] = Ok aa"
  by (simp add: parse_chunks.simps)

lemma parse_chunks_tx:
  assumes "length raw < 2 ^ 64" "NewTxFromBytes raw = Ok tx" "tx_Inputs tx \<noteq> []"
  shows "parse_chunks u t aa (chunk_Bytes flagTx raw @ r) =
    parse_chunks u (rev (Sha256d raw)) (AList.update (rev (Sha256d raw))
      \<lparr> an_Tx = tx, an_Proof = None, an_MapiResponses = [] \<rparr> aa) r"
  using assms by (subst parse_chunks.simps) (simp add: parseChunk_Bytes Let_def)

lemma parse_chunks_proof:
  assumes "length data < 2 ^ 64" "map_of aa t = Some a"
  shows "parse_chunks u t aa (chunk_Bytes flagProof data @ r) =
    parse_chunks u t (AList.update t (a\<lparr> an_Proof := Some (data, r) \<rparr>) aa) r"
  using assms by (subst parse_chunks.simps) (simp add: parseChunk_Bytes set_ancestor_def)

lemma parse_chunks_mapi:
  assumes "length data < 2 ^ 64" "map_of aa t = Some a" "parseMapiCallbacks u (data, r) = Ok m"
  shows "parse_chunks u t aa (chunk_Bytes flagMapi data @ r) =
    parse_chunks u t (AList.update t (a\<lparr> an_MapiResponses := m \<rparr>) aa) r"
  using assms by (subst parse_chunks.simps) (simp add: parseChunk_Bytes set_ancestor_def)

lemma parse_chunks_other:
  assumes "length data < 2 ^ 64" "f \<notin> {flagTx, flagProof, flagMapi}"
  shows "parse_chunks u t aa (chunk_Bytes f data @ r) = parse_chunks u t aa r"
  using assms by (subst parse_chunks.simps) (simp add: parseChunk_Bytes)

lemma parseAncestry_chunks:
  "parseAncestry u (1 # chunk_Bytes flagTx raw @ r) =
     parse_chunks u (replicate 32 0) [] (chunk_Bytes flagTx raw @ r)"
  by (simp add: parseAncestry_def go_index_def chunk_Bytes_def flagTx_def)

section \<open>Ancestries without mAPI responses\<close>

text \<open>An ancestor as data: its transaction, and its proof if it is mined.\<close>

type_synonym anchored_tx = "Tx \<times> MerkleProof option"

definition wf_anchored :: "anchored_tx \<Rightarrow> bool" where
  "wf_anchored x \<longleftrightarrow>
     wf_Tx (fst x) \<and> tx_Inputs (fst x) \<noteq> [] \<and> length (Tx_Bytes (fst x)) < 2 ^ 64 \<and>
     (case snd x of None \<Rightarrow> True
      | Some p \<Rightarrow> \<exists>b. MerkleProof_Bytes p = Ok b \<and> length b < 2 ^ 64)"

definition proof_data :: "MerkleProof \<Rightarrow> bytes" where
  "proof_data p = (case MerkleProof_Bytes p of Ok b \<Rightarrow> b | Err e \<Rightarrow> [] | Panic q \<Rightarrow> [])"

lemma wf_anchored_proof:
  "wf_anchored (tx, Some p) \<Longrightarrow>
     MerkleProof_Bytes p = Ok (proof_data p) \<and> length (proof_data p) < 2 ^ 64"
  by (auto simp: wf_anchored_def proof_data_def)

definition anchored_Bytes :: "anchored_tx \<Rightarrow> bytes" where
  "anchored_Bytes x =
     chunk_Bytes flagTx (Tx_Bytes (fst x)) @
     (case snd x of None \<Rightarrow> [] | Some p \<Rightarrow> chunk_Bytes flagProof (proof_data p))"

definition anchored_json :: "anchored_tx \<Rightarrow> TSCAncestryJSON" where
  "anchored_json x = \<lparr> tsc_RawTx = Tx_String (fst x), tsc_Proof = snd x, tsc_MapiResponses = [] \<rparr>"

text \<open>The entry of the map for an ancestor, with the bytes \<open>s\<close> behind it; and all entries.\<close>

definition anchored_entry :: "anchored_tx \<Rightarrow> bytes \<Rightarrow> bytes \<times> ancestry" where
  "anchored_entry x s = (TxIDBytes (fst x),
     \<lparr> an_Tx = fst x, an_Proof = map_option (\<lambda>p. (proof_data p, s)) (snd x), an_MapiResponses = [] \<rparr>)"

fun anchored_entries :: "anchored_tx list \<Rightarrow> ancestors" where
  "anchored_entries [] = []"
| "anchored_entries (x # xs) = anchored_entry x (concat (map anchored_Bytes xs)) # anchored_entries xs"

lemma fst_anchored_entry [simp]: "fst (anchored_entry x s) = TxIDBytes (fst x)"
  by (simp add: anchored_entry_def)

lemma map_fst_anchored_entries [simp]: "map fst (anchored_entries xs) = map (TxIDBytes \<circ> fst) xs"
  by (induction xs) simp_all

lemma keys_anchored_entries [simp]: "fst ` set (anchored_entries xs) = (TxIDBytes \<circ> fst) ` set xs"
  by (induction xs) simp_all

lemma set_anchored_entries: "e \<in> set (anchored_entries xs) \<Longrightarrow> \<exists>x \<in> set xs. \<exists>s. e = anchored_entry x s"
  by (induction xs) auto

lemma TSCAncestry_Bytes_anchored:
  "wf_anchored x \<Longrightarrow> TSCAncestry_Bytes m (anchored_json x) = Ok (anchored_Bytes x)"
  by (cases x) (auto simp: TSCAncestry_Bytes_def anchored_json_def anchored_Bytes_def
      Tx_String_def mapi_Bytes_def dest!: wf_anchored_proof split: option.splits)

lemma TSCAncestries_Bytes_anchored:
  "list_all wf_anchored xs \<Longrightarrow>
     TSCAncestries_Bytes m (map anchored_json xs) = Ok (1 # concat (map anchored_Bytes xs))"
proof -
  assume "list_all wf_anchored xs"
  then have "map_res (TSCAncestry_Bytes m) (map anchored_json xs) = Ok (map anchored_Bytes xs)"
    by (induction xs) (auto simp: TSCAncestry_Bytes_anchored)
  then show ?thesis by (simp add: TSCAncestries_Bytes_def)
qed

lemma parse_chunks_anchored:
  assumes "wf_anchored x"
  shows "parse_chunks u t aa (anchored_Bytes x @ r) =
    parse_chunks u (TxIDBytes (fst x)) (case_prod AList.update (anchored_entry x r) aa) r"
proof (cases x)
  case (Pair tx p)
  have id: "rev (Sha256d (Tx_Bytes tx)) = TxIDBytes tx" by (simp add: TxIDBytes_def)
  have tx: "parse_chunks u t aa (chunk_Bytes flagTx (Tx_Bytes tx) @ r') =
      parse_chunks u (TxIDBytes tx) (AList.update (TxIDBytes tx)
        \<lparr> an_Tx = tx, an_Proof = None, an_MapiResponses = [] \<rparr> aa) r'" for r'
    using assms Pair NewTxFromBytes_Bytes [of tx] unfolding id [symmetric]
    by (intro parse_chunks_tx) (simp_all add: wf_anchored_def)
  show ?thesis
  proof (cases p)
    case None
    then show ?thesis
      unfolding Pair anchored_Bytes_def anchored_entry_def using tx [of r] by simp
  next
    case (Some pf)
    have "length (proof_data pf) < 2 ^ 64"
      using wf_anchored_proof [of tx pf] assms Pair Some by simp
    with Some show ?thesis
      unfolding Pair anchored_Bytes_def anchored_entry_def
      by (simp add: tx update_conv' parse_chunks_proof)
  qed
qed

lemma TSC_parse_fold:
  "list_all wf_anchored xs \<Longrightarrow> parse_chunks u t aa (concat (map anchored_Bytes xs)) =
     Ok (fold (case_prod AList.update) (anchored_entries xs) aa)"
  by (induction xs arbitrary: t aa) (simp_all add: parse_chunks_anchored)

lemma AList_update_new: "k \<notin> fst ` set al \<Longrightarrow> AList.update k v al = al @ [(k, v)]"
  by (induction al) auto

lemma fold_update_new:
  "distinct (map fst (al @ es)) \<Longrightarrow> fold (case_prod AList.update) es al = al @ es"
proof (induction es arbitrary: al)
  case (Cons e es)
  obtain k v where kv: "e = (k, v)" by (cases e)
  with Cons.prems have "AList.update k v al = al @ [e]"
    by (intro trans [OF AList_update_new]) auto
  with Cons.IH [of "al @ [e]"] Cons.prems kv show ?case by (simp del: update.simps)
qed simp

lemma parseAncestry_fold:
  assumes "list_all wf_anchored xs" "xs \<noteq> []"
  shows "parseAncestry u (1 # concat (map anchored_Bytes xs)) =
    Ok (fold (case_prod AList.update) (anchored_entries xs) [])"
proof -
  obtain x xs' where xs: "xs = x # xs'" using assms(2) by (cases xs) auto
  have "parseAncestry u (1 # concat (map anchored_Bytes xs)) =
      parse_chunks u (replicate 32 0) [] (concat (map anchored_Bytes xs))"
    by (simp add: xs anchored_Bytes_def parseAncestry_chunks)
  then show ?thesis using TSC_parse_fold [OF assms(1)] by simp
qed

lemma parseAncestry_anchored:
  assumes "list_all wf_anchored xs" "xs \<noteq> []" "distinct (map (TxIDBytes \<circ> fst) xs)"
  shows "parseAncestry u (1 # concat (map anchored_Bytes xs)) = Ok (anchored_entries xs)"
  using parseAncestry_fold [OF assms(1,2)] fold_update_new [of "[]" "anchored_entries xs"] assms(3) by simp


section \<open>Back to JSON\<close>

text \<open>What is left of a proof: its type is the type of its target, its target type is gone.\<close>

definition reread_proof :: "MerkleProof \<Rightarrow> MerkleProof" where
  "reread_proof p = p\<lparr> pf_TargetType := '''',
     pf_ProofType := (if pf_TargetType p = ''header'' then ''header'' else ''blockhash''),
     pf_Composite := False \<rparr>"

definition reread :: "anchored_tx \<Rightarrow> anchored_tx" where
  "reread x = (fst x, map_option reread_proof (snd x))"

lemma parse_proof_data:
  assumes "wf_MerkleProof p"
  shows "parseBinaryMerkleProof (proof_data p, s) =
    Ok \<lparr> mpb_flags = MerkleProof_flags p, mpb_index = pf_Index p, mpb_txOrID = pf_TxOrID p,
         mpb_target = pf_Target p, mpb_nodes = pf_Nodes p \<rparr>"
  using parse_MerkleProof_Bytes [OF assms, of "[]" s] by (auto simp: proof_data_def)

lemma ancestor_json_entry:
  assumes "pred_option wf_MerkleProof (snd x)"
  shows "ancestor_json (snd (anchored_entry x s)) = Ok (anchored_json (reread x))"
  using assms by (cases x; cases "snd x")
    (simp_all add: ancestor_json_def anchored_entry_def anchored_json_def reread_def
      reread_proof_def parse_proof_data flagProofType_def MerkleProof_flags_bits)

lemma map_res_OkD: "map_res f xs = Ok ys \<Longrightarrow> list_all2 (\<lambda>x y. f x = Ok y) xs ys"
  by (induction xs arbitrary: ys) (auto simp: go_simps)

lemma flagProofType_not_branch:
  "parseBinaryMerkleProof b = Ok m \<Longrightarrow>
     flagProofType (mpb_flags m) = ''blockhash'' \<or> flagProofType (mpb_flags m) = ''header''"
  by (auto simp: parseBinaryMerkleProof_def read_proof_def go_simps flagProofType_def split: if_splits)

lemma VerifyMerkleProofJSON_other_type:
  assumes "pf_ProofType p \<noteq> ''''" "pf_ProofType p \<noteq> ''branch''"
  shows "VerifyMerkleProofJSON bhc p \<noteq> Ok v"
  using assms by (auto simp: VerifyMerkleProofJSON_def go_simps)

lemma ancestor_json_proof:
  assumes "ancestor_json a = Ok j" "tsc_Proof j = Some p"
  shows "VerifyMerkleProofJSON bhc p \<noteq> Ok v"
proof -
  from assms obtain m where "parseBinaryMerkleProof (the (an_Proof a)) = Ok m"
    "pf_ProofType p = flagProofType (mpb_flags m)"
    by (auto simp: ancestor_json_def go_simps Let_def split: option.splits)
  with flagProofType_not_branch [of "the (an_Proof a)" m]
  show ?thesis by (intro VerifyMerkleProofJSON_other_type) auto
qed

section \<open>The nested form\<close>

text \<open>The ancestors in the order they are written: nothing below a proof is.\<close>

fun flatten :: "(string \<times> AncestryJSON) list \<Rightarrow> TSCAncestryJSON list" where
  "flatten [] = []"
| "flatten ((k, AncestryJSON txid rawTx proof mapis pars) # rest) =
     \<lparr> tsc_RawTx = rawTx, tsc_Proof = proof, tsc_MapiResponses = mapis \<rparr> #
     (if proof = None then flatten pars else []) @ flatten rest"

lemma map_res_append:
  "map_res f (xs @ ys) = bind_res (map_res f xs) (\<lambda>us. bind_res (map_res f ys) (\<lambda>vs. Ok (us @ vs)))"
  by (induction xs) (auto simp: bind_res_assoc)

lemma serialiseInputs_guard [simp]:
  "(if pars \<noteq> [] then serialiseInputs m pars else Ok []) = serialiseInputs m pars"
  by simp

lemma serialiseInputs_flatten:
  assumes "list_all (\<lambda>j. tsc_MapiResponses j = []) (flatten pars)"
  shows "serialiseInputs m pars = Ok b \<longleftrightarrow>
    (\<exists>items. map_res (TSCAncestry_Bytes m) (flatten pars) = Ok items \<and> b = concat items)"
  using assms
proof (induction pars arbitrary: b rule: flatten.induct)
  case (2 k txid rawTx pf mapis pars rest)
  from "2.prems" have ms: "mapis = []" and rest: "list_all (\<lambda>j. tsc_MapiResponses j = []) (flatten rest)"
    by simp_all
  note IH_rest = "2.IH"(2) [OF rest]
  show ?case
  proof (cases pf)
    case None
    with "2.prems" have pars: "list_all (\<lambda>j. tsc_MapiResponses j = []) (flatten pars)" by simp
    note IH_pars = "2.IH"(1) [OF None pars]
    show ?thesis
      unfolding None ms by (simp add: go_simps TSCAncestry_Bytes_def mapi_Bytes_def map_res_append
          IH_rest IH_pars) auto
  next
    case (Some p)
    show ?thesis
      unfolding Some ms by (simp add: go_simps TSCAncestry_Bytes_def mapi_Bytes_def IH_rest) auto
  qed
qed auto

lemma AncestryJSON_Bytes_iff:
  assumes "list_all (\<lambda>j. tsc_MapiResponses j = []) (flatten (aj_Parents e))"
  shows "AncestryJSON_Bytes m e = Ok b \<longleftrightarrow> TSCAncestries_Bytes m (flatten (aj_Parents e)) = Ok b"
  using serialiseInputs_flatten [OF assms, of m]
  by (auto simp: AncestryJSON_Bytes_def TSCAncestries_Bytes_def go_simps)

section \<open>mAPI responses\<close>

text \<open>The responses as the reader expects them inside a chunk: a count, then each with its
  length.\<close>

definition mapi_items :: "bytes list \<Rightarrow> bytes" where
  "mapi_items rs = concat (map (\<lambda>r. VarInt_Bytes (of_nat (length r)) @ r) rs)"

lemma split_responses_items:
  "list_all (\<lambda>r. length r < 2 ^ 64) rs \<Longrightarrow> split_responses (cursor_of (mapi_items rs, s)) = Ok rs"
proof (induction rs)
  case (Cons r rs)
  have items: "mapi_items (r # rs) = VarInt_Bytes (of_nat (length r)) @ r @ mapi_items rs"
    by (simp add: mapi_items_def)
  from Cons show ?case
    unfolding items by (subst split_responses.simps) (simp add: read_varint_Bytes unat_of_nat_u64)
qed (simp add: split_responses.simps mapi_items_def)

lemma parseMapiCallbacks_items:
  "list_all (\<lambda>r. length r < 2 ^ 64) rs \<Longrightarrow> rs \<noteq> [] \<Longrightarrow>
     parseMapiCallbacks u (n # mapi_items rs, s) = map_res u rs"
  by (cases rs) (simp_all add: parseMapiCallbacks_def split_responses_items, simp add: mapi_items_def)

lemma VarInt_Bytes_hd: "v \<noteq> 0 \<Longrightarrow> hd (VarInt_Bytes v) \<noteq> 0"
proof (cases v rule: VarInt_cases)
  case one
  moreover assume "v \<noteq> 0"
  ultimately show ?thesis using ucast_byte_small(4) [of v] by auto
qed simp_all

lemma parse_count_chunk:
  assumes "map_of aa t = Some a" "v \<noteq> 0"
  shows "parse_chunks u t aa (flagMapi # VarInt_Bytes 1 @ VarInt_Bytes v @ r) =
    parse_chunks u t (AList.update t (a\<lparr> an_MapiResponses := [] \<rparr>) aa) (tl (VarInt_Bytes v) @ r)"
proof -
  obtain c cs where c: "VarInt_Bytes v = c # cs" by (cases "VarInt_Bytes v") auto
  with VarInt_Bytes_hd [OF assms(2)] have "parseMapiCallbacks u ([c], tl (VarInt_Bytes v) @ r) = Ok []"
    by (simp add: parseMapiCallbacks_def split_responses.simps)
  from parse_chunks_mapi [OF _ assms(1) this] c show ?thesis
    by (simp add: chunk_Bytes_def)
qed


section \<open>The map of ancestors\<close>

text \<open>
  Keys are distinct, and each is the double hash of bytes that parse as the transaction of
  its entry, which has inputs.
\<close>

definition wf_ancestors :: "ancestors \<Rightarrow> bool" where
  "wf_ancestors aa \<longleftrightarrow> distinct (map fst aa) \<and>
     (\<forall>(k, a) \<in> set aa. tx_Inputs (an_Tx a) \<noteq> [] \<and>
        (\<exists>raw. NewTxFromBytes raw = Ok (an_Tx a) \<and> k = rev (Sha256d raw)))"

lemma set_AList_update: "set (AList.update k v al) \<subseteq> insert (k, v) (set al)"
  by (induction al) auto

lemma wf_ancestors_update:
  assumes "wf_ancestors aa" "tx_Inputs (an_Tx a) \<noteq> []" "NewTxFromBytes raw = Ok (an_Tx a)"
    "k = rev (Sha256d raw)"
  shows "wf_ancestors (AList.update k a aa)"
  using assms set_AList_update [of k a aa] distinct_update [of aa k a]
  unfolding wf_ancestors_def by fastforce

lemma wf_ancestors_set:
  assumes "wf_ancestors aa" "set_ancestor t f aa = Ok aa'" "\<And>a. an_Tx (f a) = an_Tx a"
  shows "wf_ancestors aa'" and "aa' \<noteq> []"
proof -
  from assms(2) obtain a where a: "map_of aa t = Some a" "aa' = AList.update t (f a) aa"
    by (auto simp: set_ancestor_def split: option.splits)
  then show "aa' \<noteq> []" by simp
  from a assms(1) obtain raw where "tx_Inputs (an_Tx a) \<noteq> []" "NewTxFromBytes raw = Ok (an_Tx a)"
    "t = rev (Sha256d raw)"
    by (fastforce simp: wf_ancestors_def dest: map_of_SomeD)
  with a assms show "wf_ancestors aa'" by (simp add: wf_ancestors_update)
qed

lemma parse_chunks_wf:
  "parse_chunks u t aa b = Ok aa' \<Longrightarrow> wf_ancestors aa \<Longrightarrow> wf_ancestors aa' \<and> (aa \<noteq> [] \<longrightarrow> aa' \<noteq> [])"
proof (induction u t aa b rule: parse_chunks.induct)
  case (1 u t aa b)
  show ?case
  proof (cases "b = []")
    case True
    with "1.prems" show ?thesis by simp
  next
    case False
    with "1.prems"(1) obtain c r where c: "parseChunk b = Ok (c, r)"
      by (subst (asm) parse_chunks.simps) (auto simp: go_simps)
    note step = "1.prems"(1) [unfolded parse_chunks.simps [of u t aa b], simplified False c, simplified]
    note IH = "1.IH" [OF False c refl]
    consider "ContentType c = flagTx" | "ContentType c = flagProof" | "ContentType c = flagMapi"
      | "ContentType c \<notin> {flagTx, flagProof, flagMapi}" by blast
    then show ?thesis
    proof cases
      case 1
      with step obtain tx where tx: "NewTxFromBytes (Data c) = Ok tx" "tx_Inputs tx \<noteq> []"
        by (auto simp: go_simps Let_def split: if_splits)
      let ?aa = "AList.update (rev (Sha256d (Data c)))
        \<lparr> an_Tx = tx, an_Proof = None, an_MapiResponses = [] \<rparr> aa"
      have "wf_ancestors ?aa"
        using "1.prems"(2) tx by (intro wf_ancestors_update) auto
      moreover have "parse_chunks u (rev (Sha256d (Data c))) ?aa r = Ok aa'"
        using step 1 tx by (simp add: Let_def)
      ultimately show ?thesis using IH(1) [OF 1 refl tx(1)] tx by simp
    next
      case 2
      with step obtain aa1 where aa1: "set_ancestor t (\<lambda>a. a\<lparr> an_Proof := Some (Data c, r) \<rparr>) aa = Ok aa1"
        "parse_chunks u t aa1 r = Ok aa'"
        by (auto simp: go_simps)
      with wf_ancestors_set [OF "1.prems"(2) aa1(1)] IH(2) [OF _ 2 aa1] 2 show ?thesis by simp
    next
      case 3
      with step obtain ms aa1 where ms: "parseMapiCallbacks u (Data c, r) = Ok ms"
        and aa1: "set_ancestor t (\<lambda>a. a\<lparr> an_MapiResponses := ms \<rparr>) aa = Ok aa1"
        "parse_chunks u t aa1 r = Ok aa'"
        by (auto simp: go_simps)
      with wf_ancestors_set [OF "1.prems"(2) aa1(1)] IH(3) [OF _ _ 3 ms aa1] 3 show ?thesis by simp
    next
      case 4
      with step IH(4) "1.prems" show ?thesis by auto
    qed
  qed
qed

lemma parseAncestry_OkD:
  assumes "parseAncestry u b = Ok aa"
  shows "\<exists>r. b = 1 # flagTx # r \<and> parse_chunks u (replicate 32 0) [] (flagTx # r) = Ok aa"
  using assms by (cases b; cases "tl b") (auto simp: parseAncestry_def go_simps go_index_def flagTx_def
      split: if_splits)

lemma wf_parseAncestry:
  assumes "parseAncestry u b = Ok aa"
  shows "wf_ancestors aa \<and> aa \<noteq> []"
proof -
  from parseAncestry_OkD [OF assms] obtain r where
    p: "parse_chunks u (replicate 32 0) [] (flagTx # r) = Ok aa" by blast
  then obtain c r' where c: "parseChunk (flagTx # r) = Ok (c, r')"
    by (subst (asm) parse_chunks.simps) (auto simp: go_simps)
  then have "ContentType c = flagTx" by (auto simp: parseChunk_def go_simps)
  with p c obtain tx where "NewTxFromBytes (Data c) = Ok tx" "tx_Inputs tx \<noteq> []"
    "parse_chunks u (rev (Sha256d (Data c))) (AList.update (rev (Sha256d (Data c)))
       \<lparr> an_Tx = tx, an_Proof = None, an_MapiResponses = [] \<rparr> []) r' = Ok aa"
    by (subst (asm) parse_chunks.simps) (auto simp: go_simps Let_def split: if_splits)
  from parse_chunks_wf [OF this(3) wf_ancestors_update [of "[]"]] this(1,2) show ?thesis
    by (auto simp: wf_ancestors_def)
qed


section \<open>Properties\<close>

lemma ancestor_json_entries:
  assumes "list_all (pred_option wf_MerkleProof \<circ> snd) xs"
  shows "list_all2 (\<lambda>e x. ancestor_json (snd e) = Ok (anchored_json (reread x))) (anchored_entries xs) xs"
  using assms by (induction xs) (simp_all add: ancestor_json_entry)

lemma NewAncestryJSONFromBytes_anchored:
  assumes "list_all wf_anchored xs" "list_all (pred_option wf_MerkleProof \<circ> snd) xs" "xs \<noteq> []"
    "distinct (map (TxIDBytes \<circ> fst) xs)" "\<And>aa. mset (ord aa) = mset aa"
  shows "\<exists>js. NewAncestryJSONFromBytes u ord (1 # concat (map anchored_Bytes xs)) = Ok js \<and>
    mset js = mset (map (anchored_json \<circ> reread) xs)"
proof -
  let ?f = "\<lambda>(k, a). ancestor_json a" and ?g = "\<lambda>e. case ancestor_json (snd e) of Ok j \<Rightarrow> j"
  let ?es = "anchored_entries xs"
  have g: "?f e = Ok (?g e)" if "e \<in> set ?es" for e
    using ancestor_json_entries [OF assms(2)] that
    by (auto simp: list_all2_conv_all_nth in_set_conv_nth split_def)
  have map_g: "map ?g ?es = map (anchored_json \<circ> reread) xs"
    using ancestor_json_entries [OF assms(2)] by (induction rule: list_all2_induct) simp_all
  have "set (ord ?es) = set ?es" using assms(5) [of ?es] by (rule mset_eq_setD)
  moreover from g have "\<forall>e \<in> set ?es. ?f e = Ok (?g e)" by blast
  ultimately have "\<forall>e \<in> set (ord ?es). ?f e = Ok (?g e)" by (simp only:)
  then have "map_res ?f (ord ?es) = Ok (map ?g (ord ?es))" by (intro map_res_Ok) blast
  moreover have "mset (map ?g (ord ?es)) = mset (map ?g ?es)"
    using assms(5) [of ?es] by (simp only: mset_map)
  ultimately have "mset (map ?g (ord ?es)) = mset (map (anchored_json \<circ> reread) xs)"
    "map_res ?f (ord ?es) = Ok (map ?g (ord ?es))" by (simp_all only: map_g)
  then show ?thesis
    using parseAncestry_anchored [OF assms(1,3,4), of u]
    unfolding NewAncestryJSONFromBytes_def by (metis bind_res.simps(1))
qed

text \<open>C19: the binary form of ancestors without mAPI responses is parsed back. (With responses it is
  not: they are written in a form their reader takes for something else, see
  \<open>mapi_response_lost\<close>.) The transactions have inputs and different ids, and the proofs can be
  written and read. \<open>parseAncestry\<close> gives each transaction under its id, with the bytes of its proof
  (and the bytes of the ancestors behind it); and \<open>NewAncestryJSONFromBytes\<close> gives, in the order of
  \<open>range\<close>, the same structures with the types of the proofs replaced as \<open>reread_proof\<close> states.\<close>

theorem TSCAncestries_roundtrip:
  assumes "list_all wf_anchored xs" "list_all (pred_option wf_MerkleProof \<circ> snd) xs" "xs \<noteq> []"
    "distinct (map (TxIDBytes \<circ> fst) xs)" "\<And>aa. mset (ord aa) = mset aa"
  shows "\<exists>b js. TSCAncestries_Bytes m (map anchored_json xs) = Ok b \<and>
    parseAncestry u b = Ok (anchored_entries xs) \<and>
    NewAncestryJSONFromBytes u ord b = Ok js \<and> mset js = mset (map (anchored_json \<circ> reread) xs)"
  using TSCAncestries_Bytes_anchored [OF assms(1), of m] parseAncestry_anchored [OF assms(1,3,4), of u]
    NewAncestryJSONFromBytes_anchored [OF assms, of u] by blast

definition sample_tx :: Tx where
  "sample_tx = \<lparr> tx_Inputs = [\<lparr> in_previousTxID = replicate 32 7, in_PreviousTxSatoshis = 0,
       in_PreviousTxScript = None, in_UnlockingScript = Some [0x51], in_PreviousTxOutIndex = 1,
       in_SequenceNumber = 0 \<rparr>],
     tx_Outputs = [\<lparr> out_Satoshis = 50, out_LockingScript = [0x51] \<rparr>],
     tx_Version = 1, tx_LockTime = 0 \<rparr>"

lemma wf_sample_tx: "wf_Tx sample_tx" "tx_Inputs sample_tx \<noteq> []" "length (Tx_Bytes sample_tx) < 100"
  by (simp_all add: sample_tx_def wf_Tx_def wf_Input_def wf_Output_def wf_script_def max_alloc_def
      Tx_Bytes_def Input_Bytes_def Output_Bytes_def VarInt_Bytes_def)

lemma wf_sample_anchored: "wf_anchored (sample_tx, Some sample_proof)"
  using wf_sample_tx parse_MerkleProof_Bytes [OF wf_sample_proof(1)]
  by (auto simp: wf_anchored_def sample_proof_def MerkleProof_Bytes_def StringFromBytesReverse_def
      node_Bytes_def VarInt_Bytes_def Let_def)

theorem TSCAncestries_roundtrip_witness:
  "\<exists>b. TSCAncestries_Bytes (\<lambda>_. Err EOF) [anchored_json (sample_tx, Some sample_proof)] = Ok b \<and>
    parseAncestry (\<lambda>_. Err EOF) b = Ok [anchored_entry (sample_tx, Some sample_proof) []]"
  using TSCAncestries_roundtrip [of "[(sample_tx, Some sample_proof)]" "\<lambda>aa. aa" "\<lambda>_. Err EOF"]
    wf_sample_anchored wf_sample_proof by auto

text \<open>C20: the parser keeps the map consistent: a result is a non-empty map with distinct keys
  in which every key is the double hash of bytes that parse as the transaction stored there,
  and every transaction has inputs.\<close>

theorem parseAncestry_wf:
  assumes "parseAncestry u b = Ok aa"
  shows "wf_ancestors aa \<and> aa \<noteq> []"
  using assms by (rule wf_parseAncestry)

theorem parseAncestry_wf_witness:
  "wf_ancestors [anchored_entry (sample_tx, Some sample_proof) []]"
  using parseAncestry_wf [OF parseAncestry_anchored [of "[(sample_tx, Some sample_proof)]"]]
    wf_sample_anchored by auto

text \<open>C40: \<open>NewAncestryJSONFromBytes\<close> writes the type of the target into the proof type, where
  the JSON verifier knows only \<open>branch\<close>: no proof it returns is ever accepted.\<close>

theorem NewAncestryJSONFromBytes_rejected:
  assumes "NewAncestryJSONFromBytes u ord b = Ok js" "j \<in> set js" "tsc_Proof j = Some p"
  shows "VerifyMerkleProofJSON bhc p \<noteq> Ok v"
proof -
  from assms(1) obtain aa :: ancestors where "map_res (\<lambda>(k, a). ancestor_json a) aa = Ok js"
    unfolding NewAncestryJSONFromBytes_def bind_res_eq_Ok by blast
  from map_res_OkD [OF this] assms(2) obtain a where "ancestor_json a = Ok j"
    by (fastforce simp: list_all2_conv_all_nth in_set_conv_nth split_def)
  then show ?thesis using assms(3) by (rule ancestor_json_proof)
qed

theorem NewAncestryJSONFromBytes_rejected_witness:
  "VerifyMerkleProofJSON (\<lambda>_. Err EOF) (reread_proof sample_proof) \<noteq> Ok (True, True)"
proof -
  let ?x = "(sample_tx, Some sample_proof)"
  obtain js where js: "NewAncestryJSONFromBytes (\<lambda>_. Err EOF) (\<lambda>aa. aa)
      (1 # concat (map anchored_Bytes [?x])) = Ok js"
    "mset js = mset (map (anchored_json \<circ> reread) [?x])"
    using NewAncestryJSONFromBytes_anchored [of "[?x]" "\<lambda>aa. aa" "\<lambda>_. Err EOF"]
      wf_sample_anchored wf_sample_proof by auto
  from mset_eq_setD [OF js(2)] have "anchored_json (reread ?x) \<in> set js" by simp
  from NewAncestryJSONFromBytes_rejected [OF js(1) this, of "reread_proof sample_proof"]
  show ?thesis by (simp add: anchored_json_def reread_def)
qed


text \<open>the nested form and the flat form have one binary format: where no ancestor carries
  mAPI responses, \<open>AncestryJSON.Bytes\<close> writes exactly the bytes \<open>TSCAncestriesJSON.Bytes\<close>
  writes for the ancestors in preorder, cut below every proof, and fails when it fails.\<close>

theorem AncestryJSON_Bytes_flatten:
  assumes "list_all (\<lambda>j. tsc_MapiResponses j = []) (flatten (aj_Parents e))"
  shows "AncestryJSON_Bytes m e = Ok b \<longleftrightarrow> TSCAncestries_Bytes m (flatten (aj_Parents e)) = Ok b"
  by (rule AncestryJSON_Bytes_iff [OF assms])

definition sample_envelope :: AncestryJSON where
  "sample_envelope = AncestryJSON ''a'' ''00'' None []
     [(''b'', AncestryJSON ''b'' ''0102'' None [] [(''c'', AncestryJSON ''c'' ''03'' None [] [])]),
      (''d'', AncestryJSON ''d'' ''04'' None [] [])]"

theorem AncestryJSON_Bytes_flatten_witness:
  "AncestryJSON_Bytes (\<lambda>_. Err EOF) sample_envelope = Ok [1, 1, 2, 1, 2, 1, 1, 3, 1, 1, 4]"
proof -
  have "flatten (aj_Parents sample_envelope) =
      map (\<lambda>raw. \<lparr> tsc_RawTx = raw, tsc_Proof = None, tsc_MapiResponses = [] \<rparr>)
        [''0102'', ''03'', ''04'']"
    by (simp add: sample_envelope_def)
  moreover have "TSCAncestries_Bytes (\<lambda>_. Err EOF) (map (\<lambda>raw. \<lparr> tsc_RawTx = raw,
      tsc_Proof = None, tsc_MapiResponses = [] \<rparr>) [''0102'', ''03'', ''04'']) =
      Ok [1, 1, 2, 1, 2, 1, 1, 3, 1, 1, 4]"
    by (simp add: TSCAncestries_Bytes_def TSCAncestry_Bytes_def mapi_Bytes_def chunk_Bytes_def
        hex_DecodeString_def from_hex_char_def flagTx_def VarInt_Bytes_def)
  ultimately show ?thesis
    using AncestryJSON_Bytes_flatten [of sample_envelope "\<lambda>_. Err EOF"] by (simp add: list.pred_map)
qed

text \<open>mAPI responses are written without the length of their chunk, which the reader
  expects. A chunk with the responses inside it is read as these responses; but what
  \<open>TSCAncestriesJSON.Bytes\<close> and \<open>AncestryJSON.Bytes\<close> write for a single response is read as an
  empty list of responses, and the rest of its length and its JSON text as further chunks.\<close>

theorem mapi_response_lost:
  assumes "marshal resp = Ok json" "0 < length json" "length json < 2 ^ 60"
    "unmarshal json = Ok resp" "map_of aa t = Some a"
  shows "mapi_Bytes marshal [resp] =
      Ok (flagMapi # VarInt_Bytes 1 @ VarInt_Bytes (of_nat (length json)) @ json) \<and>
    parse_chunks unmarshal t aa
        (flagMapi # VarInt_Bytes 1 @ VarInt_Bytes (of_nat (length json)) @ json @ r) =
      parse_chunks unmarshal t (AList.update t (a\<lparr> an_MapiResponses := [] \<rparr>) aa)
        (tl (VarInt_Bytes (of_nat (length json))) @ json @ r) \<and>
    parse_chunks unmarshal t aa (chunk_Bytes flagMapi (1 # mapi_items [json]) @ r) =
      parse_chunks unmarshal t (AList.update t (a\<lparr> an_MapiResponses := [resp] \<rparr>) aa) r"
proof (intro conjI)
  show "mapi_Bytes marshal [resp] =
      Ok (flagMapi # VarInt_Bytes 1 @ VarInt_Bytes (of_nat (length json)) @ json)"
    using assms(1) by (simp add: mapi_Bytes_def)
  have n: "unat (of_nat (length json) :: u64) = length json"
    using assms(3) by (intro unat_of_nat_u64) simp
  with assms(2) have "of_nat (length json) \<noteq> (0 :: u64)" by (metis less_irrefl unat_0)
  with parse_count_chunk [OF assms(5)]
  show "parse_chunks unmarshal t aa
        (flagMapi # VarInt_Bytes 1 @ VarInt_Bytes (of_nat (length json)) @ json @ r) =
      parse_chunks unmarshal t (AList.update t (a\<lparr> an_MapiResponses := [] \<rparr>) aa)
        (tl (VarInt_Bytes (of_nat (length json))) @ json @ r)" by blast
  have "parseMapiCallbacks unmarshal (1 # mapi_items [json], r) = Ok [resp]"
    using assms(3,4) by (simp add: parseMapiCallbacks_items)
  moreover have "length (1 # mapi_items [json]) < 2 ^ 64"
    using assms(3) by (simp add: mapi_items_def length_VarInt_Bytes VarInt_Length_def)
  ultimately show "parse_chunks unmarshal t aa (chunk_Bytes flagMapi (1 # mapi_items [json]) @ r) =
      parse_chunks unmarshal t (AList.update t (a\<lparr> an_MapiResponses := [resp] \<rparr>) aa) r"
    using assms(5) by (intro parse_chunks_mapi)
qed

theorem mapi_response_lost_witness:
  "parse_chunks (\<lambda>_. Ok sample_callback) [9] [([9], snd (anchored_entry (sample_tx, None) []))]
     [3, 1, 2, 0x7b, 0] =
   Ok [([9], snd (anchored_entry (sample_tx, None) []))]"
  using mapi_response_lost [of "\<lambda>_. Ok [0x7b, 0]" sample_callback "[0x7b, 0]"
      "\<lambda>_. Ok sample_callback" "[([9], snd (anchored_entry (sample_tx, None) []))]" "[9]"
      "snd (anchored_entry (sample_tx, None) [])" "[]"]
    parse_chunks_other [of "[]" "0x7b" "\<lambda>_. Ok sample_callback" "[9]" _ "[]"]
  by (simp add: VarInt_Bytes_def flagMapi_def flagTx_def flagProof_def chunk_Bytes_def
      anchored_entry_def)

text \<open>C11: nothing stops a proof chunk at its announced length. A chunk with a proof that ends in a
  hash, announced up to 32 bytes too short, is taken apart as announced, and the slice \<open>parseChunk\<close>
  cuts makes the verifier read on into the bytes behind it, where the missing ones stand: the
  verdict is that of the whole proof. The announced bytes alone make it panic.\<close>

theorem VerifyMerkleProof_reads_on:
  assumes "wf_MerkleProof mp" "pf_Nodes mp \<noteq> []" "last (pf_Nodes mp) \<noteq> ''*''"
    and "MerkleProof_Bytes mp = Ok b" "length b < 2 ^ 64" "0 < j" "j \<le> 32"
  shows "\<exists>cut off. parseChunk (flagProof # VarInt_Bytes (of_nat (length b - j)) @ b @ r) =
      Ok (\<lparr> ContentType = flagProof, Data = cut \<rparr>, off) \<and> length cut = length b - j \<and>
    VerifyMerkleProof bhc (cut, off) = VerifyMerkleProof bhc (b, []) \<and>
    VerifyMerkleProof bhc (cut, []) = Panic SliceOutOfRange"
proof (intro exI conjI)
  let ?cut = "take (length b - j) b" and ?off = "drop (length b - j) b @ r"
  show "length ?cut = length b - j" by simp
  then have "chunk_Bytes flagProof ?cut @ ?off = flagProof # VarInt_Bytes (of_nat (length b - j)) @ b @ r"
    by (simp add: chunk_Bytes_def)
  with parseChunk_Bytes [of ?cut flagProof ?off] assms(5)
  show "parseChunk (flagProof # VarInt_Bytes (of_nat (length b - j)) @ b @ r) =
      Ok (\<lparr> ContentType = flagProof, Data = ?cut \<rparr>, ?off)"
    by simp
  note cut = parse_cut_hash [OF assms(1-3,6,7,4)]
  show "VerifyMerkleProof bhc (?cut, ?off) = VerifyMerkleProof bhc (b, [])"
    "VerifyMerkleProof bhc (?cut, []) = Panic SliceOutOfRange"
    using cut(1) [of r] cut(2) by (simp_all add: VerifyMerkleProof_def)
qed

theorem VerifyMerkleProof_reads_on_witness:
  "\<exists>b cut off. MerkleProof_Bytes sample_proof = Ok b \<and>
    parseChunk (flagProof # VarInt_Bytes (of_nat (length b - 32)) @ b) =
      Ok (\<lparr> ContentType = flagProof, Data = cut \<rparr>, off) \<and> length cut = length b - 32 \<and>
    VerifyMerkleProof (\<lambda>_. Err EOF) (cut, off) = VerifyMerkleProof (\<lambda>_. Err EOF) (b, []) \<and>
    VerifyMerkleProof (\<lambda>_. Err EOF) (cut, []) = Panic SliceOutOfRange"
proof -
  have "hash_str (last (pf_Nodes sample_proof))"
    by (simp add: sample_proof_def StringFromBytesReverse_def hash_str_def)
  then have last: "pf_Nodes sample_proof \<noteq> []" "last (pf_Nodes sample_proof) \<noteq> ''*''"
    by (simp_all add: sample_proof_def hash_str_not_star)
  note b = wf_anchored_proof [OF wf_sample_anchored]
  show ?thesis
    using VerifyMerkleProof_reads_on [OF wf_sample_proof(1) last b [THEN conjunct1] b [THEN conjunct2],
        of 32 "[]" "\<lambda>_. Err EOF"] b by auto
qed

end
