(* ===== verification/Fees.thy ===== *)
theory Fees
  imports Bt_Tx
begin

text \<open>
  Fees of \<open>go-bt/v2\<close> (vendored), as far as \<open>VerifyPayment\<close> uses them: the size of a
  transaction by kind of byte, the fee a quote asks for it and \<open>Tx.IsFeePaidEnough\<close>. Sums and
  products are \<open>uint64\<close> and wrap around.
\<close>

record FeeUnit =
  fu_Satoshis :: int
  fu_Bytes :: int

record Fee =
  fee_MiningFee :: FeeUnit
  fee_RelayFee :: FeeUnit

record FeeQuote =
  fq_fees :: "string \<Rightarrow> Fee option"

definition FeeQuote_Fee :: "FeeQuote \<Rightarrow> string \<Rightarrow> Fee res" where
  "FeeQuote_Fee f t = (case fq_fees f t of None \<Rightarrow> Err (Msg ''feetype not found'') | Some fee \<Rightarrow> Ok fee)"

definition IsData :: "bytes \<Rightarrow> bool" where
  "IsData b \<longleftrightarrow> (length b > 0 \<and> b ! 0 = 0x6a) \<or> (length b > 1 \<and> b ! 0 = 0x00 \<and> b ! 1 = 0x6a)"

record TxSize =
  TotalBytes :: u64
  TotalStdBytes :: u64
  TotalDataBytes :: u64

definition SizeWithTypes :: "Tx \<Rightarrow> TxSize" where
  "SizeWithTypes tx =
     (let totBytes = length (Tx_Bytes tx);
          dataLen = sum_list (map (\<lambda>d. if IsData (out_LockingScript d)
                                          then length (out_LockingScript d) else 0) (tx_Outputs tx))
      in \<lparr> TotalBytes = of_nat totBytes, TotalStdBytes = of_nat totBytes - of_nat dataLen,
           TotalDataBytes = of_nat dataLen \<rparr>)"

definition go_div :: "u64 \<Rightarrow> u64 \<Rightarrow> u64 res" where
  "go_div a b = (if b = 0 then Panic DivideByZero else Ok (a div b))"

definition feesPaid :: "TxSize \<Rightarrow> FeeQuote \<Rightarrow> u64 res" where
  "feesPaid sz fees =
     bind_res (FeeQuote_Fee fees ''standard'') (\<lambda>stdFee.
     bind_res (FeeQuote_Fee fees ''data'') (\<lambda>dataFee.
     bind_res (go_div (TotalStdBytes sz * of_int (fu_Satoshis (fee_MiningFee stdFee)))
                 (of_int (fu_Bytes (fee_MiningFee stdFee)))) (\<lambda>stdFeePaid.
     bind_res (go_div (TotalDataBytes sz * of_int (fu_Satoshis (fee_MiningFee dataFee)))
                 (of_int (fu_Bytes (fee_MiningFee dataFee)))) (\<lambda>dataFeePaid.
       Ok (stdFeePaid + dataFeePaid)))))"

definition TotalInputSatoshis :: "Tx \<Rightarrow> u64" where
  "TotalInputSatoshis tx = sum_list (map in_PreviousTxSatoshis (tx_Inputs tx))"

definition TotalOutputSatoshis :: "Tx \<Rightarrow> u64" where
  "TotalOutputSatoshis tx = sum_list (map out_Satoshis (tx_Outputs tx))"

definition IsFeePaidEnough :: "Tx \<Rightarrow> FeeQuote \<Rightarrow> bool res" where
  "IsFeePaidEnough tx fees =
     bind_res (feesPaid (SizeWithTypes tx) fees) (\<lambda>expFeesPaid.
       if TotalInputSatoshis tx < TotalOutputSatoshis tx then Ok False
       else Ok (TotalInputSatoshis tx - TotalOutputSatoshis tx \<ge> expFeesPaid))"

end
