(* ===== verification/Payment.thy ===== *)
theory Payment
  imports Ancestry Fees
begin

text \<open>
  \<open>spv/verifier.go\<close> and \<open>spv/verifypayment.go\<close>: the options of a payment verifier and the
  verification of a payment against its ancestry. Go ranges over its maps in any order: the
  orders are the arguments \<open>ord\<close> (ancestors) and \<open>ordi\<close> (inputs of one transaction).
\<close>

section \<open>Options\<close>

record verifyOptions =
  o_proofs :: bool
  o_script :: bool
  o_fees :: bool
  o_feeQuote :: "FeeQuote option"

type_synonym VerifyOpt = "verifyOptions \<Rightarrow> verifyOptions"

definition clone_options :: "verifyOptions \<Rightarrow> verifyOptions" where
  "clone_options v = \<lparr> o_proofs = o_proofs v, o_script = o_script v, o_fees = o_fees v,
     o_feeQuote = o_feeQuote v \<rparr>"

definition VerifyProofs :: VerifyOpt where
  "VerifyProofs opts = opts\<lparr> o_proofs := True \<rparr>"

definition NoVerifyProofs :: VerifyOpt where
  "NoVerifyProofs opts = opts\<lparr> o_proofs := False \<rparr>"

definition VerifyFees :: "FeeQuote option \<Rightarrow> VerifyOpt" where
  "VerifyFees fees opts = opts\<lparr> o_fees := True, o_feeQuote := fees \<rparr>"

definition NoVerifyFees :: VerifyOpt where
  "NoVerifyFees opts = opts\<lparr> o_fees := False, o_feeQuote := None \<rparr>"

definition VerifyScript :: VerifyOpt where
  "VerifyScript opts = opts\<lparr> o_script := True \<rparr>"

definition NoVerifyScript :: VerifyOpt where
  "NoVerifyScript opts = opts\<lparr> o_script := False \<rparr>"

definition NoVerifySPV :: VerifyOpt where
  "NoVerifySPV opts = opts\<lparr> o_proofs := False, o_script := False \<rparr>"

definition VerifySPV :: VerifyOpt where
  "VerifySPV opts = opts\<lparr> o_proofs := True, o_script := True \<rparr>"

record verifier =
  vf_bhc :: "block_header_chain option"
  vf_opts :: verifyOptions

definition NewPaymentVerifier :: "block_header_chain option \<Rightarrow> VerifyOpt list \<Rightarrow> verifier res" where
  "NewPaymentVerifier bhc opts =
     (let o0 = \<lparr> o_proofs = True, o_script = True, o_fees = False, o_feeQuote = None \<rparr>;
          o' = fold (\<lambda>opt s. opt s) opts o0
      in if o_proofs o' \<and> bhc = None then
           Err (Msg ''at least one blockchain header implementation should be returned'')
         else Ok \<lparr> vf_bhc = bhc, vf_opts = o' \<rparr>)"

definition NewMerkleProofVerifier :: "block_header_chain option \<Rightarrow> verifier res" where
  "NewMerkleProofVerifier bhc = NewPaymentVerifier bhc []"

text \<open>A call of a method of a nil interface panics.\<close>

definition call_bhc :: "block_header_chain option \<Rightarrow> block_header_chain" where
  "call_bhc bhc = (case bhc of None \<Rightarrow> (\<lambda>_. Panic NilDereference) | Some f \<Rightarrow> f)"

section \<open>Payments\<close>

record Payment =
  pay_PaymentTx :: Tx
  pay_Ancestry :: bytes

record extendedInput =
  ei_input :: Input
  ei_vin :: nat

text \<open>\<open>copy(id[:], b)\<close> into a zero array of 32 bytes.\<close>

definition array32 :: "bytes \<Rightarrow> bytes" where
  "array32 b = take 32 b @ replicate (32 - length b) 0"

definition input_id :: "Input \<Rightarrow> bytes" where
  "input_id i = array32 (in_previousTxID i)"

text \<open>
  The fee loop sets \<open>PreviousTxSatoshis\<close> of the inputs of the payment, which the caller
  shares; the inputs are returned as far as they have been set.
\<close>

fun set_satoshis :: "ancestors \<Rightarrow> nat \<Rightarrow> Input list \<Rightarrow> Input list \<times> go_error option" where
  "set_satoshis aa i [] = ([], None)"
| "set_satoshis aa i (input # inputs) =
     (case map_of aa (input_id input) of
        None \<Rightarrow> (input # inputs, Some (WrapErr (SpvErr ErrNoFeeQuoteSupplied)
                                        (''missing tx for input '' @ show_nat i)))
      | Some parent \<Rightarrow>
          (case OutputIdx (an_Tx parent) (unat (in_PreviousTxOutIndex input)) of
             None \<Rightarrow> (input # inputs, Some (SpvErr ErrMissingOutput))
           | Some out \<Rightarrow>
               (case set_satoshis aa (i + 1) inputs of
                  (inputs', e) \<Rightarrow>
                    (input\<lparr> in_PreviousTxSatoshis := out_Satoshis out \<rparr> # inputs', e))))"

definition check_fees :: "verifyOptions \<Rightarrow> ancestors \<Rightarrow> Tx \<Rightarrow> (Tx \<times> go_error option) res" where
  "check_fees opts aa tx =
     (if \<not> o_fees opts then Ok (tx, None)
      else case o_feeQuote opts of
        None \<Rightarrow> Ok (tx, Some (SpvErr ErrNoFeeQuoteSupplied))
      | Some quote \<Rightarrow>
          (case set_satoshis aa 0 (tx_Inputs tx) of
             (inputs, Some e) \<Rightarrow> Ok (tx\<lparr> tx_Inputs := inputs \<rparr>, Some e)
           | (inputs, None) \<Rightarrow>
               let tx' = tx\<lparr> tx_Inputs := inputs \<rparr> in
               on_err (IsFeePaidEnough tx' quote) (\<lambda>e. Ok (tx', Some e)) (\<lambda>ok.
                 if ok then Ok (tx', None) else Ok (tx', Some (SpvErr ErrFeePaidNotEnough)))))"

text \<open>Keyed by the id of the parent: a later input with the same parent replaces an earlier one.\<close>

definition inputsToCheck :: "Tx \<Rightarrow> (bytes \<times> extendedInput) list" where
  "inputsToCheck tx =
     fold (\<lambda>(idx, input) m. AList.update (input_id input) \<lparr> ei_input = input, ei_vin = idx \<rparr> m)
       (enumerate 0 (tx_Inputs tx)) []"

definition verifyInputOutputPair :: "Tx \<Rightarrow> bytes \<Rightarrow> bytes option \<Rightarrow> bool" where
  "verifyInputOutputPair tx lockingScript unlockingScript = True"

definition check_proof :: "verifier \<Rightarrow> ancestry \<Rightarrow> slice \<Rightarrow> unit res" where
  "check_proof v a proof =
     bind_res (VerifyMerkleProof (call_bhc (vf_bhc v)) proof) (\<lambda>(response, err).
       case response of
         None \<Rightarrow> Err (SpvErr ErrInvalidProof)
       | Some r \<Rightarrow>
           if mv_TxID r \<noteq> '''' \<and> mv_TxID r \<noteq> TxID (an_Tx a) then Err (SpvErr ErrTxIDMismatch)
           else if err \<noteq> None \<or> \<not> mv_Valid r then Err (SpvErr ErrInvalidProof)
           else Ok ())"

fun check_parents :: "ancestors \<Rightarrow> (bytes \<times> extendedInput) list \<Rightarrow> unit res" where
  "check_parents aa [] = Ok ()"
| "check_parents aa ((inputID, i) # r) =
     (if map_of aa inputID = None then Err (SpvErr ErrProofOrInputMissing) else check_parents aa r)"

fun check_scripts :: "bool \<Rightarrow> ancestors \<Rightarrow> ancestry \<Rightarrow> (bytes \<times> extendedInput) list \<Rightarrow> unit res" where
  "check_scripts proofs aa a [] = Ok ()"
| "check_scripts proofs aa a ((inputID, i) # r) =
     (case map_of aa inputID of
        None \<Rightarrow>
          if an_Proof a = None \<and> proofs then Err (SpvErr ErrProofOrInputMissing)
          else check_scripts proofs aa a r
      | Some p \<Rightarrow>
          if length (tx_Outputs (an_Tx p)) \<le> unat (in_PreviousTxOutIndex (ei_input i)) then
            Err (SpvErr ErrInputRefsOutOfBoundsOutput)
          else
            bind_res (go_index (tx_Outputs (an_Tx p)) (unat (in_PreviousTxOutIndex (ei_input i))))
              (\<lambda>out.
               if \<not> verifyInputOutputPair (an_Tx a) (out_LockingScript out)
                      (in_UnlockingScript (ei_input i))
               then Err (SpvErr ErrPaymentNotVerified)
               else check_scripts proofs aa a r))"

type_synonym input_order = "(bytes \<times> extendedInput) list \<Rightarrow> (bytes \<times> extendedInput) list"

text \<open>The body of the loop over the ancestors.\<close>

definition check_ancestor ::
  "verifier \<Rightarrow> verifyOptions \<Rightarrow> input_order \<Rightarrow> ancestors \<Rightarrow> ancestry \<Rightarrow> unit res" where
  "check_ancestor v opts ordi aa a =
     (if length (tx_Inputs (an_Tx a)) = 0 then Err (SpvErr ErrNoTxInputsToVerify)
      else
        bind_res
          (if o_proofs opts then
             (case an_Proof a of
                None \<Rightarrow> check_parents aa (ordi (inputsToCheck (an_Tx a)))
              | Some proof \<Rightarrow> check_proof v a proof)
           else Ok ()) (\<lambda>_.
        if o_script opts then check_scripts (o_proofs opts) aa a (ordi (inputsToCheck (an_Tx a)))
        else Ok ()))"

fun check_ancestors ::
  "verifier \<Rightarrow> verifyOptions \<Rightarrow> input_order \<Rightarrow> ancestors \<Rightarrow> ancestors \<Rightarrow> unit res" where
  "check_ancestors v opts ordi aa [] = Ok ()"
| "check_ancestors v opts ordi aa ((k, a) # r) =
     bind_res (check_ancestor v opts ordi aa a) (\<lambda>_. check_ancestors v opts ordi aa r)"

text \<open>The payment as it is left to the caller, and the error returned.\<close>

definition VerifyPayment ::
  "unmarshal_mapi \<Rightarrow> (ancestors \<Rightarrow> ancestors) \<Rightarrow> input_order \<Rightarrow> verifier \<Rightarrow> Payment \<Rightarrow>
     VerifyOpt list \<Rightarrow> (Tx \<times> go_error option) res" where
  "VerifyPayment unmarshal ord ordi v p opts =
     (let o' = fold (\<lambda>opt s. opt s) opts (clone_options (vf_opts v)) in
      on_err (parseAncestry unmarshal (pay_Ancestry p)) (\<lambda>e. Ok (pay_PaymentTx p, Some e)) (\<lambda>aa0.
        let paymentTxID = array32 (TxIDBytes (pay_PaymentTx p));
            payment = \<lambda>tx. \<lparr> an_Tx = tx, an_Proof = None, an_MapiResponses = [] \<rparr>;
            aa = AList.update paymentTxID (payment (pay_PaymentTx p)) aa0 in
        bind_res (check_fees o' aa (pay_PaymentTx p)) (\<lambda>(tx, err).
          case err of
            Some e \<Rightarrow> Ok (tx, Some e)
          | None \<Rightarrow>
              let aa' = AList.update paymentTxID (payment tx) aa in
              on_err (check_ancestors v o' ordi aa' (ord aa')) (\<lambda>e. Ok (tx, Some e))
                (\<lambda>_. Ok (tx, None)))))"

section \<open>The inputs to check\<close>

definition last_input :: "Input list \<Rightarrow> nat \<Rightarrow> bool" where
  "last_input ins j \<longleftrightarrow> j < length ins \<and>
     (\<forall>j' < length ins. j < j' \<longrightarrow> input_id (ins ! j') \<noteq> input_id (ins ! j))"

lemma input_id_32 [simp]: "length (in_previousTxID i) = 32 \<Longrightarrow> input_id i = in_previousTxID i"
  by (simp add: input_id_def array32_def)

lemma inputsToCheck_snoc:
  "fold (\<lambda>(idx, input) m. AList.update (input_id input) \<lparr> ei_input = input, ei_vin = idx \<rparr> m)
     (enumerate 0 (ins @ [i])) [] =
   AList.update (input_id i) \<lparr> ei_input = i, ei_vin = length ins \<rparr>
     (fold (\<lambda>(idx, input) m. AList.update (input_id input) \<lparr> ei_input = input, ei_vin = idx \<rparr> m)
       (enumerate 0 ins) [])"
  by (simp only: enumerate_append_eq fold_append o_apply enumerate_simps fold_simps prod.case add_0)

lemma inputsToCheck_map_of:
  "distinct (map fst (inputsToCheck tx)) \<and>
   (map_of (inputsToCheck tx) k = Some e \<longleftrightarrow>
     (\<exists>j. last_input (tx_Inputs tx) j \<and> k = input_id (tx_Inputs tx ! j) \<and>
       e = \<lparr> ei_input = tx_Inputs tx ! j, ei_vin = j \<rparr>))"
proof -
  let ?m = "\<lambda>ins. fold (\<lambda>(idx, input) m. AList.update (input_id input)
      \<lparr> ei_input = input, ei_vin = idx \<rparr> m) (enumerate 0 ins) []"
  have "distinct (map fst (?m ins)) \<and> (map_of (?m ins) k = Some e \<longleftrightarrow>
     (\<exists>j. last_input ins j \<and> k = input_id (ins ! j) \<and> e = \<lparr> ei_input = ins ! j, ei_vin = j \<rparr>))"
    for ins
  proof (induction ins rule: rev_induct)
    case Nil
    then show ?case by (simp add: last_input_def)
  next
    case (snoc i ins)
    have IH: "map_of (?m ins) k = Some e \<longleftrightarrow> (\<exists>j. last_input ins j \<and> k = input_id (ins ! j) \<and>
        e = \<lparr> ei_input = ins ! j, ei_vin = j \<rparr>)" "distinct (map fst (?m ins))"
      using snoc by blast+
    have last: "last_input (ins @ [i]) j \<longleftrightarrow>
        j = length ins \<or> (last_input ins j \<and> input_id (ins ! j) \<noteq> input_id i)" for j
      unfolding last_input_def by (auto simp: nth_append less_Suc_eq)
    have old: "(ins @ [i]) ! j = ins ! j" if "last_input ins j" for j
      using that by (simp add: last_input_def nth_append)
    have "(\<exists>j. last_input (ins @ [i]) j \<and> k = input_id ((ins @ [i]) ! j) \<and>
        e = \<lparr> ei_input = (ins @ [i]) ! j, ei_vin = j \<rparr>) \<longleftrightarrow>
      (if k = input_id i then e = \<lparr> ei_input = i, ei_vin = length ins \<rparr>
       else map_of (?m ins) k = Some e)"
      unfolding last IH(1) using old by (metis nth_append_length)
    moreover have "map_of (?m (ins @ [i])) k = Some e \<longleftrightarrow>
      (if k = input_id i then e = \<lparr> ei_input = i, ei_vin = length ins \<rparr>
       else map_of (?m ins) k = Some e)"
      unfolding inputsToCheck_snoc update_conv' by auto
    moreover have "distinct (map fst (?m (ins @ [i])))"
      unfolding inputsToCheck_snoc using IH(2) by (rule distinct_update)
    ultimately show ?case by blast
  qed
  then show ?thesis by (simp add: inputsToCheck_def)
qed

lemma inputsToCheck_set:
  "(k, e) \<in> set (inputsToCheck tx) \<longleftrightarrow>
     (\<exists>j. last_input (tx_Inputs tx) j \<and> k = input_id (tx_Inputs tx ! j) \<and>
       e = \<lparr> ei_input = tx_Inputs tx ! j, ei_vin = j \<rparr>)"
  using inputsToCheck_map_of [of tx k e] map_of_eq_Some_iff [of "inputsToCheck tx" k e] by blast

lemma last_input_exists:
  assumes "i < length ins"
  shows "\<exists>j. last_input ins j \<and> input_id (ins ! j) = input_id (ins ! i)"
proof -
  let ?P = "\<lambda>j. j < length ins \<and> input_id (ins ! j) = input_id (ins ! i)"
  obtain j where "?P j" and max: "\<And>j'. ?P j' \<Longrightarrow> j' \<le> j"
    using ex_has_greatest_nat [of ?P i "\<lambda>j. j" "length ins"] assms by blast
  then have "last_input ins j" unfolding last_input_def by (metis not_less)
  with \<open>?P j\<close> show ?thesis by blast
qed

lemma inputsToCheck_keys: "fst ` set (inputsToCheck tx) = input_id ` set (tx_Inputs tx)"
proof (intro set_eqI iffI)
  fix k
  assume "k \<in> fst ` set (inputsToCheck tx)"
  then show "k \<in> input_id ` set (tx_Inputs tx)"
    by (auto simp: inputsToCheck_set last_input_def)
next
  fix k
  assume "k \<in> input_id ` set (tx_Inputs tx)"
  then obtain i where "i < length (tx_Inputs tx)" "k = input_id (tx_Inputs tx ! i)"
    by (auto simp: in_set_conv_nth)
  with last_input_exists [OF this(1)] obtain j where
    "last_input (tx_Inputs tx) j" "input_id (tx_Inputs tx ! j) = k" by auto
  then have "(k, \<lparr> ei_input = tx_Inputs tx ! j, ei_vin = j \<rparr>) \<in> set (inputsToCheck tx)"
    by (auto simp: inputsToCheck_set)
  then show "k \<in> fst ` set (inputsToCheck tx)" by force
qed

lemma inputsToCheck_all:
  "(\<forall>(k, e) \<in> set (inputsToCheck tx). P k e) \<longleftrightarrow>
     (\<forall>j. last_input (tx_Inputs tx) j \<longrightarrow>
        P (input_id (tx_Inputs tx ! j)) \<lparr> ei_input = tx_Inputs tx ! j, ei_vin = j \<rparr>)"
proof
  assume "\<forall>(k, e) \<in> set (inputsToCheck tx). P k e"
  then show "\<forall>j. last_input (tx_Inputs tx) j \<longrightarrow>
      P (input_id (tx_Inputs tx ! j)) \<lparr> ei_input = tx_Inputs tx ! j, ei_vin = j \<rparr>"
    using inputsToCheck_set by fast
next
  assume "\<forall>j. last_input (tx_Inputs tx) j \<longrightarrow>
      P (input_id (tx_Inputs tx ! j)) \<lparr> ei_input = tx_Inputs tx ! j, ei_vin = j \<rparr>"
  then show "\<forall>(k, e) \<in> set (inputsToCheck tx). P k e"
    by (auto simp: inputsToCheck_set)
qed

section \<open>What the loops check\<close>

text \<open>The conditions on one ancestor, without the orders of the loops.\<close>

definition proof_ok :: "verifier \<Rightarrow> ancestors \<Rightarrow> ancestry \<Rightarrow> bool" where
  "proof_ok v aa a \<longleftrightarrow>
     (case an_Proof a of
        None \<Rightarrow> (\<forall>i \<in> set (tx_Inputs (an_Tx a)). map_of aa (input_id i) \<noteq> None)
      | Some p \<Rightarrow> check_proof v a p = Ok ())"

definition script_ok :: "bool \<Rightarrow> ancestors \<Rightarrow> ancestry \<Rightarrow> bool" where
  "script_ok proofs aa a \<longleftrightarrow>
     (\<forall>j. last_input (tx_Inputs (an_Tx a)) j \<longrightarrow>
        (case map_of aa (input_id (tx_Inputs (an_Tx a) ! j)) of
           None \<Rightarrow> \<not> (an_Proof a = None \<and> proofs)
         | Some p \<Rightarrow> unat (in_PreviousTxOutIndex (tx_Inputs (an_Tx a) ! j)) <
                      length (tx_Outputs (an_Tx p))))"

definition ancestor_ok :: "verifier \<Rightarrow> verifyOptions \<Rightarrow> ancestors \<Rightarrow> ancestry \<Rightarrow> bool" where
  "ancestor_ok v opts aa a \<longleftrightarrow> tx_Inputs (an_Tx a) \<noteq> [] \<and>
     (o_proofs opts \<longrightarrow> proof_ok v aa a) \<and> (o_script opts \<longrightarrow> script_ok (o_proofs opts) aa a)"

lemma check_parents_iff:
  "check_parents aa m = Ok () \<longleftrightarrow> (\<forall>k \<in> fst ` set m. map_of aa k \<noteq> None)"
  by (induction aa m rule: check_parents.induct) auto

lemma check_scripts_iff:
  "check_scripts proofs aa a m = Ok () \<longleftrightarrow>
     (\<forall>(k, e) \<in> set m. case map_of aa k of
        None \<Rightarrow> \<not> (an_Proof a = None \<and> proofs)
      | Some p \<Rightarrow> unat (in_PreviousTxOutIndex (ei_input e)) < length (tx_Outputs (an_Tx p)))"
proof (induction proofs aa a m rule: check_scripts.induct)
  case (2 proofs aa a k e r)
  then show ?case
    by (cases "map_of aa k") (auto simp: verifyInputOutputPair_def go_index_def)
qed simp

lemma check_ancestor_iff:
  assumes "\<And>m. set (ordi m) = set m"
  shows "check_ancestor v opts ordi aa a = Ok () \<longleftrightarrow> ancestor_ok v opts aa a"
proof -
  have "check_parents aa (ordi (inputsToCheck (an_Tx a))) = Ok () \<longleftrightarrow>
      (\<forall>i \<in> set (tx_Inputs (an_Tx a)). map_of aa (input_id i) \<noteq> None)"
    unfolding check_parents_iff assms inputsToCheck_keys by (simp only: ball_simps)
  moreover have "check_scripts (o_proofs opts) aa a (ordi (inputsToCheck (an_Tx a))) = Ok () \<longleftrightarrow>
      script_ok (o_proofs opts) aa a"
    unfolding check_scripts_iff assms script_ok_def inputsToCheck_all extendedInput.simps ..
  ultimately show ?thesis
    unfolding check_ancestor_def ancestor_ok_def proof_ok_def
    by (cases "an_Proof a"; cases "o_proofs opts"; cases "o_script opts")
      (simp_all add: bind_res_eq_Ok del: not_None_eq)
qed

lemma check_ancestors_iff:
  assumes "\<And>m. set (ordi m) = set m"
  shows "check_ancestors v opts ordi aa r = Ok () \<longleftrightarrow> (\<forall>(k, a) \<in> set r. ancestor_ok v opts aa a)"
  by (induction r) (auto simp: bind_res_eq_Ok check_ancestor_iff [OF assms])


section \<open>Fees\<close>

text \<open>The output an input spends, and the inputs with the values of these outputs.\<close>

definition spent_output :: "ancestors \<Rightarrow> Input \<Rightarrow> Output option" where
  "spent_output aa i =
     (case map_of aa (input_id i) of
        None \<Rightarrow> None
      | Some p \<Rightarrow> OutputIdx (an_Tx p) (unat (in_PreviousTxOutIndex i)))"

definition funded :: "ancestors \<Rightarrow> Tx \<Rightarrow> Tx" where
  "funded aa tx = tx\<lparr> tx_Inputs := map (\<lambda>i. i\<lparr> in_PreviousTxSatoshis :=
     (case spent_output aa i of None \<Rightarrow> in_PreviousTxSatoshis i | Some out \<Rightarrow> out_Satoshis out) \<rparr>)
     (tx_Inputs tx) \<rparr>"

lemma Input_Bytes_satoshis [simp]: "Input_Bytes (i\<lparr> in_PreviousTxSatoshis := s \<rparr>) = Input_Bytes i"
  by (simp add: Input_Bytes_def)

lemma Tx_Bytes_funded [simp]: "Tx_Bytes (funded aa tx) = Tx_Bytes tx"
  by (simp add: Tx_Bytes_def funded_def comp_def)

lemma TxID_funded [simp]: "TxIDBytes (funded aa tx) = TxIDBytes tx" "TxID (funded aa tx) = TxID tx"
  by (simp_all add: TxIDBytes_def TxID_def)

lemma input_id_satoshis [simp]: "input_id (i\<lparr> in_PreviousTxSatoshis := s \<rparr>) = input_id i"
  by (simp add: input_id_def)

lemma set_satoshis_iff:
  "set_satoshis aa n ins = (ins', None) \<longleftrightarrow>
     (\<forall>i \<in> set ins. spent_output aa i \<noteq> None) \<and>
     ins' = map (\<lambda>i. i\<lparr> in_PreviousTxSatoshis := (case spent_output aa i of
       None \<Rightarrow> in_PreviousTxSatoshis i | Some out \<Rightarrow> out_Satoshis out) \<rparr>) ins"
proof (induction aa n ins arbitrary: ins' rule: set_satoshis.induct)
  case (2 aa n i ins)
  show ?case
  proof (cases "spent_output aa i")
    case None
    then show ?thesis by (auto simp: spent_output_def split: option.splits)
  next
    case (Some out)
    then obtain p where p: "map_of aa (input_id i) = Some p"
      "OutputIdx (an_Tx p) (unat (in_PreviousTxOutIndex i)) = Some out"
      by (auto simp: spent_output_def split: option.splits)
    obtain js e where js: "set_satoshis aa (n + 1) ins = (js, e)" by (cases "set_satoshis aa (n + 1) ins")
    let ?i = "i\<lparr> in_PreviousTxSatoshis := out_Satoshis out \<rparr>"
    have step: "set_satoshis aa n (i # ins) = (?i # js, e)" using p js by simp
    have IH: "(js, e) = (ins'', None) \<longleftrightarrow> (\<forall>i \<in> set ins. spent_output aa i \<noteq> None) \<and>
       ins'' = map (\<lambda>i. i\<lparr> in_PreviousTxSatoshis := (case spent_output aa i of
         None \<Rightarrow> in_PreviousTxSatoshis i | Some out \<Rightarrow> out_Satoshis out) \<rparr>) ins" for ins''
      using "2.IH" [OF p, of ins''] js by simp
    show ?thesis
    proof (cases e)
      case None
      then have "js = map (\<lambda>i. i\<lparr> in_PreviousTxSatoshis := (case spent_output aa i of
         None \<Rightarrow> in_PreviousTxSatoshis i | Some out \<Rightarrow> out_Satoshis out) \<rparr>) ins"
        "\<forall>i \<in> set ins. spent_output aa i \<noteq> None" using IH [of js] by simp_all
      with None Some step show ?thesis by auto
    next
      case (Some err)
      then have "\<not> (\<forall>i \<in> set ins. spent_output aa i \<noteq> None)" using IH by blast
      with Some step show ?thesis by auto
    qed
  qed
qed auto

definition fees_ok :: "verifyOptions \<Rightarrow> ancestors \<Rightarrow> Tx \<Rightarrow> bool" where
  "fees_ok opts aa tx \<longleftrightarrow>
     (case o_feeQuote opts of
        None \<Rightarrow> False
      | Some quote \<Rightarrow>
          list_all (\<lambda>i. spent_output aa i \<noteq> None) (tx_Inputs tx) \<and>
          IsFeePaidEnough (funded aa tx) quote = Ok True)"



lemma check_fees_iff:
  "check_fees opts aa tx = Ok (tx', None) \<longleftrightarrow>
     (if o_fees opts then fees_ok opts aa tx \<and> tx' = funded aa tx else tx' = tx)"
proof (cases "o_fees opts")
  case True
  show ?thesis
  proof (cases "o_feeQuote opts")
    case None
    with True show ?thesis by (simp add: check_fees_def fees_ok_def)
  next
    case (Some q)
    obtain ins e where ins: "set_satoshis aa 0 (tx_Inputs tx) = (ins, e)"
      by (cases "set_satoshis aa 0 (tx_Inputs tx)")
    show ?thesis
    proof (cases e)
      case None
      with ins set_satoshis_iff [of aa 0 "tx_Inputs tx" ins]
      have "list_all (\<lambda>i. spent_output aa i \<noteq> None) (tx_Inputs tx)"
        "tx\<lparr> tx_Inputs := ins \<rparr> = funded aa tx"
        by (auto simp: list_all_iff funded_def)
      with True Some None ins show ?thesis
        by (auto simp: check_fees_def fees_ok_def Let_def on_err_eq_None)
    next
      case (Some err)
      with ins set_satoshis_iff [of aa 0 "tx_Inputs tx"]
      have "\<not> list_all (\<lambda>i. spent_output aa i \<noteq> None) (tx_Inputs tx)"
        by (auto simp: list_all_iff)
      with True \<open>o_feeQuote opts = Some q\<close> Some ins show ?thesis
        by (auto simp: check_fees_def fees_ok_def)
    qed
  qed
qed (auto simp: check_fees_def)

lemma IsFeePaidEnough_iff:
  "IsFeePaidEnough tx q = Ok True \<longleftrightarrow>
     (\<exists>f. feesPaid (SizeWithTypes tx) q = Ok f \<and> TotalOutputSatoshis tx \<le> TotalInputSatoshis tx \<and>
        f \<le> TotalInputSatoshis tx - TotalOutputSatoshis tx)"
  by (auto simp: IsFeePaidEnough_def bind_res_eq_Ok not_less)

section \<open>Acceptance\<close>

definition applied_options :: "verifier \<Rightarrow> VerifyOpt list \<Rightarrow> verifyOptions" where
  "applied_options v opts = fold (\<lambda>opt s. opt s) opts (vf_opts v)"

definition with_payment :: "ancestors \<Rightarrow> Tx \<Rightarrow> ancestors" where
  "with_payment aa tx =
     AList.update (TxIDBytes tx) \<lparr> an_Tx = tx, an_Proof = None, an_MapiResponses = [] \<rparr> aa"

text \<open>The verdict, without the orders of the loops.\<close>

definition accepted :: "verifier \<Rightarrow> verifyOptions \<Rightarrow> ancestors \<Rightarrow> Tx \<Rightarrow> Tx \<Rightarrow> bool" where
  "accepted v opts aa0 tx tx' \<longleftrightarrow>
     (if o_fees opts
      then fees_ok opts (with_payment aa0 tx) tx \<and> tx' = funded (with_payment aa0 tx) tx
      else tx' = tx) \<and>
     (\<forall>(k, a) \<in> set (with_payment aa0 tx'). ancestor_ok v opts (with_payment aa0 tx') a)"

lemma array32_id [simp]: "length b = 32 \<Longrightarrow> array32 b = b"
  by (simp add: array32_def)

lemma bind_pair_iff:
  "bind_res M (\<lambda>(tx, err). case err of
       Some e \<Rightarrow> Ok (tx, Some e)
     | None \<Rightarrow> on_err (m tx) (\<lambda>e. Ok (tx, Some e)) (\<lambda>_. Ok (tx, None))) = Ok (tx', None) \<longleftrightarrow>
   M = Ok (tx', None) \<and> m tx' = Ok ()"
  unfolding bind_res_eq_Ok
  by (auto simp: on_err_eq_None split: option.splits)

lemma VerifyPayment_iff:
  assumes "\<And>aa. set (ord aa) = set aa" "\<And>m. set (ordi m) = set m"
  shows "VerifyPayment u ord ordi v p opts = Ok (tx', None) \<longleftrightarrow>
    (\<exists>aa0. parseAncestry u (pay_Ancestry p) = Ok aa0 \<and>
       accepted v (applied_options v opts) aa0 (pay_PaymentTx p) tx')"
proof -
  let ?o = "applied_options v opts" and ?tx = "pay_PaymentTx p"
  let ?up = "\<lambda>tx. AList.update (TxIDBytes ?tx) \<lparr> an_Tx = tx, an_Proof = None, an_MapiResponses = [] \<rparr>"
  have o: "fold (\<lambda>opt s. opt s) opts (clone_options (vf_opts v)) = ?o"
    by (cases "vf_opts v") (simp add: applied_options_def clone_options_def)
  have "VerifyPayment u ord ordi v p opts = Ok (tx', None) \<longleftrightarrow>
    (\<exists>aa0. parseAncestry u (pay_Ancestry p) = Ok aa0 \<and>
       check_fees ?o (with_payment aa0 ?tx) ?tx = Ok (tx', None) \<and>
       check_ancestors v ?o ordi (?up tx' aa0) (ord (?up tx' aa0)) = Ok ())"
    unfolding VerifyPayment_def o Let_def on_err_eq_None with_payment_def bind_pair_iff
      array32_id [OF length_TxIDBytes] update_last ..
  also have "\<dots> \<longleftrightarrow> (\<exists>aa0. parseAncestry u (pay_Ancestry p) = Ok aa0 \<and> accepted v ?o aa0 ?tx tx')"
  proof (intro ex_cong1 conj_cong refl)
    fix aa0
    have "with_payment aa0 tx' = ?up tx' aa0" if "check_fees ?o (with_payment aa0 ?tx) ?tx = Ok (tx', None)"
      using that by (auto simp: check_fees_iff with_payment_def split: if_splits)
    then show "check_fees ?o (with_payment aa0 ?tx) ?tx = Ok (tx', None) \<and>
        check_ancestors v ?o ordi (?up tx' aa0) (ord (?up tx' aa0)) = Ok () \<longleftrightarrow>
        accepted v ?o aa0 ?tx tx'"
      unfolding accepted_def check_fees_iff check_ancestors_iff [OF assms(2)] assms(1)
      by - (rule conj_cong [OF refl], simp only:)
  qed
  finally show ?thesis .
qed


section \<open>Proofs that prove nothing\<close>

text \<open>A proof whose target is the Merkle root: the root is the id itself, with no nodes.\<close>

definition self_proof :: "Tx \<Rightarrow> bytes" where
  "self_proof tx = 4 # 0 # Sha256d (Tx_Bytes tx) @ Sha256d (Tx_Bytes tx) @ [0]"

lemma take_rev_hex_append:
  "length b = n \<Longrightarrow> take_rev_hex n (cursor_of (b @ r, s)) = Ok (hex_EncodeToString (rev b), cursor_of (r, s))"
  by (simp add: take_rev_hex_def)

lemma slice_varint_0: "slice_varint (cursor_of (0 # r, s)) = Ok (0, cursor_of (r, s))"
  using slice_varint_Bytes [of 0 r s] by (simp add: VarInt_Bytes_def)

lemma parse_self_proof:
  "parseBinaryMerkleProof (self_proof tx, s) =
     Ok \<lparr> mpb_flags = 4, mpb_index = 0, mpb_txOrID = TxID tx, mpb_target = TxID tx, mpb_nodes = [] \<rparr>"
proof -
  have "shl64 1 0 = 1" by (simp add: shl64_def)
  moreover have "int_count 0 = 0" by (simp add: int_count_def)
  ultimately show ?thesis
    by (simp add: parseBinaryMerkleProof_def read_proof_def self_proof_def slice_varint_0
        take_rev_hex_append TxID_def)
qed

lemma VerifyMerkleProof_self:
  "VerifyMerkleProof bhc (self_proof tx, s) =
     Ok (Some \<lparr> mv_TxID = TxID tx, mv_Valid = True, mv_IsLastInTree = True \<rparr>, None)"
proof -
  have "TxID tx \<noteq> ''''" using length_TxID [of tx] by force
  then show ?thesis
    by (simp add: VerifyMerkleProof_def parse_self_proof validateTxOrID_def txidFromTxOrID_def
        verifyProof_def invalid_response_def Let_def)
qed

lemma check_self_proof: "an_Tx a = tx \<Longrightarrow> check_proof v a (self_proof tx, s) = Ok ()"
  by (simp add: check_proof_def VerifyMerkleProof_self)

lemma one_ancestor_parse:
  assumes "NewTxFromBytes raw = Ok t" "tx_Inputs t \<noteq> []" "length raw < 2 ^ 64"
    "ReverseBytes (Sha256d raw) = k" "length proof_bytes < 2 ^ 64"
  shows "parseAncestry u (1 # chunk_Bytes flagTx raw @ chunk_Bytes flagProof proof_bytes) =
    Ok [(k, \<lparr> an_Tx = t, an_Proof = Some (proof_bytes, []), an_MapiResponses = [] \<rparr>)]"
  using parse_chunks_proof [OF assms(5), of _ _ _ _ "[]"]
  unfolding parseAncestry_chunks assms(4) [symmetric] by (subst parse_chunks_tx [OF assms(3,1,2)]) simp

lemma self_ancestry_parse:
  assumes "wf_Tx t" "tx_Inputs t \<noteq> []" "length (Tx_Bytes t) < 2 ^ 64"
  shows "parseAncestry u (1 # chunk_Bytes flagTx (Tx_Bytes t) @ chunk_Bytes flagProof (self_proof t)) =
    Ok [(TxIDBytes t, \<lparr> an_Tx = t, an_Proof = Some (self_proof t, []), an_MapiResponses = [] \<rparr>)]"
proof (rule one_ancestor_parse [OF NewTxFromBytes_Bytes [OF assms(1)] assms(2,3)])
  show "length (self_proof t) < 2 ^ 64" by (simp add: self_proof_def)
qed (simp add: TxIDBytes_def)

text \<open>Every input of the transaction refers to an output \<open>0\<close>, and there is an output \<open>0\<close>.\<close>

definition spends_first :: "Tx \<Rightarrow> bool" where
  "spends_first t \<longleftrightarrow> tx_Inputs t \<noteq> [] \<and> tx_Outputs t \<noteq> [] \<and>
     list_all (\<lambda>i. in_PreviousTxOutIndex i = 0) (tx_Inputs t)"

lemma script_ok_first:
  assumes "spends_first (an_Tx a)" "\<forall>(k, p) \<in> set aa. tx_Outputs (an_Tx p) \<noteq> []"
    "an_Proof a \<noteq> None \<or> (\<forall>i \<in> set (tx_Inputs (an_Tx a)). map_of aa (input_id i) \<noteq> None)"
  shows "script_ok proofs aa a"
  unfolding script_ok_def
proof (intro allI impI)
  fix j
  let ?i = "tx_Inputs (an_Tx a) ! j"
  assume "last_input (tx_Inputs (an_Tx a)) j"
  then have i: "?i \<in> set (tx_Inputs (an_Tx a))" by (simp add: last_input_def)
  with assms(1) have z: "in_PreviousTxOutIndex ?i = 0" by (simp add: spends_first_def list_all_iff)
  show "case map_of aa (input_id ?i) of None \<Rightarrow> \<not> (an_Proof a = None \<and> proofs)
      | Some p \<Rightarrow> unat (in_PreviousTxOutIndex ?i) < length (tx_Outputs (an_Tx p))"
  proof (cases "map_of aa (input_id ?i)")
    case None
    with assms(3) i show ?thesis by auto
  next
    case (Some p)
    from map_of_SomeD [OF this] assms(2) have "tx_Outputs (an_Tx p) \<noteq> []" by blast
    with Some z show ?thesis by simp
  qed
qed


section \<open>The ancestors of a payment\<close>

text \<open>The ids met on the way from a transaction through the inputs of unmined ancestors.\<close>

inductive traced :: "ancestors \<Rightarrow> bytes \<Rightarrow> bytes \<Rightarrow> bool" for aa root where
  traced_root: "traced aa root root"
| traced_input: "traced aa root k \<Longrightarrow> map_of aa k = Some a \<Longrightarrow> an_Proof a = None \<Longrightarrow>
     i \<in> set (tx_Inputs (an_Tx a)) \<Longrightarrow> traced aa root (input_id i)"

lemma VerifyMerkleProof_valid_TxID:
  assumes "VerifyMerkleProof bhc b = Ok (Some r, None)"
  shows "mv_TxID r \<noteq> ''''"
proof -
  from assms obtain t where t: "txidFromTxOrID t = Ok (mv_TxID r)"
    by (auto simp: VerifyMerkleProof_def Let_def invalid_response_def split: on_err_splits if_splits)
  show ?thesis using txidFromTxOrID_length [OF t] by auto
qed

lemma check_proof_OkD:
  assumes "check_proof v a b = Ok ()"
  shows "\<exists>r. VerifyMerkleProof (call_bhc (vf_bhc v)) b = Ok (Some r, None) \<and> mv_Valid r \<and>
    mv_TxID r = TxID (an_Tx a)"
proof -
  from assms obtain r where r: "VerifyMerkleProof (call_bhc (vf_bhc v)) b = Ok (Some r, None)"
    "mv_Valid r" "mv_TxID r = '''' \<or> mv_TxID r = TxID (an_Tx a)"
    by (auto simp: check_proof_def bind_res_eq_Ok split: option.splits if_splits)
  with VerifyMerkleProof_valid_TxID [OF r(1)] show ?thesis by blast
qed

lemma accepted_traced:
  assumes acc: "accepted v opts aa0 tx tx'" and proofs: "o_proofs opts"
    and tr: "traced (with_payment aa0 tx') (TxIDBytes tx') k"
  shows "\<exists>a. map_of (with_payment aa0 tx') k = Some a \<and> proof_ok v (with_payment aa0 tx') a"
  using tr
proof (induction rule: traced.induct)
  have ok: "proof_ok v (with_payment aa0 tx') a" if "map_of (with_payment aa0 tx') k = Some a" for k a
    using acc proofs map_of_SomeD [OF that] by (auto simp: accepted_def ancestor_ok_def)
  {
    case traced_root
    have "map_of (with_payment aa0 tx') (TxIDBytes tx') \<noteq> None"
      by (simp add: with_payment_def update_conv')
    with ok show ?case by blast
  next
    case (traced_input k a i)
    then have "map_of (with_payment aa0 tx') (input_id i) \<noteq> None"
      by (auto simp: proof_ok_def)
    with ok show ?case by blast
  }
qed


text \<open>One ancestor with a proof: it stands under the double hash of its bytes.\<close>

lemma one_ancestor_accepted:
  assumes parent: "NewTxFromBytes raw = Ok t" "spends_first t" "length raw < 2 ^ 64"
    and key: "ReverseBytes (Sha256d raw) = k"
    and proof_bytes: "length b < 2 ^ 64"
      "check_proof v \<lparr> an_Tx = t, an_Proof = Some (b, []), an_MapiResponses = [] \<rparr> (b, []) = Ok ()"
    and pay: "spends_first tx'"
      "list_all (\<lambda>i. in_previousTxID i = k) (tx_Inputs tx')"
    and ord: "\<And>aa. set (ord aa) = set aa" "\<And>m. set (ordi m) = set m"
    and fees: "let aa = with_payment [(k,
        \<lparr> an_Tx = t, an_Proof = Some (b, []), an_MapiResponses = [] \<rparr>)] tx in
      if o_fees (applied_options v opts)
      then fees_ok (applied_options v opts) aa tx \<and> tx' = funded aa tx else tx' = tx"
  shows "VerifyPayment u ord ordi v \<lparr> pay_PaymentTx = tx, pay_Ancestry =
      1 # chunk_Bytes flagTx raw @ chunk_Bytes flagProof b \<rparr> opts = Ok (tx', None)"
proof -
  let ?a = "\<lparr> an_Tx = t, an_Proof = Some (b, []), an_MapiResponses = [] \<rparr>"
  let ?p = "\<lparr> an_Tx = tx', an_Proof = None, an_MapiResponses = [] \<rparr>"
  let ?init = "[(k, ?a)]" and ?aa = "with_payment [(k, ?a)] tx'"
  have length_k: "length k = 32" unfolding key [symmetric] by simp
  have aa: "?aa = (if TxIDBytes tx' = k then [(k, ?p)] else [(k, ?a), (TxIDBytes tx', ?p)])"
    by (simp add: with_payment_def)
  have out: "\<forall>(k, p) \<in> set ?aa. tx_Outputs (an_Tx p) \<noteq> []"
    using parent pay by (auto simp: aa spends_first_def)
  have ids: "\<forall>i \<in> set (tx_Inputs tx'). map_of ?aa (input_id i) \<noteq> None"
    using pay(2) length_k by (auto simp: aa list_all_iff)
  have "ancestor_ok v (applied_options v opts) ?aa ?a"
    using parent script_ok_first [of ?a ?aa] out proof_bytes
    by (auto simp: ancestor_ok_def spends_first_def proof_ok_def)
  moreover have "ancestor_ok v (applied_options v opts) ?aa ?p"
    using pay ids script_ok_first [of ?p ?aa] out
    by (auto simp: ancestor_ok_def spends_first_def proof_ok_def)
  moreover have "set ?aa \<subseteq> {(k, ?a), (TxIDBytes tx', ?p)}" by (auto simp: aa split: if_splits)
  ultimately have "accepted v (applied_options v opts) ?init tx tx'"
    using fees by (auto simp: accepted_def Let_def)
  moreover have "parseAncestry u (1 # chunk_Bytes flagTx raw @ chunk_Bytes flagProof b) = Ok ?init"
    using parent key proof_bytes by (intro one_ancestor_parse) (simp_all add: spends_first_def)
  ultimately show ?thesis by (simp add: VerifyPayment_iff [of ord ordi, OF ord])
qed

lemma self_certified_accepted:
  assumes parent: "wf_Tx t" "spends_first t" "length (Tx_Bytes t) < 2 ^ 64"
    and pay: "spends_first tx'" "list_all (\<lambda>i. in_previousTxID i = TxIDBytes t) (tx_Inputs tx')"
    and ord: "\<And>aa. set (ord aa) = set aa" "\<And>m. set (ordi m) = set m"
    and fees: "let aa = with_payment [(TxIDBytes t,
        \<lparr> an_Tx = t, an_Proof = Some (self_proof t, []), an_MapiResponses = [] \<rparr>)] tx in
      if o_fees (applied_options v opts)
      then fees_ok (applied_options v opts) aa tx \<and> tx' = funded aa tx else tx' = tx"
  shows "VerifyPayment u ord ordi v \<lparr> pay_PaymentTx = tx, pay_Ancestry =
      1 # chunk_Bytes flagTx (Tx_Bytes t) @ chunk_Bytes flagProof (self_proof t) \<rparr> opts = Ok (tx', None)"
proof (rule one_ancestor_accepted [OF NewTxFromBytes_Bytes [OF parent(1)] parent(2,3) _ _ _ pay ord fees])
  show "length (self_proof t) < 2 ^ 64" by (simp add: self_proof_def)
qed (simp_all add: check_self_proof, simp add: TxIDBytes_def)

section \<open>Properties\<close>

definition sample_parent :: Tx where
  "sample_parent = sample_tx\<lparr> tx_Inputs := map (\<lambda>i. i\<lparr> in_PreviousTxOutIndex := 0 \<rparr>) (tx_Inputs sample_tx) \<rparr>"

definition sample_payment :: Tx where
  "sample_payment = sample_parent\<lparr> tx_Inputs :=
     map (\<lambda>i. i\<lparr> in_previousTxID := TxIDBytes sample_parent \<rparr>) (tx_Inputs sample_parent) \<rparr>"

definition sample_verifier :: verifier where
  "sample_verifier = \<lparr> vf_bhc = Some (\<lambda>_. Err (Msg ''no such block'')),
     vf_opts = \<lparr> o_proofs = True, o_script = True, o_fees = False, o_feeQuote = None \<rparr> \<rparr>"

definition sample_Payment :: Payment where
  "sample_Payment = \<lparr> pay_PaymentTx = sample_payment, pay_Ancestry =
     1 # chunk_Bytes flagTx (Tx_Bytes sample_parent) @ chunk_Bytes flagProof (self_proof sample_parent) \<rparr>"

lemma sample_parent:
  "wf_Tx sample_parent" "spends_first sample_parent" "length (Tx_Bytes sample_parent) < 2 ^ 64"
  by (simp_all add: sample_parent_def sample_tx_def wf_Tx_def wf_Input_def wf_Output_def wf_script_def
      max_alloc_def spends_first_def Tx_Bytes_def Input_Bytes_def Output_Bytes_def VarInt_Bytes_def)

lemma sample_payment:
  "spends_first sample_payment"
  "list_all (\<lambda>i. in_previousTxID i = TxIDBytes sample_parent) (tx_Inputs sample_payment)"
  "\<not> o_fees (applied_options sample_verifier [])"
  using sample_parent(2)
  by (simp_all add: sample_payment_def spends_first_def list_all_iff applied_options_def sample_verifier_def)

lemma sample_accepted:
  "VerifyPayment (\<lambda>_. Err EOF) rev rev sample_verifier sample_Payment [] = Ok (sample_payment, None)"
  unfolding sample_Payment_def
  by (rule self_certified_accepted [OF sample_parent sample_payment(1,2)])
    (simp_all add: sample_payment(3))


text \<open>C13: the verdict on a payment. Whatever the orders in which Go ranges over its maps,
  \<open>VerifyPayment\<close> returns no error exactly when the ancestry parses, the fee check (when
  enabled) succeeds, and every ancestor and the payment itself have inputs and satisfy the
  enabled checks: a valid proof, or, without a proof, every parent present; and for each
  parent present, the last input that spends it within its outputs. The inputs of the payment
  then carry the values of the outputs they spend.\<close>

theorem VerifyPayment_accepts_iff:
  assumes "\<And>aa. set (ord aa) = set aa" "\<And>m. set (ordi m) = set m"
  shows "VerifyPayment u ord ordi v p opts = Ok (tx', None) \<longleftrightarrow>
    (\<exists>aa0. parseAncestry u (pay_Ancestry p) = Ok aa0 \<and>
       accepted v (applied_options v opts) aa0 (pay_PaymentTx p) tx')"
  by (rule VerifyPayment_iff [OF assms])

theorem VerifyPayment_accepts_iff_witness:
  "\<exists>aa0. accepted sample_verifier (vf_opts sample_verifier) aa0 sample_payment sample_payment"
  using VerifyPayment_accepts_iff [of rev rev "\<lambda>_. Err EOF" sample_verifier sample_Payment "[]"
      sample_payment] sample_accepted
  by (auto simp: applied_options_def sample_Payment_def)

text \<open>C14: what an accepted payment guarantees when proofs are verified: follow its inputs to
  their transactions and on through every transaction without a proof, and each one met is in
  the ancestry under its id, and is either mined, with a Merkle proof the verifier finds valid
  for its own id, or has all its parents in the ancestry.\<close>

theorem VerifyPayment_traces_to_proofs:
  assumes "VerifyPayment u ord ordi v p opts = Ok (tx', None)"
    "\<And>aa. set (ord aa) = set aa" "\<And>m. set (ordi m) = set m" "o_proofs (applied_options v opts)"
    "parseAncestry u (pay_Ancestry p) = Ok aa0"
    "traced (with_payment aa0 tx') (TxIDBytes tx') k"
  shows "\<exists>a. map_of (with_payment aa0 tx') k = Some a \<and>
    (case an_Proof a of
       None \<Rightarrow> \<forall>i \<in> set (tx_Inputs (an_Tx a)). map_of (with_payment aa0 tx') (input_id i) \<noteq> None
     | Some proof \<Rightarrow> \<exists>r. VerifyMerkleProof (call_bhc (vf_bhc v)) proof = Ok (Some r, None) \<and>
         mv_Valid r \<and> mv_TxID r = TxID (an_Tx a))"
proof -
  from assms(1,5) VerifyPayment_iff [of ord ordi, OF assms(2,3)]
  have "accepted v (applied_options v opts) aa0 (pay_PaymentTx p) tx'" by auto
  from accepted_traced [OF this assms(4,6)] obtain a where
    a: "map_of (with_payment aa0 tx') k = Some a" "proof_ok v (with_payment aa0 tx') a" by blast
  show ?thesis
  proof (intro exI conjI)
    show "case an_Proof a of
       None \<Rightarrow> \<forall>i \<in> set (tx_Inputs (an_Tx a)). map_of (with_payment aa0 tx') (input_id i) \<noteq> None
     | Some proof \<Rightarrow> \<exists>r. VerifyMerkleProof (call_bhc (vf_bhc v)) proof = Ok (Some r, None) \<and>
         mv_Valid r \<and> mv_TxID r = TxID (an_Tx a)"
      using a(2) check_proof_OkD [of v a] by (cases "an_Proof a") (auto simp: proof_ok_def)
  qed (rule a(1))
qed

definition sample_ancestors :: ancestors where
  "sample_ancestors = [(TxIDBytes sample_parent, \<lparr> an_Tx = sample_parent,
      an_Proof = Some (self_proof sample_parent, []), an_MapiResponses = [] \<rparr>)]"

theorem VerifyPayment_traces_to_proofs_witness:
  "\<exists>a. map_of (with_payment sample_ancestors sample_payment) (TxIDBytes sample_parent) = Some a"
proof -
  let ?aa = "with_payment sample_ancestors sample_payment"
  have parse: "parseAncestry (\<lambda>_. Err EOF) (pay_Ancestry sample_Payment) = Ok sample_ancestors"
    using sample_parent by (simp add: sample_Payment_def sample_ancestors_def self_ancestry_parse spends_first_def)
  obtain i where i: "i \<in> set (tx_Inputs sample_payment)"
    using sample_payment(1) by (cases "tx_Inputs sample_payment") (auto simp: spends_first_def)
  with sample_payment(2) have id: "input_id i = TxIDBytes sample_parent" by (simp add: list_all_iff)
  have "traced ?aa (TxIDBytes sample_payment) (input_id i)"
    using i by (intro traced_input [OF traced_root]) (auto simp: with_payment_def update_conv')
  from VerifyPayment_traces_to_proofs [OF sample_accepted _ _ _ parse this]
  show ?thesis
    by (auto simp: id applied_options_def sample_verifier_def)
qed

text \<open>C15: a payment can certify itself. A proof may name its Merkle root as its target and the
  verifier never asks the header chain for it; so, with fees off, a payment that spends the first
  output of any made-up transaction, sent with that transaction and a proof whose root is its id,
  is accepted, whatever the chain of headers knows.\<close>

theorem VerifyPayment_self_certified:
  assumes "wf_Tx t" "spends_first t" "length (Tx_Bytes t) < 2 ^ 64"
    and "spends_first tx" "list_all (\<lambda>i. in_previousTxID i = TxIDBytes t) (tx_Inputs tx)"
    and "\<And>aa. set (ord aa) = set aa" "\<And>m. set (ordi m) = set m"
    and "\<not> o_fees (applied_options v opts)"
  shows "VerifyPayment u ord ordi v \<lparr> pay_PaymentTx = tx, pay_Ancestry =
      1 # chunk_Bytes flagTx (Tx_Bytes t) @ chunk_Bytes flagProof (self_proof t) \<rparr> opts = Ok (tx, None)"
  using assms(8) by (intro self_certified_accepted [OF assms(1-7)]) simp

theorem VerifyPayment_self_certified_witness:
  "VerifyPayment (\<lambda>_. Err EOF) (\<lambda>aa. aa) (\<lambda>m. m) sample_verifier sample_Payment [VerifyProofs, VerifyScript] =
   Ok (sample_payment, None)"
  unfolding sample_Payment_def
  by (rule VerifyPayment_self_certified [OF sample_parent sample_payment(1,2)])
    (simp_all add: applied_options_def VerifyProofs_def VerifyScript_def sample_verifier_def)

text \<open>The marker of the extended format stands where the two counts do: no transaction, of fewer than
  \<open>2^64\<close> inputs and outputs, has these bytes.\<close>

lemma VarInt_Bytes_marker:
  assumes "VarInt_Bytes (of_nat n :: u64) @ x = 0 # y" "n < 2 ^ 64"
  shows "n = 0 \<and> x = y"
proof -
  have "hd (VarInt_Bytes (of_nat n :: u64)) = 0"
    using assms(1) VarInt_Bytes_not_Nil [of "of_nat n"] by (metis hd_append2 list.sel(1))
  then have "(of_nat n :: u64) = 0" using VarInt_Bytes_hd by blast
  with assms(2) have "n = 0" using unat_of_nat_u64 [of n] by simp
  with assms(1) show ?thesis by (simp add: VarInt_Bytes_def)
qed

lemma Tx_ExtendedBytes_of_no_Tx:
  assumes "length (tx_Inputs t') < 2 ^ 64" "length (tx_Outputs t') < 2 ^ 64"
  shows "Tx_Bytes t' \<noteq> Tx_ExtendedBytes t"
proof
  assume eq: "Tx_Bytes t' = Tx_ExtendedBytes t"
  define rest where "rest = VarInt_Bytes (of_nat (length (tx_Inputs t))) @ concat (map Input_ExtendedBytes (tx_Inputs t)) @
      VarInt_Bytes (of_nat (length (tx_Outputs t))) @ concat (map Output_Bytes (tx_Outputs t)) @ le32 (tx_LockTime t)"
  have "drop 4 (Tx_Bytes t') = drop 4 (Tx_ExtendedBytes t)" by (simp only: eq)
  then have "VarInt_Bytes (of_nat (length (tx_Inputs t'))) @ concat (map Input_Bytes (tx_Inputs t')) @
      VarInt_Bytes (of_nat (length (tx_Outputs t'))) @ concat (map Output_Bytes (tx_Outputs t')) @
      le32 (tx_LockTime t') = 0 # 0 # 0 # 0 # 0 # 0xEF # rest"
    by (simp add: Tx_Bytes_def Tx_ExtendedBytes_def rest_def)
  from VarInt_Bytes_marker [OF this assms(1)]
  have "VarInt_Bytes (of_nat (length (tx_Outputs t'))) @ concat (map Output_Bytes (tx_Outputs t')) @
      le32 (tx_LockTime t') = 0 # 0 # 0 # 0 # 0xEF # rest" by auto
  from VarInt_Bytes_marker [OF this assms(2)]
  have "le32 (tx_LockTime t') = 0 # 0 # 0 # 0xEF # rest" by auto
  then have "length (le32 (tx_LockTime t')) = 4 + length rest" by simp
  then show False by (simp add: rest_def)
qed

text \<open>C16: a parent in the extended format. The ancestors stand under the hash of the bytes they
  were read from, but their proofs are checked for the id of the transaction. Written in the
  extended format, a mined transaction with a genuine proof therefore stands under the hash of
  bytes that no transaction (of fewer than \<open>2^64\<close> inputs and outputs) is written as: a transaction
  with that id would give a collision of the double SHA-256. With fees off, a payment that spends
  the first output of this id is accepted all the same.\<close>

theorem VerifyPayment_extended_parent:
  assumes "wf_extended_Tx t" "spends_first t" "length (Tx_ExtendedBytes t) < 2 ^ 64"
    and "VerifyMerkleProof (call_bhc (vf_bhc v)) (b, []) = Ok (Some r, None)" "mv_Valid r" "mv_TxID r = TxID t"
    and "length b < 2 ^ 64" "spends_first tx"
    and "list_all (\<lambda>i. in_previousTxID i = ReverseBytes (Sha256d (Tx_ExtendedBytes t))) (tx_Inputs tx)"
    and "\<And>aa. set (ord aa) = set aa" "\<And>m. set (ordi m) = set m"
    and "\<not> o_fees (applied_options v opts)"
  shows "(\<forall>t'. length (tx_Inputs t') < 2 ^ 64 \<and> length (tx_Outputs t') < 2 ^ 64 \<longrightarrow>
      Tx_Bytes t' \<noteq> Tx_ExtendedBytes t \<and>
      (TxIDBytes t' = ReverseBytes (Sha256d (Tx_ExtendedBytes t)) \<longrightarrow>
        Sha256d (Tx_Bytes t') = Sha256d (Tx_ExtendedBytes t))) \<and>
    VerifyPayment u ord ordi v \<lparr> pay_PaymentTx = tx, pay_Ancestry =
      1 # chunk_Bytes flagTx (Tx_ExtendedBytes t) @ chunk_Bytes flagProof b \<rparr> opts = Ok (tx, None)"
proof
  show "\<forall>t'. length (tx_Inputs t') < 2 ^ 64 \<and> length (tx_Outputs t') < 2 ^ 64 \<longrightarrow>
      Tx_Bytes t' \<noteq> Tx_ExtendedBytes t \<and>
      (TxIDBytes t' = ReverseBytes (Sha256d (Tx_ExtendedBytes t)) \<longrightarrow>
        Sha256d (Tx_Bytes t') = Sha256d (Tx_ExtendedBytes t))"
    using Tx_ExtendedBytes_of_no_Tx by (simp add: TxIDBytes_def)
  have "check_proof v \<lparr> an_Tx = t, an_Proof = Some (b, []), an_MapiResponses = [] \<rparr> (b, []) = Ok ()"
    using assms(4-6) by (simp add: check_proof_def)
  from one_ancestor_accepted [OF NewTxFromBytes_ExtendedBytes [OF assms(1)] assms(2,3) refl assms(7) this
      assms(8-11), where tx = tx and opts = opts and u = u] assms(12)
  show "VerifyPayment u ord ordi v \<lparr> pay_PaymentTx = tx, pay_Ancestry =
      1 # chunk_Bytes flagTx (Tx_ExtendedBytes t) @ chunk_Bytes flagProof b \<rparr> opts = Ok (tx, None)"
    by (simp add: Let_def)
qed

definition sample_extended :: Tx where
  "sample_extended = sample_parent\<lparr> tx_Inputs :=
     map (\<lambda>i. i\<lparr> in_PreviousTxScript := Some [] \<rparr>) (tx_Inputs sample_parent) \<rparr>"

definition sample_forged :: Tx where
  "sample_forged = sample_parent\<lparr> tx_Inputs := map (\<lambda>i. i\<lparr> in_previousTxID :=
     ReverseBytes (Sha256d (Tx_ExtendedBytes sample_extended)) \<rparr>) (tx_Inputs sample_parent) \<rparr>"

lemma sample_extended:
  "wf_extended_Tx sample_extended" "spends_first sample_extended"
  "length (Tx_ExtendedBytes sample_extended) < 2 ^ 64" "spends_first sample_forged"
  by (simp_all add: sample_extended_def sample_forged_def sample_parent_def sample_tx_def wf_extended_Tx_def
      wf_extended_Input_def wf_Output_def wf_script_def max_alloc_def spends_first_def
      Tx_ExtendedBytes_def Input_ExtendedBytes_def Input_Bytes_def Output_Bytes_def VarInt_Bytes_def)

theorem VerifyPayment_extended_parent_witness:
  "Tx_Bytes sample_extended \<noteq> Tx_ExtendedBytes sample_extended \<and>
   VerifyPayment (\<lambda>_. Err EOF) rev rev sample_verifier \<lparr> pay_PaymentTx = sample_forged, pay_Ancestry =
     1 # chunk_Bytes flagTx (Tx_ExtendedBytes sample_extended) @ chunk_Bytes flagProof (self_proof sample_extended) \<rparr>
     [] = Ok (sample_forged, None)"
proof -
  have "length (self_proof sample_extended) < 2 ^ 64" by (simp add: self_proof_def)
  moreover have "list_all (\<lambda>i. in_previousTxID i = ReverseBytes (Sha256d (Tx_ExtendedBytes sample_extended)))
      (tx_Inputs sample_forged)"
    by (simp add: sample_forged_def list_all_iff)
  moreover have "length (tx_Inputs sample_extended) < 2 ^ 64" "length (tx_Outputs sample_extended) < 2 ^ 64"
    using sample_extended(1) by (simp_all add: wf_extended_Tx_def)
  ultimately show ?thesis
    using VerifyPayment_extended_parent [OF sample_extended(1-3) VerifyMerkleProof_self _ _ _ sample_extended(4),
        where v = sample_verifier and ord = rev and ordi = rev and opts = "[]"] sample_payment(3)
    by auto
qed

text \<open>C17: with fees enabled, an accepted payment pays them: the inputs it returns carry the
  values of the outputs they spend, its totals (of 64-bit words, modulo \<open>2^64\<close>) leave at
  least the fee the quote asks for its size, and it is the same transaction otherwise.\<close>

theorem VerifyPayment_pays_fees:
  assumes "VerifyPayment u ord ordi v p opts = Ok (tx', None)"
    "\<And>aa. set (ord aa) = set aa" "\<And>m. set (ordi m) = set m"
    "o_fees (applied_options v opts)" "parseAncestry u (pay_Ancestry p) = Ok aa0"
  shows "\<exists>quote f. o_feeQuote (applied_options v opts) = Some quote \<and>
    feesPaid (SizeWithTypes tx') quote = Ok f \<and>
    TotalOutputSatoshis tx' \<le> TotalInputSatoshis tx' \<and>
    f \<le> TotalInputSatoshis tx' - TotalOutputSatoshis tx' \<and>
    map (\<lambda>i. Some (in_PreviousTxSatoshis i)) (tx_Inputs tx') =
      map (map_option out_Satoshis \<circ> spent_output (with_payment aa0 (pay_PaymentTx p)))
        (tx_Inputs (pay_PaymentTx p)) \<and>
    TxID tx' = TxID (pay_PaymentTx p)"
proof -
  let ?aa = "with_payment aa0 (pay_PaymentTx p)"
  from assms(1,5) VerifyPayment_iff [of ord ordi, OF assms(2,3)]
  have "accepted v (applied_options v opts) aa0 (pay_PaymentTx p) tx'" by auto
  with assms(4) obtain quote where q: "o_feeQuote (applied_options v opts) = Some quote"
    and out: "list_all (\<lambda>i. spent_output ?aa i \<noteq> None) (tx_Inputs (pay_PaymentTx p))"
    and enough: "IsFeePaidEnough tx' quote = Ok True" and tx': "tx' = funded ?aa (pay_PaymentTx p)"
    by (auto simp: accepted_def fees_ok_def split: option.splits)
  have "map (\<lambda>i. Some (in_PreviousTxSatoshis i)) (tx_Inputs tx') =
      map (map_option out_Satoshis \<circ> spent_output ?aa) (tx_Inputs (pay_PaymentTx p))"
    using out by (auto simp: tx' funded_def list_all_iff)
  with q enough show ?thesis by (auto simp: IsFeePaidEnough_iff tx')
qed

definition free_quote :: FeeQuote where
  "free_quote = \<lparr> fq_fees = (\<lambda>_. Some \<lparr> fee_MiningFee = \<lparr> fu_Satoshis = 0, fu_Bytes = 1 \<rparr>,
     fee_RelayFee = \<lparr> fu_Satoshis = 0, fu_Bytes = 1 \<rparr> \<rparr>) \<rparr>"

lemma sample_fees:
  "VerifyPayment (\<lambda>_. Err EOF) rev rev sample_verifier sample_Payment [VerifyFees (Some free_quote)] =
     Ok (funded (with_payment sample_ancestors sample_payment) sample_payment, None)"
  (is "_ = Ok (?tx', None)")
proof -
  let ?aa = "with_payment sample_ancestors sample_payment"
  have out: "spent_output ?aa i = Some \<lparr> out_Satoshis = 50, out_LockingScript = [0x51] \<rparr>"
    if "i \<in> set (tx_Inputs sample_payment)" for i
    using that by (auto simp: spent_output_def with_payment_def update_conv' sample_ancestors_def
        sample_payment_def sample_parent_def sample_tx_def OutputIdx_def)
  have "feesPaid (SizeWithTypes ?tx') free_quote = Ok 0"
    by (simp add: feesPaid_def FeeQuote_Fee_def free_quote_def go_div_def)
  moreover have "TotalInputSatoshis ?tx' = 50" "TotalOutputSatoshis ?tx' = 50"
    using out by (auto simp: TotalInputSatoshis_def TotalOutputSatoshis_def funded_def
        sample_payment_def sample_parent_def sample_tx_def)
  ultimately have "IsFeePaidEnough ?tx' free_quote = Ok True" by (simp add: IsFeePaidEnough_def)
  with out have "fees_ok (applied_options sample_verifier [VerifyFees (Some free_quote)]) ?aa sample_payment"
    by (auto simp: fees_ok_def applied_options_def VerifyFees_def list_all_iff)
  moreover have "spends_first ?tx'"
    "list_all (\<lambda>i. in_previousTxID i = TxIDBytes sample_parent) (tx_Inputs ?tx')"
    using sample_payment(1,2) by (auto simp: funded_def spends_first_def list_all_iff)
  ultimately show ?thesis
    unfolding sample_Payment_def
    by (intro self_certified_accepted [OF sample_parent])
      (simp_all add: applied_options_def VerifyFees_def sample_ancestors_def)
qed

theorem VerifyPayment_pays_fees_witness:
  "\<exists>f. feesPaid (SizeWithTypes (funded (with_payment sample_ancestors sample_payment) sample_payment))
     free_quote = Ok f"
proof -
  have parse: "parseAncestry (\<lambda>_. Err EOF) (pay_Ancestry sample_Payment) = Ok sample_ancestors"
    using sample_parent by (simp add: sample_Payment_def sample_ancestors_def self_ancestry_parse spends_first_def)
  from VerifyPayment_pays_fees [OF sample_fees _ _ _ parse] show ?thesis
    by (auto simp: applied_options_def VerifyFees_def)
qed

end
