(* ===== verification/Creator.thy ===== *)
theory Creator
  imports Payment
begin

text \<open>
  \<open>spv/creator.go\<close> and \<open>spv/create_ancestry.go\<close>: building the ancestry of a transaction from
  a store of transactions and a store of Merkle proofs. Both stores are interfaces without an
  implementation in the repository and are arguments here: they map an id to a pointer or an
  error. The recursion ends only if the store has no endless chain of unmined parents, so it
  runs on fuel, with \<open>None\<close> for running out.
\<close>

type_synonym tx_store = "string \<Rightarrow> Tx option res"
type_synonym merkle_proof_store = "string \<Rightarrow> MerkleProof option res"

record creator =
  cr_txc :: tx_store
  cr_mpc :: merkle_proof_store

definition NewEnvelopeCreator :: "tx_store option \<Rightarrow> merkle_proof_store option \<Rightarrow> creator res" where
  "NewEnvelopeCreator txc mpc =
     (case txc of
        None \<Rightarrow> Err (Msg ''an spv.TxStore implementation is required'')
      | Some t \<Rightarrow>
          (case mpc of
             None \<Rightarrow> Err (Msg ''an spv.MerkleProofStore implementation is required'')
           | Some m \<Rightarrow> Ok \<lparr> cr_txc = t, cr_mpc = m \<rparr>))"

text \<open>What one round of the loop finds out about an input that has no parent yet.\<close>

datatype found = Mined Tx MerkleProof | Unmined Tx

definition find_parent :: "creator \<Rightarrow> string \<Rightarrow> found res" where
  "find_parent c pTxID =
     on_err (cr_txc c pTxID) (\<lambda>e. Err (WrapErr e (''failed to get tx '' @ pTxID))) (\<lambda>p.
       case p of
         None \<Rightarrow> Err (Msg (''could not find tx '' @ pTxID))
       | Some pTx \<Rightarrow>
           on_err (cr_mpc c pTxID)
             (\<lambda>e. Err (WrapErr e (''failed to get merkle proof for tx '' @ pTxID))) (\<lambda>mp.
             case mp of None \<Rightarrow> Ok (Unmined pTx) | Some m \<Rightarrow> Ok (Mined pTx m)))"

text \<open>The loop over the inputs; \<open>create\<close> is the recursive call.\<close>

fun add_parents ::
  "(Tx \<Rightarrow> AncestryJSON res option) \<Rightarrow> creator \<Rightarrow> Input list \<Rightarrow> (string \<times> AncestryJSON) list \<Rightarrow>
     (string \<times> AncestryJSON) list res option" where
  "add_parents create c [] parents = Some (Ok parents)"
| "add_parents create c (input # inputs) parents =
     (let pTxID = PreviousTxIDStr input in
      if map_of parents pTxID \<noteq> None then add_parents create c inputs parents
      else case find_parent c pTxID of
        Err e \<Rightarrow> Some (Err e)
      | Panic q \<Rightarrow> Some (Panic q)
      | Ok (Mined pTx mp) \<Rightarrow>
          add_parents create c inputs
            (parents @ [(pTxID, AncestryJSON pTxID (Tx_String pTx) (Some mp) [] [])])
      | Ok (Unmined pTx) \<Rightarrow>
          (case create pTx of
             None \<Rightarrow> None
           | Some (Err e) \<Rightarrow> Some (Err e)
           | Some (Panic q) \<Rightarrow> Some (Panic q)
           | Some (Ok pEnvelope) \<Rightarrow> add_parents create c inputs (parents @ [(pTxID, pEnvelope)])))"

primrec CreateTxAncestry :: "nat \<Rightarrow> creator \<Rightarrow> Tx \<Rightarrow> AncestryJSON res option" where
  "CreateTxAncestry 0 c tx = None"
| "CreateTxAncestry (Suc fuel) c tx =
     (if length (tx_Inputs tx) = 0 then Some (Err (SpvErr ErrNoTxInputs))
      else case add_parents (CreateTxAncestry fuel c) c (tx_Inputs tx) [] of
        None \<Rightarrow> None
      | Some r \<Rightarrow> Some (bind_res r (\<lambda>parents.
          Ok (AncestryJSON (TxID tx) (Tx_String tx) None [] parents))))"

section \<open>Termination\<close>

text \<open>The transactions a call recurses to.\<close>

inductive needs :: "creator \<Rightarrow> Tx \<Rightarrow> Tx \<Rightarrow> bool" for c where
  "i \<in> set (tx_Inputs tx) \<Longrightarrow> find_parent c (PreviousTxIDStr i) = Ok (Unmined pTx) \<Longrightarrow> needs c pTx tx"

lemma add_parents_mono:
  assumes "\<And>i t r. i \<in> set ins \<Longrightarrow> find_parent c (PreviousTxIDStr i) = Ok (Unmined t) \<Longrightarrow>
      create t = Some r \<Longrightarrow> create' t = Some r"
    and "add_parents create c ins ps = Some r"
  shows "add_parents create' c ins ps = Some r"
  using assms
proof (induction ins arbitrary: ps)
  case (Cons input inputs)
  have IH: "add_parents create c inputs qs = Some r \<Longrightarrow> add_parents create' c inputs qs = Some r" for qs
    by (rule Cons.IH) (use Cons.prems(1) in auto)
  have rec: "create' t = Some r'" if "find_parent c (PreviousTxIDStr input) = Ok (Unmined t)"
    "create t = Some r'" for t r'
    using that Cons.prems(1) [of input] by simp
  show ?case
  proof (cases "map_of ps (PreviousTxIDStr input) \<noteq> None")
    case True
    with IH Cons.prems(2) show ?thesis by (simp add: Let_def)
  next
    case new: False
    show ?thesis
    proof (cases "find_parent c (PreviousTxIDStr input)")
      case (Ok f)
      show ?thesis
      proof (cases f)
        case (Mined t mp)
        with new Ok IH Cons.prems(2) show ?thesis by (simp add: Let_def)
      next
        case (Unmined t)
        with new Ok Cons.prems(2) obtain r' where r': "create t = Some r'"
          by (auto simp: Let_def split: option.splits)
        with rec Ok Unmined have "create' t = Some r'" by simp
        with new Ok Unmined r' IH Cons.prems(2) show ?thesis
          by (cases r') (simp_all add: Let_def)
      qed
    qed (use new Cons.prems(2) in \<open>simp_all add: Let_def\<close>)
  qed
qed simp

lemma add_parents_total:
  assumes "\<And>i t. i \<in> set ins \<Longrightarrow> find_parent c (PreviousTxIDStr i) = Ok (Unmined t) \<Longrightarrow> create t \<noteq> None"
  shows "add_parents create c ins ps \<noteq> None"
  using assms
proof (induction ins arbitrary: ps)
  case (Cons input inputs)
  have IH: "add_parents create c inputs qs \<noteq> None" for qs
    by (rule Cons.IH) (use Cons.prems in auto)
  have rec: "create t \<noteq> None" if "find_parent c (PreviousTxIDStr input) = Ok (Unmined t)" for t
    using that Cons.prems [of input] by simp
  from IH rec show ?case
    by (auto simp: Let_def split: option.splits res.splits found.splits)
qed simp

lemma CreateTxAncestry_Suc:
  "CreateTxAncestry n c tx = Some r \<Longrightarrow> CreateTxAncestry (Suc n) c tx = Some r"
proof (induction n arbitrary: tx r)
  case (Suc n)
  show ?case
  proof (cases "tx_Inputs tx = []")
    case False
    with Suc.prems obtain ps where ps: "add_parents (CreateTxAncestry n c) c (tx_Inputs tx) [] = Some ps"
      "r = bind_res ps (\<lambda>parents. Ok (AncestryJSON (TxID tx) (Tx_String tx) None [] parents))"
      by (auto split: option.splits)
    have "add_parents (CreateTxAncestry (Suc n) c) c (tx_Inputs tx) [] = Some ps"
      using Suc.IH ps(1) by (rule add_parents_mono)
    with False ps(2) show ?thesis by (subst CreateTxAncestry.simps(2)) simp
  qed (use Suc.prems in simp)
qed simp

lemma CreateTxAncestry_mono:
  "n \<le> m \<Longrightarrow> CreateTxAncestry n c tx = Some r \<Longrightarrow> CreateTxAncestry m c tx = Some r"
  by (induction m rule: dec_induct) (simp_all only: CreateTxAncestry_Suc)

lemma finite_fuel:
  assumes "finite S" "\<And>t. t \<in> S \<Longrightarrow> \<exists>n. CreateTxAncestry n c t \<noteq> None"
  shows "\<exists>n. \<forall>t \<in> S. CreateTxAncestry n c t \<noteq> None"
  using assms
proof (induction S rule: finite_induct)
  case (insert t S)
  then obtain n m where "CreateTxAncestry n c t \<noteq> None" "\<forall>t \<in> S. CreateTxAncestry m c t \<noteq> None"
    by blast
  then have "\<forall>t \<in> insert t S. CreateTxAncestry (max n m) c t \<noteq> None"
    using CreateTxAncestry_mono [of n "max n m"] CreateTxAncestry_mono [of m "max n m"] by fastforce
  then show ?case ..
qed simp

lemma finite_needs: "finite {t. needs c t tx}"
proof (rule finite_subset)
  show "{t. needs c t tx} \<subseteq> (\<lambda>i. case find_parent c (PreviousTxIDStr i) of Ok (Unmined t) \<Rightarrow> t)
      ` set (tx_Inputs tx)"
    by (auto simp: needs.simps image_iff) (metis found.simps(6) res.simps(10))
qed simp

lemma CreateTxAncestry_enough:
  "Wellfounded.accp (needs c) tx \<Longrightarrow> \<exists>n. CreateTxAncestry n c tx \<noteq> None"
proof (induction rule: accp.induct)
  case (accI tx)
  then obtain n where n: "\<forall>t \<in> {t. needs c t tx}. CreateTxAncestry n c t \<noteq> None"
    using finite_fuel [OF finite_needs, of c tx c] by blast
  have "add_parents (CreateTxAncestry n c) c (tx_Inputs tx) [] \<noteq> None"
    using n by (intro add_parents_total) (auto intro: needs.intros)
  then have "CreateTxAncestry (Suc n) c tx \<noteq> None" by auto
  then show ?case ..
qed


section \<open>What is built\<close>

text \<open>
  The ancestry of a transaction: its parents are the transactions its inputs spend, each once
  and in any order; a mined parent carries its proof and nothing below, an unmined one is the
  ancestry of the transaction in the store.
\<close>

inductive ancestry_of :: "creator \<Rightarrow> Tx \<Rightarrow> AncestryJSON \<Rightarrow> bool" for c where
  "tx_Inputs tx \<noteq> [] \<Longrightarrow> fst ` set parents = PreviousTxIDStr ` set (tx_Inputs tx) \<Longrightarrow>
   distinct (map fst parents) \<Longrightarrow>
   (\<And>k p. (k, p) \<in> set parents \<Longrightarrow>
      (\<exists>t mp. find_parent c k = Ok (Mined t mp) \<and> p = AncestryJSON k (Tx_String t) (Some mp) [] []) \<or>
      (\<exists>t. find_parent c k = Ok (Unmined t) \<and> ancestry_of c t p)) \<Longrightarrow>
   ancestry_of c tx (AncestryJSON (TxID tx) (Tx_String tx) None [] parents)"

inductive_cases ancestry_ofE: "ancestry_of c tx e"

definition parent_ok :: "creator \<Rightarrow> string \<times> AncestryJSON \<Rightarrow> bool" where
  "parent_ok c kp \<longleftrightarrow> (case find_parent c (fst kp) of
       Ok (Mined t mp) \<Rightarrow> snd kp = AncestryJSON (fst kp) (Tx_String t) (Some mp) [] []
     | Ok (Unmined t) \<Rightarrow> ancestry_of c t (snd kp)
     | _ \<Rightarrow> False)"

lemma parent_ok_iff:
  "parent_ok c (k, p) \<longleftrightarrow>
     (\<exists>t mp. find_parent c k = Ok (Mined t mp) \<and> p = AncestryJSON k (Tx_String t) (Some mp) [] []) \<or>
     (\<exists>t. find_parent c k = Ok (Unmined t) \<and> ancestry_of c t p)"
  by (auto simp: parent_ok_def split: res.splits found.splits)

lemma add_parents_ok:
  assumes "\<And>t e. create t = Some (Ok e) \<Longrightarrow> ancestry_of c t e"
    and "add_parents create c ins ps = Some (Ok qs)"
    and "distinct (map fst ps)" "list_all (parent_ok c) ps"
  shows "distinct (map fst qs) \<and> list_all (parent_ok c) qs \<and>
    fst ` set qs = fst ` set ps \<union> PreviousTxIDStr ` set ins"
  using assms(2-)
proof (induction ins arbitrary: ps)
  case (Cons input inputs)
  let ?k = "PreviousTxIDStr input"
  show ?case
  proof (cases "map_of ps ?k")
    case (Some p)
    then have "?k \<in> fst ` set ps" by (metis map_of_eq_None_iff option.distinct(1))
    moreover have "add_parents create c inputs ps = Some (Ok qs)"
      using Cons.prems(1) Some by (simp add: Let_def)
    ultimately show ?thesis using Cons.IH [of ps] Cons.prems(2,3) by auto
  next
    case None
    then have new: "?k \<notin> fst ` set ps" by (simp add: map_of_eq_None_iff)
    with None Cons.prems(1) obtain p where p: "parent_ok c (?k, p)"
      "add_parents create c inputs (ps @ [(?k, p)]) = Some (Ok qs)"
      by (auto simp: Let_def parent_ok_iff split: res.splits found.splits option.splits intro: assms(1))
    from Cons.IH [OF p(2)] p(1) new Cons.prems(2,3) show ?thesis by auto
  qed
qed auto

lemma CreateTxAncestry_ancestry_of:
  "CreateTxAncestry n c tx = Some (Ok e) \<Longrightarrow> ancestry_of c tx e"
proof (induction n arbitrary: tx e)
  case (Suc n)
  from Suc.prems obtain qs where "tx_Inputs tx \<noteq> []"
    and qs: "add_parents (CreateTxAncestry n c) c (tx_Inputs tx) [] = Some (Ok qs)"
    and e: "e = AncestryJSON (TxID tx) (Tx_String tx) None [] qs"
    by (auto simp: bind_res_eq_Ok split: if_splits option.splits)
  with add_parents_ok [OF Suc.IH qs] show ?case
    unfolding e by (intro ancestry_of.intros) (auto simp: list_all_iff simp flip: parent_ok_iff)
qed simp

section \<open>The order of the parents\<close>

text \<open>
  The parents are a Go map. Whoever ranges over it, at whatever level of the ancestry, meets the
  same entries in some order.
\<close>

inductive reordered :: "AncestryJSON \<Rightarrow> AncestryJSON \<Rightarrow> bool" where
  "map fst ps = map fst qs \<Longrightarrow>
   (\<And>x y. (x, y) \<in> set (zip ps qs) \<Longrightarrow> reordered (snd x) (snd y)) \<Longrightarrow>
   mset qs' = mset qs \<Longrightarrow>
   reordered (AncestryJSON txid raw pf ms ps) (AncestryJSON txid raw pf ms qs')"

inductive_cases reorderedE: "reordered (AncestryJSON txid raw pf ms ps) e"

lemma reordered_refl: "reordered e e"
proof (induction e)
  case (AncestryJSON txid raw pf ms ps)
  show ?case
  proof (rule reordered.intros [of ps ps])
    fix x y
    assume "(x, y) \<in> set (zip ps ps)"
    then have "x \<in> set ps" "y = x" by (auto simp: in_set_zip)
    moreover have "snd x \<in> Basic_BNFs.snds x" by (cases x) simp
    ultimately show "reordered (snd x) (snd y)" using AncestryJSON [of x "snd x"] by simp
  qed simp_all
qed

lemma reordered_no_parents: "reordered (AncestryJSON txid raw pf ms []) e \<Longrightarrow> e = AncestryJSON txid raw pf ms []"
  by (auto elim: reorderedE)

lemma ancestry_of_reordered:
  "ancestry_of c tx e \<Longrightarrow> reordered e e' \<Longrightarrow> ancestry_of c tx e'"
proof (induction arbitrary: e' rule: ancestry_of.induct)
  case (1 tx parents)
  from 1(5) obtain qs qs' where e': "e' = AncestryJSON (TxID tx) (Tx_String tx) None [] qs'"
    and keys: "map fst parents = map fst qs" and mset: "mset qs' = mset qs"
    and below: "\<And>x y. (x, y) \<in> set (zip parents qs) \<Longrightarrow> reordered (snd x) (snd y)"
    by (auto elim: reorderedE)
  have set: "set qs' = set qs" by (rule mset_eq_setD [OF mset])
  have len: "length parents = length qs" by (rule map_eq_imp_length_eq [OF keys])
  have "fst ` set qs' = fst ` set parents" using set keys by (metis list.set_map)
  moreover have "distinct (map fst qs')"
    using 1(3) mset keys by (metis mset_eq_imp_distinct_iff mset_map)
  moreover have "(\<exists>t mp. find_parent c k = Ok (Mined t mp) \<and> q = AncestryJSON k (Tx_String t) (Some mp) [] []) \<or>
      (\<exists>t. find_parent c k = Ok (Unmined t) \<and> ancestry_of c t q)" if "(k, q) \<in> set qs'" for k q
  proof -
    from that set obtain j where j: "j < length qs" "qs ! j = (k, q)" by (metis in_set_conv_nth)
    then have k: "fst (parents ! j) = k" using keys len by (metis fst_conv nth_map)
    define p where "p = snd (parents ! j)"
    have p: "(k, p) \<in> set parents" using j(1) len k p_def by (metis nth_mem prod.collapse)
    have "(parents ! j, qs ! j) \<in> set (zip parents qs)" using j(1) len by (auto simp: in_set_zip)
    then have re: "reordered p q" using below j(2) p_def by fastforce
    from 1(4) [OF p] re show ?thesis using reordered_no_parents by blast
  qed
  ultimately show ?case unfolding e' using 1(1,2) by (intro ancestry_of.intros) simp_all
qed

section \<open>The way to the verifier\<close>

primrec anchored :: "found \<Rightarrow> anchored_tx" where
  "anchored (Mined t mp) = (t, Some mp)"
| "anchored (Unmined t) = (t, None)"

definition found_all :: "creator \<Rightarrow> found list \<Rightarrow> Input list \<Rightarrow> bool" where
  "found_all c fs ins \<longleftrightarrow> (\<forall>i \<in> set ins. \<exists>f \<in> set fs. find_parent c (PreviousTxIDStr i) = Ok f)"

definition found_json :: "found \<Rightarrow> TSCAncestryJSON" where
  "found_json f = anchored_json (anchored f)"

text \<open>Every transaction was found in the store, and the parents of the unmined ones too.\<close>

definition closed_under_parents :: "creator \<Rightarrow> found list \<Rightarrow> bool" where
  "closed_under_parents c fs \<longleftrightarrow>
     (\<forall>f \<in> set fs. (\<exists>k. find_parent c k = Ok f) \<and>
        (\<forall>t. f = Unmined t \<longrightarrow> found_all c fs (tx_Inputs t)))"

lemma closed_under_parents_append:
  "closed_under_parents c fs \<Longrightarrow> closed_under_parents c gs \<Longrightarrow> closed_under_parents c (fs @ gs)"
  unfolding closed_under_parents_def found_all_def by (simp add: ball_Un) blast

lemma flatten_parents:
  assumes "list_all (\<lambda>(k, p). (\<exists>t mp. find_parent c k = Ok (Mined t mp) \<and>
        p = AncestryJSON k (Tx_String t) (Some mp) [] []) \<or>
      (\<exists>t fs. find_parent c k = Ok (Unmined t) \<and> aj_RawTx p = Tx_String t \<and> aj_Proof p = None \<and>
        aj_MapiResponses p = [] \<and> flatten (aj_Parents p) = map found_json fs \<and>
        closed_under_parents c fs \<and> found_all c fs (tx_Inputs t))) ps"
  shows "\<exists>fs. flatten ps = map found_json fs \<and> closed_under_parents c fs \<and>
    (\<forall>k \<in> fst ` set ps. \<exists>f \<in> set fs. find_parent c k = Ok f)"
  using assms
proof (induction ps)
  case Nil
  show ?case by (rule exI [of _ "[]"]) (simp add: closed_under_parents_def)
next
  case (Cons kp ps)
  then obtain gs where gs: "flatten ps = map found_json gs" "closed_under_parents c gs"
    "\<forall>k \<in> fst ` set ps. \<exists>f \<in> set gs. find_parent c k = Ok f" by auto
  obtain k txid raw pf ms pars where kp: "kp = (k, AncestryJSON txid raw pf ms pars)"
    by (metis AncestryJSON.exhaust surj_pair)
  from Cons.prems consider t mp where "find_parent c k = Ok (Mined t mp)" "raw = Tx_String t"
      "pf = Some mp" "ms = []"
    | t fs where "find_parent c k = Ok (Unmined t)" "raw = Tx_String t" "pf = None" "ms = []"
      "flatten pars = map found_json fs" "closed_under_parents c fs"
      "found_all c fs (tx_Inputs t)"
    by (auto simp: kp)
  then show ?case
  proof cases
    case 1
    have "closed_under_parents c [Mined t mp]" using 1 by (auto simp: closed_under_parents_def)
    from closed_under_parents_append [OF this gs(2)] 1 gs show ?thesis
      by (intro exI [of _ "Mined t mp # gs"]) (auto simp: kp found_json_def anchored_json_def)
  next
    case 2
    have "closed_under_parents c (Unmined t # fs)"
      using 2 by (auto simp: closed_under_parents_def found_all_def)
    from closed_under_parents_append [OF this gs(2)] 2 gs show ?thesis
      by (intro exI [of _ "Unmined t # fs @ gs"]) (auto simp: kp found_json_def anchored_json_def)
  qed
qed

lemma flatten_ancestry_of:
  "ancestry_of c tx e \<Longrightarrow> aj_RawTx e = Tx_String tx \<and> aj_Proof e = None \<and> aj_MapiResponses e = [] \<and>
     tx_Inputs tx \<noteq> [] \<and>
     (\<exists>fs. flatten (aj_Parents e) = map found_json fs \<and> closed_under_parents c fs \<and>
        found_all c fs (tx_Inputs tx))"
proof (induction rule: ancestry_of.induct)
  case (1 tx ps)
  have "list_all (\<lambda>(k, p). (\<exists>t mp. find_parent c k = Ok (Mined t mp) \<and>
        p = AncestryJSON k (Tx_String t) (Some mp) [] []) \<or>
      (\<exists>t fs. find_parent c k = Ok (Unmined t) \<and> aj_RawTx p = Tx_String t \<and> aj_Proof p = None \<and>
        aj_MapiResponses p = [] \<and> flatten (aj_Parents p) = map found_json fs \<and>
        closed_under_parents c fs \<and> found_all c fs (tx_Inputs t))) ps"
    unfolding list_all_iff using 1(4) by blast
  from flatten_parents [OF this] obtain fs where fs:
    "flatten ps = map found_json fs" "closed_under_parents c fs"
    "\<forall>k \<in> fst ` set ps. \<exists>f \<in> set fs. find_parent c k = Ok f" by blast
  moreover have "found_all c fs (tx_Inputs tx)" using fs(3) by (simp add: 1(2) found_all_def)
  ultimately show ?case using 1(1) by auto
qed


text \<open>
  What the stores are relied on for: a transaction stands under its own id, is one the binary
  format represents and has inputs; and a stored proof is valid for the id it is stored under.
\<close>

definition honest :: "block_header_chain \<Rightarrow> creator \<Rightarrow> bool" where
  "honest bhc c \<longleftrightarrow> (\<forall>k f. find_parent c k = Ok f \<longrightarrow>
     (let t = fst (anchored f) in
        TxID t = k \<and> wf_Tx t \<and> tx_Inputs t \<noteq> [] \<and> length (Tx_Bytes t) < 2 ^ 64) \<and>
     (case snd (anchored f) of
        None \<Rightarrow> True
      | Some mp \<Rightarrow> (\<exists>b r. MerkleProof_Bytes mp = Ok b \<and> length b < 2 ^ 64 \<and>
          VerifyMerkleProof bhc (b, []) = Ok (Some r, None) \<and> mv_Valid r \<and> mv_TxID r = k)))"

text \<open>Every input of the payment and of its ancestors refers to an output that exists.\<close>

definition known :: "creator \<Rightarrow> Tx \<Rightarrow> Tx set" where
  "known c tx = insert tx {fst (anchored f) | f. \<exists>k. find_parent c k = Ok f}"

definition outputs_exist :: "creator \<Rightarrow> Tx \<Rightarrow> bool" where
  "outputs_exist c tx \<longleftrightarrow>
     (\<forall>t \<in> known c tx. \<forall>i \<in> set (tx_Inputs t). \<forall>t' \<in> known c tx.
        TxID t' = PreviousTxIDStr i \<longrightarrow> unat (in_PreviousTxOutIndex i) < length (tx_Outputs t'))"

lemma fold_entries:
  "set (fold (case_prod AList.update) es aa) \<subseteq> set aa \<union> set es \<and>
   fst ` set (fold (case_prod AList.update) es aa) = fst ` set aa \<union> fst ` set es"
proof (induction es arbitrary: aa)
  case (Cons e es)
  obtain k v where kv: "e = (k, v)" by (cases e)
  let ?b = "AList.update k v aa"
  have b: "set ?b \<subseteq> insert (k, v) (set aa)" "fst ` set ?b = insert k (fst ` set aa)"
    using set_AList_update dom_update [of k v aa] by (simp_all add: dom_map_of_conv_image_fst)
  have "set (fold (case_prod AList.update) es ?b) \<subseteq> set aa \<union> set (e # es)"
    using Cons.IH [THEN conjunct1, of ?b] b(1) kv by auto
  moreover have "fst ` set (fold (case_prod AList.update) es ?b) = fst ` set aa \<union> fst ` set (e # es)"
    unfolding Cons.IH [THEN conjunct2, of ?b] b(2) using kv by auto
  ultimately show ?case using kv by simp
qed simp

lemma found_wf_anchored:
  "honest bhc c \<Longrightarrow> find_parent c k = Ok f \<Longrightarrow> wf_anchored (anchored f)"
  unfolding honest_def wf_anchored_def by (cases f) (force simp: Let_def)+

lemma found_TxID:
  "honest bhc c \<Longrightarrow> find_parent c k = Ok f \<Longrightarrow> TxID (fst (anchored f)) = k"
  unfolding honest_def by (simp add: Let_def)

lemma hex_TxIDBytes: "TxID t = hex_EncodeToString (TxIDBytes t)"
  by (simp add: TxID_def TxIDBytes_def)

lemma TxID_PreviousTxIDStr:
  "length (in_previousTxID i) = 32 \<Longrightarrow> TxID t = PreviousTxIDStr i \<longleftrightarrow> TxIDBytes t = input_id i"
  by (simp add: hex_TxIDBytes PreviousTxIDStr_def)

lemma found_check_proof:
  assumes "honest (call_bhc (vf_bhc v)) c" "find_parent c k = Ok (Mined t mp)" "an_Tx a = t"
  shows "check_proof v a (proof_data mp, s) = Ok ()"
proof -
  from assms(1,2) obtain b r where "MerkleProof_Bytes mp = Ok b"
    "VerifyMerkleProof (call_bhc (vf_bhc v)) (b, []) = Ok (Some r, None)" "mv_Valid r" "mv_TxID r = k"
    "TxID t = k"
    unfolding honest_def by (force simp: Let_def)
  with VerifyMerkleProof_behind [OF this(2), of s] assms(3) show ?thesis
    by (simp add: check_proof_def proof_data_def)
qed

lemma wf_Tx_inputs: "wf_Tx t \<Longrightarrow> i \<in> set (tx_Inputs t) \<Longrightarrow> length (in_previousTxID i) = 32"
  by (auto simp: wf_Tx_def wf_Input_def list_all_iff)


text \<open>The map parsed from the ancestors found has one entry for each transaction among them.\<close>

definition found_map :: "found list \<Rightarrow> ancestors" where
  "found_map fs = fold (case_prod AList.update) (anchored_entries (map anchored fs)) []"

definition bare :: "Tx \<Rightarrow> ancestry" where
  "bare tx = \<lparr> an_Tx = tx, an_Proof = None, an_MapiResponses = [] \<rparr>"

lemma found_entry:
  assumes "(k, a) \<in> set (with_payment (found_map fs) tx)"
  shows "(k, a) = (TxIDBytes tx, bare tx) \<or> (\<exists>f \<in> set fs. \<exists>s. (k, a) = anchored_entry (anchored f) s)"
proof -
  have "set (with_payment (found_map fs) tx) \<subseteq> insert (TxIDBytes tx, bare tx) (set (found_map fs))"
    unfolding with_payment_def bare_def by (rule set_AList_update)
  moreover have "set (found_map fs) \<subseteq> set (anchored_entries (map anchored fs))"
    using fold_entries [THEN conjunct1, of "anchored_entries (map anchored fs)" "[]"]
    unfolding found_map_def by simp
  ultimately show ?thesis using assms set_anchored_entries [of "(k, a)" "map anchored fs"] by auto
qed

lemma found_present:
  assumes "honest bhc c" "found_all c fs ins" "i \<in> set ins" "length (in_previousTxID i) = 32"
  shows "map_of (with_payment (found_map fs) tx) (input_id i) \<noteq> None"
proof -
  from assms(2,3) obtain f where f: "f \<in> set fs" "find_parent c (PreviousTxIDStr i) = Ok f"
    by (auto simp: found_all_def)
  from found_TxID [OF assms(1) f(2)] assms(4) have "TxIDBytes (fst (anchored f)) = input_id i"
    by (simp only: TxID_PreviousTxIDStr)
  with f(1) have "input_id i \<in> fst ` set (found_map fs)"
    unfolding found_map_def fold_entries [THEN conjunct2] keys_anchored_entries by force
  then have "map_of (found_map fs) (input_id i) \<noteq> None" by (simp only: map_of_eq_None_iff not_not)
  then show ?thesis by (simp add: with_payment_def update_conv')
qed

lemma found_known:
  assumes "closed_under_parents c fs" "(k, a) \<in> set (with_payment (found_map fs) tx)"
  shows "an_Tx a \<in> known c tx" "TxIDBytes (an_Tx a) = k"
  using found_entry [OF assms(2)] assms(1)
  by (auto simp: closed_under_parents_def anchored_entry_def known_def bare_def)

lemma found_script_ok:
  assumes "closed_under_parents c fs" "honest bhc c" "outputs_exist c tx"
    and a: "(k, a) \<in> set (with_payment (found_map fs) tx)"
      "list_all (\<lambda>i. length (in_previousTxID i) = 32) (tx_Inputs (an_Tx a))"
      "an_Proof a = None \<longrightarrow> found_all c fs (tx_Inputs (an_Tx a))"
  shows "script_ok proofs (with_payment (found_map fs) tx) a"
  unfolding script_ok_def
proof (intro allI impI)
  fix j
  let ?i = "tx_Inputs (an_Tx a) ! j" and ?aa = "with_payment (found_map fs) tx"
  assume "last_input (tx_Inputs (an_Tx a)) j"
  then have i: "?i \<in> set (tx_Inputs (an_Tx a))" by (simp add: last_input_def)
  with a(2) have l: "length (in_previousTxID ?i) = 32" by (simp add: list_all_iff)
  show "case map_of ?aa (input_id ?i) of
      None \<Rightarrow> \<not> (an_Proof a = None \<and> proofs)
    | Some p \<Rightarrow> unat (in_PreviousTxOutIndex ?i) < length (tx_Outputs (an_Tx p))"
  proof (cases "map_of ?aa (input_id ?i)")
    case None
    with found_present [OF assms(2) _ i l, of fs tx] a(3) show ?thesis by auto
  next
    case (Some p)
    note p = found_known [OF assms(1) map_of_SomeD [OF Some]]
    from p(2) l have "TxID (an_Tx p) = PreviousTxIDStr ?i" by (simp add: TxID_PreviousTxIDStr)
    with assms(3) p(1) i found_known(1) [OF assms(1) a(1)] Some show ?thesis
      unfolding outputs_exist_def by auto
  qed
qed

text \<open>The accepted ancestors: the payment, and the transactions found.\<close>

lemma found_accepted:
  assumes closed: "closed_under_parents c fs" "found_all c fs (tx_Inputs tx)" "tx_Inputs tx \<noteq> []"
    and honest: "honest (call_bhc (vf_bhc v)) c"
    and ids: "list_all (\<lambda>i. length (in_previousTxID i) = 32) (tx_Inputs tx)"
    and outs: "outputs_exist c tx" and fees: "\<not> o_fees opts"
  shows "accepted v opts (found_map fs) tx tx"
proof -
  let ?aa = "with_payment (found_map fs) tx"
  note script = found_script_ok [OF closed(1) honest outs]
  have "ancestor_ok v opts ?aa a" if "(k, a) \<in> set ?aa" for k a
    using found_entry [OF that]
  proof
    assume "(k, a) = (TxIDBytes tx, bare tx)"
    with closed ids script [OF that] found_present [OF honest closed(2)] show ?thesis
      by (auto simp: ancestor_ok_def proof_ok_def list_all_iff bare_def)
  next
    assume "\<exists>f \<in> set fs. \<exists>s. (k, a) = anchored_entry (anchored f) s"
    then obtain f s where f: "f \<in> set fs" "(k, a) = anchored_entry (anchored f) s" by blast
    with closed(1) obtain k' where k': "find_parent c k' = Ok f"
      "\<forall>t. f = Unmined t \<longrightarrow> found_all c fs (tx_Inputs t)" by (auto simp: closed_under_parents_def)
    have "wf_anchored (anchored f)" by (rule found_wf_anchored [OF honest k'(1)])
    then have wf: "tx_Inputs (an_Tx a) \<noteq> []"
      "list_all (\<lambda>i. length (in_previousTxID i) = 32) (tx_Inputs (an_Tx a))"
      using f(2) wf_Tx_inputs [of "an_Tx a"] by (auto simp: wf_anchored_def anchored_entry_def list_all_iff)
    show ?thesis
    proof (cases f)
      case (Mined t mp)
      with f(2) k'(1) found_check_proof [OF honest] script [OF that wf(2)] wf show ?thesis
        by (auto simp: ancestor_ok_def proof_ok_def anchored_entry_def)
    next
      case (Unmined t)
      with f(2) k'(2) script [OF that wf(2)] found_present [OF honest, of fs "tx_Inputs t"] wf show ?thesis
        by (auto simp: ancestor_ok_def proof_ok_def anchored_entry_def list_all_iff)
    qed
  qed
  with fees show ?thesis by (auto simp: accepted_def)
qed

lemma created_accepted:
  assumes "ancestry_of c tx e" "honest (call_bhc (vf_bhc v)) c" "outputs_exist c tx"
    "list_all (\<lambda>i. length (in_previousTxID i) = 32) (tx_Inputs tx)"
    "\<And>aa. set (ord aa) = set aa" "\<And>m. set (ordi m) = set m" "\<not> o_fees (applied_options v opts)"
  shows "\<exists>b. AncestryJSON_Bytes m e = Ok b \<and>
    VerifyPayment u ord ordi v \<lparr> pay_PaymentTx = tx, pay_Ancestry = b \<rparr> opts = Ok (tx, None)"
proof -
  from flatten_ancestry_of [OF assms(1)] obtain fs where
    fs: "flatten (aj_Parents e) = map found_json fs" "closed_under_parents c fs"
      "found_all c fs (tx_Inputs tx)" and ins: "tx_Inputs tx \<noteq> []" by blast
  let ?xs = "map anchored fs"
  have "\<forall>f \<in> set fs. wf_anchored (anchored f)"
    using fs(2) found_wf_anchored [OF assms(2)] by (auto simp: closed_under_parents_def)
  then have wf: "list_all wf_anchored ?xs" by (simp add: list_all_iff)
  have json: "flatten (aj_Parents e) = map anchored_json ?xs"
    using fs(1) by (simp add: found_json_def)
  have nomapi: "list_all (\<lambda>j. tsc_MapiResponses j = []) (flatten (aj_Parents e))"
    by (simp add: json list_all_iff anchored_json_def)
  let ?b = "1 # concat (map anchored_Bytes ?xs)"
  have bytes: "AncestryJSON_Bytes m e = Ok ?b"
    using AncestryJSON_Bytes_iff [OF nomapi] TSCAncestries_Bytes_anchored [OF wf]
    unfolding json by simp
  have "fs \<noteq> []" using fs(3) ins by (cases "tx_Inputs tx") (auto simp: found_all_def)
  then have parse: "parseAncestry u ?b = Ok (found_map fs)"
    unfolding found_map_def by (intro parseAncestry_fold [OF wf]) simp
  have "accepted v (applied_options v opts) (found_map fs) tx tx"
    by (rule found_accepted [OF fs(2,3) ins assms(2,4,3,7)])
  with parse bytes show ?thesis
    by (auto simp: VerifyPayment_iff [of ord ordi, OF assms(5,6)])
qed


section \<open>Properties\<close>

definition sample_creator :: creator where
  "sample_creator = \<lparr>
     cr_txc = (\<lambda>k. if k = TxID sample_parent then Ok (Some sample_parent) else Err (Msg ''no such tx'')),
     cr_mpc = (\<lambda>k. Ok (Some \<lparr> pf_Index = 0, pf_TxOrID = k, pf_Target = k, pf_Nodes = [],
       pf_TargetType = ''merkleRoot'', pf_ProofType = ''branch'', pf_Composite = False \<rparr>)) \<rparr>"

lemma sample_found:
  "find_parent sample_creator k = Ok f \<longleftrightarrow> k = TxID sample_parent \<and>
     f = Mined sample_parent \<lparr> pf_Index = 0, pf_TxOrID = k, pf_Target = k, pf_Nodes = [],
       pf_TargetType = ''merkleRoot'', pf_ProofType = ''branch'', pf_Composite = False \<rparr>"
  by (auto simp: find_parent_def sample_creator_def split: if_splits)

lemma sample_proof_Bytes:
  "MerkleProof_Bytes \<lparr> pf_Index = 0, pf_TxOrID = TxID t, pf_Target = TxID t, pf_Nodes = [],
     pf_TargetType = ''merkleRoot'', pf_ProofType = ''branch'', pf_Composite = False \<rparr> = Ok (self_proof t)"
  by (simp add: MerkleProof_Bytes_def TxID_def self_proof_def MerkleProof_flags_def VarInt_Bytes_def)

lemma sample_inputs:
  "i \<in> set (tx_Inputs sample_payment) \<Longrightarrow> in_previousTxID i = TxIDBytes sample_parent \<and> in_PreviousTxOutIndex i = 0"
  using sample_payment(1,2) by (simp add: spends_first_def list_all_iff)

lemma sample_not_needed: "\<not> needs sample_creator t tx"
  by (auto simp: needs.simps sample_found)

text \<open>C22: building an ancestry ends with a result, and with the same one for more fuel, when the
  stores hold no endless chain of unmined parents below the transaction.\<close>

theorem CreateTxAncestry_terminates:
  assumes "Wellfounded.accp (needs c) tx"
  shows "\<exists>n r. \<forall>k. CreateTxAncestry (n + k) c tx = Some r"
proof -
  from CreateTxAncestry_enough [OF assms] obtain n r where "CreateTxAncestry n c tx = Some r" by auto
  then have "\<forall>k. CreateTxAncestry (n + k) c tx = Some r" by (intro allI CreateTxAncestry_mono [OF le_add1])
  then show ?thesis by blast
qed

theorem CreateTxAncestry_terminates_witness:
  "\<exists>n r. \<forall>k. CreateTxAncestry (n + k) sample_creator sample_payment = Some r"
  by (rule CreateTxAncestry_terminates) (auto intro: accp.intros simp: sample_not_needed)

text \<open>C21: what is built from honest stores is the ancestry of the transaction: every input has its parent, found in
  the store under its id, once; a mined parent with its proof and nothing below, an unmined one
  with its own ancestry; and \<open>ParentTx\<close> gives the parent of every input.\<close>

theorem CreateTxAncestry_complete:
  assumes "CreateTxAncestry n c tx = Some (Ok e)" "i \<in> set (tx_Inputs tx)"
    "honest bhc c"
  shows "ancestry_of c tx e \<and>
    (\<exists>f. find_parent c (PreviousTxIDStr i) = Ok f \<and>
       ParentTx e (PreviousTxIDStr i) = Ok (fst (anchored f)))"
proof -
  let ?k = "PreviousTxIDStr i"
  have anc: "ancestry_of c tx e" by (rule CreateTxAncestry_ancestry_of [OF assms(1)])
  then obtain ps where ps: "aj_Parents e = ps" "fst ` set ps = PreviousTxIDStr ` set (tx_Inputs tx)"
    "distinct (map fst ps)" "\<And>k p. (k, p) \<in> set ps \<Longrightarrow> parent_ok c (k, p)"
    unfolding parent_ok_iff by (cases rule: ancestry_ofE) auto
  have "?k \<in> fst ` set ps" using assms(2) ps(2) by simp
  then obtain p where p: "(?k, p) \<in> set ps" by force
  from ps(4) [OF p] obtain f where f: "find_parent c ?k = Ok f" "aj_RawTx p = Tx_String (fst (anchored f))"
    unfolding parent_ok_iff using flatten_ancestry_of by fastforce
  from f(1) assms(3) have "wf_Tx (fst (anchored f))" by (simp add: honest_def Let_def)
  then have "ParentTx e ?k = Ok (fst (anchored f))"
    using map_of_is_SomeI [OF ps(3) p] f(2) by (simp add: ParentTx_def ps(1) NewTxFromString_String)
  with anc f(1) show ?thesis by blast
qed

lemma honest_sample: "honest (call_bhc (vf_bhc sample_verifier)) sample_creator"
  using sample_parent VerifyMerkleProof_self [of "call_bhc (vf_bhc sample_verifier)" sample_parent]
  by (auto simp: honest_def sample_found sample_proof_Bytes self_proof_def spends_first_def Let_def)

lemma sample_created:
  "CreateTxAncestry 1 sample_creator sample_payment = Some (Ok (AncestryJSON (TxID sample_payment)
     (Tx_String sample_payment) None [] [(TxID sample_parent, AncestryJSON (TxID sample_parent)
       (Tx_String sample_parent) (Some \<lparr> pf_Index = 0, pf_TxOrID = TxID sample_parent,
         pf_Target = TxID sample_parent, pf_Nodes = [], pf_TargetType = ''merkleRoot'',
         pf_ProofType = ''branch'', pf_Composite = False \<rparr>) [] [])]))"
proof -
  obtain i where i: "tx_Inputs sample_payment = [i]"
    by (simp add: sample_payment_def sample_parent_def sample_tx_def)
  then have "PreviousTxIDStr i = TxID sample_parent"
    using sample_inputs [of i] by (simp add: PreviousTxIDStr_def hex_TxIDBytes)
  with i show ?thesis by (simp add: find_parent_def sample_creator_def Let_def)
qed

theorem CreateTxAncestry_complete_witness:
  "\<exists>e f. CreateTxAncestry 1 sample_creator sample_payment = Some (Ok e) \<and>
    ParentTx e (PreviousTxIDStr (hd (tx_Inputs sample_payment))) = Ok (fst (anchored f))"
proof -
  have "hd (tx_Inputs sample_payment) \<in> set (tx_Inputs sample_payment)"
    by (simp add: sample_payment_def sample_parent_def sample_tx_def)
  from CreateTxAncestry_complete [OF sample_created this honest_sample] sample_created
  show ?thesis by blast
qed



end
