(* ===== verification/Proof_Acceptance.thy ===== *)
theory Proof_Acceptance
  imports Merkle_Proof
begin

text \<open>
  What the verifier of binary proofs accepts, for arbitrary bytes: what the parser guarantees of a
  proof it returns, the root a proof is compared with, and the verdict in terms of the fold of
  \<open>Merkle_Spec\<close>.
\<close>

text \<open>The root the target of a proof stands for, by the type of the target in the flags.\<close>

definition target_root :: "block_header_chain \<Rightarrow> merkleProofBinary \<Rightarrow> string res" where
  "target_root bhc m =
     (if mpb_flags m AND 6 = 0 then bind_res (bhc (mpb_target m)) header_root
      else if mpb_flags m AND 6 = 4 then Ok (mpb_target m)
      else if mpb_flags m AND 6 = 2 then ExtractMerkleRootFromBlockHeader (mpb_target m)
      else Err (SpvErr ErrInvalidMerkleFlags))"

text \<open>The fold of the nodes of a proof from an id to the root of its tree.\<close>

definition binary_fold :: "string \<Rightarrow> merkleProofBinary \<Rightarrow> string" where
  "binary_fold txid m = fold_path str_parent txid (unat (mpb_index m))
     (resolve_nodes txid (unat (mpb_index m)) (mpb_nodes m))"

section \<open>What the parser guarantees\<close>

lemma take_rev_hex_OkD: "take_rev_hex_alone n bs = Ok (s, r) \<Longrightarrow> canonical_hex s \<and> length s = 2 * n"
  by (auto simp: take_rev_hex_alone_def go_simps dest!: take_bytes_OkD)

lemma parse_nodes_OkD:
  "parse_nodes_alone n i bs = Ok (nodes, r) \<Longrightarrow> list_all proof_node nodes \<and> length nodes = n"
proof (induction n arbitrary: i bs nodes)
  case (Suc n)
  from Suc.prems show ?case
    by (auto simp: go_simps proof_node_def hash_str_def split: if_splits
        dest!: Suc.IH take_rev_hex_OkD)
qed simp

lemma shl64_1_less:
  assumes "i < shl64 1 n"
  shows "int_count n < 64 \<and> unat i < 2 ^ int_count n"
proof -
  from assms have n: "unat n < 64" by (auto simp: shl64_def word_le_nat_alt split: if_splits)
  from small_count [OF n] assms show ?thesis by (simp add: n word_less_nat_alt)
qed

lemma read_proof_alone_OkD:
  assumes "read_proof_alone p = Ok (m, r)"
  shows "list_all proof_node (mpb_nodes m)" "unat (mpb_index m) < 2 ^ length (mpb_nodes m)"
    "length (mpb_nodes m) < 64" "canonical_hex (mpb_txOrID m)"
  using assms
  by (auto simp: read_proof_alone_def go_simps not_le split: if_splits
      dest!: parse_nodes_OkD take_rev_hex_OkD shl64_1_less)

lemma parseBinaryMerkleProof_OkD:
  assumes "parseBinaryMerkleProof p = Ok m"
  shows "list_all proof_node (mpb_nodes m)" "unat (mpb_index m) < 2 ^ length (mpb_nodes m)"
    "length (mpb_nodes m) < 64" "canonical_hex (mpb_txOrID m)"
  using parseBinaryMerkleProof_whole [OF assms] read_proof_alone_OkD by blast+

lemma TxID_eq: "TxID t = StringFromBytesReverse (Sha256d (Tx_Bytes t))"
  by (simp add: TxID_def StringFromBytesReverse_def)

lemma hash_str_TxID [simp]: "hash_str (TxID t)"
  by (simp add: TxID_eq)

lemma hash_str_txid:
  assumes "txidFromTxOrID t = Ok txid" "canonical_hex t"
  shows "hash_str txid"
  using assms hash_str_TxID by (auto simp: txidFromTxOrID_def hash_str_def go_simps split: if_splits)

section \<open>The verdict\<close>

lemma verifyProof_accepts_iff:
  assumes "hash_str c" "list_all proof_node nodes"
  shows "(\<exists>l. verifyProof c root index nodes = Ok (True, l)) \<longleftrightarrow>
    star_ok (unat index) nodes \<and> fold_path str_parent c (unat index) (resolve_nodes c (unat index) nodes) = root"
  using verifyProof_loop_fold [OF assms, of index True] verifyProof_fold [OF assms, of index root]
  by (auto simp: verifyProof_def split: if_splits)

lemma VerifyMerkleProof_parsed:
  assumes "parseBinaryMerkleProof p = Ok m" "txidFromTxOrID (mpb_txOrID m) = Ok txid" "txid \<noteq> ''''"
  shows "VerifyMerkleProof bhc p =
    on_err (validateTxOrID (mpb_flags m) (mpb_txOrID m)) (\<lambda>e. Ok (None, Some e)) (\<lambda>_.
    on_err (target_root bhc m) (\<lambda>e. Ok (Some (invalid_response txid), Some e)) (\<lambda>root.
      if root = '''' then Ok (Some (invalid_response txid), Some (SpvErr ErrMissingRootInProof))
      else on_err (verifyProof txid root (mpb_index m) (mpb_nodes m))
        (\<lambda>e. Ok (Some (invalid_response txid), Some e))
        (\<lambda>(valid, isLast). Ok (Some \<lparr> mv_TxID = txid, mv_Valid = valid, mv_IsLastInTree = isLast \<rparr>, None))))"
  using assms flag_bits(3,4) [of "mpb_flags m"]
  by (simp add: VerifyMerkleProof_def target_root_def Let_def)

lemma VerifyMerkleProof_response_iff:
  assumes "parseBinaryMerkleProof p = Ok m"
  shows "VerifyMerkleProof bhc p = Ok (Some r, None) \<longleftrightarrow>
    validateTxOrID (mpb_flags m) (mpb_txOrID m) = Ok () \<and>
    txidFromTxOrID (mpb_txOrID m) = Ok (mv_TxID r) \<and>
    (\<exists>root. target_root bhc m = Ok root \<and> root \<noteq> '''' \<and>
       verifyProof (mv_TxID r) root (mpb_index m) (mpb_nodes m) = Ok (mv_Valid r, mv_IsLastInTree r))"
proof (cases "txidFromTxOrID (mpb_txOrID m)")
  case (Ok txid)
  then have "txid \<noteq> ''''" by (auto dest: txidFromTxOrID_length)
  note parsed = VerifyMerkleProof_parsed [OF assms Ok this, of bhc]
  show ?thesis
  proof (cases "validateTxOrID (mpb_flags m) (mpb_txOrID m)")
    case valid: (Ok u)
    show ?thesis
    proof (cases "target_root bhc m")
      case root: (Ok root)
      show ?thesis
        by (cases "verifyProof txid root (mpb_index m) (mpb_nodes m)"; cases r)
          (auto simp: parsed valid Ok root)
    qed (simp_all add: parsed valid)
  qed (simp_all add: parsed)
next
  case (Err e)
  then show ?thesis
    by (cases "validateTxOrID (mpb_flags m) (mpb_txOrID m)") (simp_all add: VerifyMerkleProof_def assms)
next
  case (Panic q)
  then show ?thesis
    by (cases "validateTxOrID (mpb_flags m) (mpb_txOrID m)") (simp_all add: VerifyMerkleProof_def assms)
qed

text \<open>The verdict on a proof for a block hash, against the ids of the block: as for the JSON form,
  the id proved is the one at the index, or the proof yields a collision.\<close>

theorem VerifyMerkleProof_sound:
  assumes "VerifyMerkleProof bhc p = Ok (Some r, None)" "mv_Valid r" "parseBinaryMerkleProof p = Ok m"
    and "mpb_flags m AND 6 = 0" "bhc (mpb_target m) = Ok (Some hdr)"
    and "list_all hash_str txids" "BuildMerkleRoot txids = Ok (HashMerkleRootStr hdr)"
    and "unat (mpb_index m) < length txids"
    and "length (mpb_nodes m) = length (merkle_path str_parent txids (unat (mpb_index m)))"
  shows "case path_collision str_parent (\<lambda>l r. BytesFromStringReverse l @ BytesFromStringReverse r)
      (mv_TxID r) (resolve_nodes (mv_TxID r) (unat (mpb_index m)) (mpb_nodes m))
      (txids ! unat (mpb_index m)) (merkle_path str_parent txids (unat (mpb_index m)))
      (unat (mpb_index m)) of
      None \<Rightarrow> mv_TxID r = txids ! unat (mpb_index m)
    | Some (x, y) \<Rightarrow> x \<noteq> y \<and> Sha256d x = Sha256d y"
proof (rule verifyProof_sound [OF assms(6,8,9) parseBinaryMerkleProof_OkD(1) [OF assms(3)] _ assms(7)])
  from assms(1,2,4,5) show "verifyProof (mv_TxID r) (HashMerkleRootStr hdr) (mpb_index m) (mpb_nodes m) =
      Ok (True, mv_IsLastInTree r)"
    unfolding VerifyMerkleProof_response_iff [OF assms(3)] by (auto simp: target_root_def header_root_def)
  from assms(1) show "hash_str (mv_TxID r)"
    unfolding VerifyMerkleProof_response_iff [OF assms(3)]
    using hash_str_txid [OF _ parseBinaryMerkleProof_OkD(4) [OF assms(3)]] by blast
qed

section \<open>Property\<close>

text \<open>C10: what \<open>VerifyMerkleProof\<close> accepts, for an arbitrary slice of bytes. It returns no error and a valid
  verdict for an id exactly when the bytes parse, the flags fit the kind of the id, the id is the
  one given or the hash of the transaction given, no \<open>*\<close> stands where the node is a right child,
  and the nodes, each \<open>*\<close> replaced by the node it stands beside, fold from the id to the root that
  the target stands for: the root in the header the chain knows under a block hash, the root in a
  given header, or a given root.\<close>

theorem VerifyMerkleProof_accepts_iff:
  "(\<exists>r. VerifyMerkleProof bhc p = Ok (Some r, None) \<and> mv_Valid r \<and> mv_TxID r = txid) \<longleftrightarrow>
   (\<exists>m. parseBinaryMerkleProof p = Ok m \<and> validateTxOrID (mpb_flags m) (mpb_txOrID m) = Ok () \<and>
      txidFromTxOrID (mpb_txOrID m) = Ok txid \<and> star_ok (unat (mpb_index m)) (mpb_nodes m) \<and>
      target_root bhc m = Ok (binary_fold txid m))"
proof (cases "parseBinaryMerkleProof p")
  case (Ok m)
  note m = parseBinaryMerkleProof_OkD [OF Ok]
  have accepts: "(\<exists>r. VerifyMerkleProof bhc p = Ok (Some r, None) \<and> mv_Valid r \<and> mv_TxID r = txid) \<longleftrightarrow>
      validateTxOrID (mpb_flags m) (mpb_txOrID m) = Ok () \<and> txidFromTxOrID (mpb_txOrID m) = Ok txid \<and>
      (\<exists>root. target_root bhc m = Ok root \<and> root \<noteq> '''' \<and>
        (\<exists>l. verifyProof txid root (mpb_index m) (mpb_nodes m) = Ok (True, l)))"
    (is "?L = ?R")
  proof
    show "?L \<Longrightarrow> ?R" unfolding VerifyMerkleProof_response_iff [OF Ok] by auto
    assume ?R
    then obtain root l where "validateTxOrID (mpb_flags m) (mpb_txOrID m) = Ok ()"
      "txidFromTxOrID (mpb_txOrID m) = Ok txid" "target_root bhc m = Ok root" "root \<noteq> ''''"
      "verifyProof txid root (mpb_index m) (mpb_nodes m) = Ok (True, l)" by blast
    then show ?L
      unfolding VerifyMerkleProof_response_iff [OF Ok]
      by (intro exI [of _ "\<lparr> mv_TxID = txid, mv_Valid = True, mv_IsLastInTree = l \<rparr>"]) simp
  qed
  show ?thesis
  proof (cases "txidFromTxOrID (mpb_txOrID m) = Ok txid")
    case True
    from hash_str_txid [OF this m(4)] have h: "hash_str txid" .
    then have "hash_str (binary_fold txid m)"
      unfolding binary_fold_def by (intro str_hash.wf_fold_path h list_all_resolve_nodes m(1))
    then have ne: "binary_fold txid m \<noteq> ''''" by (auto simp: hash_str_def)
    show ?thesis
      unfolding accepts verifyProof_accepts_iff [OF h m(1)]
      using ne True Ok unfolding binary_fold_def by auto
  qed (simp add: accepts Ok)
qed (simp_all add: VerifyMerkleProof_def)

end
