(* ===== verification/Mined_Payment.thy ===== *)
theory Mined_Payment
  imports Creator Block_Codec Proof_Acceptance
begin

text \<open>
  From blocks to payments: the Merkle proof of a transaction of a block in its binary form, and
  the verifier of payments on an ancestry built from a store of such proofs.
\<close>

section \<open>Lengths\<close>

lemma length_merkle_path_le: "i < length xs \<Longrightarrow> length xs \<le> 2 ^ k \<Longrightarrow> length (merkle_path comb xs i) \<le> k"
proof (induction k arbitrary: xs i)
  case 0
  then show ?case by (simp add: merkle_path_short)
next
  case (Suc k)
  show ?case
  proof (cases "length xs \<le> 1")
    case False
    have "i div 2 < length (merkle_level comb xs)" "length (merkle_level comb xs) \<le> 2 ^ k"
      using Suc.prems by simp_all
    from Suc.IH [OF this] show ?thesis using False Suc.prems(1) by (simp add: merkle_path_step)
  qed (simp add: merkle_path_short)
qed

lemma length_proof_nodes:
  "list_all proof_node nodes \<Longrightarrow> length (concat (map raw_node nodes)) \<le> 33 * length nodes"
proof (induction nodes)
  case (Cons n nodes)
  have "length (raw_node n) \<le> 33"
    using Cons.prems length_hexDecode_valid [of n]
    by (auto simp: raw_node_def proof_node_def hash_str_def canonical_hex_valid)
  with Cons show ?case by simp
qed simp

lemma length_proof_Bytes:
  assumes "wf_MerkleProof mp" "length (pf_TxOrID mp) = 64" "MerkleProof_Bytes mp = Ok b"
  shows "length b < 2 ^ 64"
proof -
  let ?tx = "fst (hexDecode (pf_TxOrID mp))" and ?target = "fst (hexDecode (pf_Target mp))"
  let ?nodes = "concat (map raw_node (pf_Nodes mp))"
  note wf = assms(1) [unfolded wf_MerkleProof_def]
  have valid: "valid_hex (pf_TxOrID mp)" "valid_hex (pf_Target mp)"
    using wf by (simp_all add: canonical_hex_valid)
  have "b = MerkleProof_flags mp # VarInt_Bytes (pf_Index mp) @ rev ?tx @ rev ?target @
      of_nat (length (pf_Nodes mp)) # ?nodes"
    using assms(3) wf valid assms(2)
    by (simp add: MerkleProof_Bytes_def hex_DecodeString_valid map_node_Bytes Let_def)
  moreover have "length ?tx = 32" "2 * length ?target \<le> 160"
    using length_hexDecode_valid [OF valid(1)] length_hexDecode_valid [OF valid(2)] wf assms(2) by auto
  moreover have "length ?nodes \<le> 33 * 64"
    using length_proof_nodes [of "pf_Nodes mp"] wf by simp
  moreover have "length (VarInt_Bytes (pf_Index mp)) \<le> 9" by (simp add: VarInt_Bytes_def)
  ultimately show ?thesis by simp
qed

section \<open>The proof of a transaction of a block\<close>

definition block_proof :: "string \<Rightarrow> Block \<Rightarrow> nat \<Rightarrow> MerkleProof" where
  "block_proof hash b i =
     \<lparr> pf_Index = of_nat i, pf_TxOrID = TxID (bl_Txs b ! i), pf_Target = hash,
       pf_Nodes = tsc_nodes (map TxID (bl_Txs b)) i, pf_TargetType = ''hash'',
       pf_ProofType = ''branch'', pf_Composite = False \<rparr>"

text \<open>The transaction is in a block whose header the chain has under the hash of the proof.\<close>

definition mined :: "block_header_chain \<Rightarrow> Tx \<Rightarrow> MerkleProof \<Rightarrow> bool" where
  "mined bhc t mp \<longleftrightarrow>
     (\<exists>hash b i. hash_str hash \<and> wf_Block b \<and> i < length (bl_Txs b) \<and> t = bl_Txs b ! i \<and>
        mp = block_proof hash b i \<and> bhc hash = Ok (Some (bl_BlockHeader b)) \<and>
        BuildMerkleRoot (map TxID (bl_Txs b)) = Ok (HashMerkleRootStr (bl_BlockHeader b)))"

lemma wf_block_proof:
  assumes "hash_str hash" "wf_Block b" "i < length (bl_Txs b)"
  shows "wf_MerkleProof (block_proof hash b i)"
proof -
  let ?ids = "map TxID (bl_Txs b)"
  have ids: "list_all hash_str ?ids" "i < length ?ids" using assms(3) by (simp_all add: list_all_iff)
  have "length ?ids \<le> 2 ^ 63" using assms(2) by (simp add: wf_Block_def)
  then have "length (merkle_path str_parent ?ids i) \<le> 63" by (rule length_merkle_path_le [OF ids(2)])
  moreover have len: "length (tsc_nodes ?ids i) = length (merkle_path str_parent ?ids i)"
    using arg_cong [OF tsc_nodes_path(1) [OF ids], of length] by simp
  moreover have "unat (of_nat i :: u64) = i"
    using assms(2,3) by (intro unat_of_nat_u64) (simp add: wf_Block_def)
  ultimately show ?thesis
    using length_merkle_path_pow [OF ids(2), of str_parent] tsc_nodes_path(3) [OF ids] assms(1)
      hash_str_TxID [of "bl_Txs b ! i"]
    by (simp add: wf_MerkleProof_def block_proof_def hash_str_def)
qed

lemma mined_verifies:
  assumes "wf_chain bhc" "mined bhc t mp"
  shows "\<exists>b r. MerkleProof_Bytes mp = Ok b \<and> length b < 2 ^ 64 \<and>
    VerifyMerkleProof bhc (b, []) = Ok (Some r, None) \<and> mv_Valid r \<and> mv_TxID r = TxID t"
proof -
  from assms(2) obtain hash bl i where m: "hash_str hash" "wf_Block bl" "i < length (bl_Txs bl)"
    "t = bl_Txs bl ! i" "mp = block_proof hash bl i" "bhc hash = Ok (Some (bl_BlockHeader bl))"
    "BuildMerkleRoot (map TxID (bl_Txs bl)) = Ok (HashMerkleRootStr (bl_BlockHeader bl))"
    by (auto simp: mined_def)
  let ?ids = "map TxID (bl_Txs bl)"
  have wf: "wf_MerkleProof mp" unfolding m(5) by (rule wf_block_proof [OF m(1-3)])
  from parse_MerkleProof_Bytes [OF wf] obtain b where b: "MerkleProof_Bytes mp = Ok b" by blast
  have len: "length b < 2 ^ 64" by (rule length_proof_Bytes [OF wf _ b]) (simp add: m(5) block_proof_def)
  have ids: "list_all hash_str ?ids" "i < length ?ids" "length ?ids < 2 ^ 64"
    using m(2,3) by (auto simp: list_all_iff wf_Block_def)
  have ne: "?ids \<noteq> []" using ids(2) by (metis length_0_conv not_less_zero)
  have root: "HashMerkleRootStr (bl_BlockHeader bl) = merkle_root str_parent ?ids"
    using m(7) BuildMerkleRoot_node_str [OF list_all_node_str [OF ids(1)] ne] by simp
  have "verifyProof (TxID t) (merkle_root str_parent ?ids) (of_nat i) (tsc_nodes ?ids i) =
      Ok (True, right_spine str_parent (?ids ! i) i (merkle_path str_parent ?ids i))"
    using verifyProof_honest [OF ids] m(3,4) by simp
  moreover have "txidFromTxOrID (TxID t) = Ok (TxID t)"
    by (simp add: txidFromTxOrID_def)
  moreover have "proof_root bhc mp = Ok (merkle_root str_parent ?ids)"
    by (simp add: proof_root_def m(5,6) block_proof_def header_root_def root)
  ultimately have "VerifyMerkleProof bhc (b @ [], []) = Ok (Some \<lparr> mv_TxID = TxID t, mv_Valid = True,
      mv_IsLastInTree = right_spine str_parent (?ids ! i) i (merkle_path str_parent ?ids i) \<rparr>, None)"
    unfolding VerifyMerkleProof_Bytes [OF assms(1) wf b] by (simp add: m(4,5) block_proof_def)
  with b len show ?thesis by auto
qed

section \<open>Stores over a block chain\<close>

text \<open>
  Transactions stand under their ids, and every stored proof is the one of its transaction in a
  block of the chain.
\<close>

definition block_stores :: "block_header_chain \<Rightarrow> creator \<Rightarrow> bool" where
  "block_stores bhc c \<longleftrightarrow> (\<forall>k f. find_parent c k = Ok f \<longrightarrow>
     TxID (fst (anchored f)) = k \<and> wf_Tx (fst (anchored f)) \<and> tx_Inputs (fst (anchored f)) \<noteq> [] \<and>
     length (Tx_Bytes (fst (anchored f))) < 2 ^ 64 \<and>
     pred_option (mined bhc (fst (anchored f))) (snd (anchored f)))"

lemma block_stores_honest:
  assumes "wf_chain bhc" "block_stores bhc c"
  shows "honest bhc c"
  unfolding honest_def
proof (intro allI impI)
  fix k f
  assume "find_parent c k = Ok f"
  with assms(2) have f: "TxID (fst (anchored f)) = k" "wf_Tx (fst (anchored f))"
    "tx_Inputs (fst (anchored f)) \<noteq> []" "length (Tx_Bytes (fst (anchored f))) < 2 ^ 64"
    "pred_option (mined bhc (fst (anchored f))) (snd (anchored f))"
    unfolding block_stores_def by blast+
  then show "(let t = fst (anchored f) in
      TxID t = k \<and> wf_Tx t \<and> tx_Inputs t \<noteq> [] \<and> length (Tx_Bytes t) < 2 ^ 64) \<and>
    (case snd (anchored f) of None \<Rightarrow> True
     | Some mp \<Rightarrow> (\<exists>b r. MerkleProof_Bytes mp = Ok b \<and> length b < 2 ^ 64 \<and>
         VerifyMerkleProof bhc (b, []) = Ok (Some r, None) \<and> mv_Valid r \<and> mv_TxID r = k))"
    using mined_verifies [OF assms(1)] by (cases "snd (anchored f)") (auto simp: Let_def)
qed

section \<open>Properties\<close>



definition sample_mined :: Block where
  "sample_mined = \<lparr> bl_BlockHeader = (bl_BlockHeader sample_block)\<lparr>
     bh_HashMerkleRoot := fst (hexDecode (TxID sample_parent)) \<rparr>, bl_Txs = [sample_parent] \<rparr>"

definition sample_chain :: block_header_chain where
  "sample_chain hash = Ok (Some (bl_BlockHeader sample_mined))"

definition sample_stores :: creator where
  "sample_stores = \<lparr>
     cr_txc = (\<lambda>k. if k = TxID sample_parent then Ok (Some sample_parent) else Err (Msg ''no such tx'')),
     cr_mpc = (\<lambda>k. Ok (Some (block_proof (TxID sample_parent) sample_mined 0))) \<rparr>"

lemma sample_stores_found:
  "find_parent sample_stores k = Ok f \<longleftrightarrow> k = TxID sample_parent \<and>
     f = Mined sample_parent (block_proof (TxID sample_parent) sample_mined 0)"
  by (auto simp: find_parent_def sample_stores_def split: if_splits)

lemma sample_wf_chain: "wf_chain sample_chain"
proof -
  have "length (fst (hexDecode (TxID sample_parent))) = 32"
    using hash_str_TxID [of sample_parent] length_hexDecode_valid [of "TxID sample_parent"]
    by (auto simp: hash_str_def canonical_hex_valid)
  then show ?thesis
    by (simp add: wf_chain_def sample_chain_def sample_mined_def sample_block_def wf_BlockHeader_def)
qed

lemma sample_is_mined: "mined sample_chain sample_parent (block_proof (TxID sample_parent) sample_mined 0)"
proof -
  have "wf_Block sample_mined"
    using sample_wf_chain sample_parent(1)
    by (simp add: wf_chain_def sample_chain_def wf_Block_def) (simp add: sample_mined_def)
  moreover have "HashMerkleRootStr (bl_BlockHeader sample_mined) = TxID sample_parent"
    using hash_str_TxID [of sample_parent]
    by (simp add: HashMerkleRootStr_def sample_mined_def hash_str_def canonical_hex_def)
  moreover have "BuildMerkleRoot [TxID sample_parent] = Ok (TxID sample_parent)"
    using BuildMerkleRoot_node_str [OF list_all_node_str, of "[TxID sample_parent]"] by simp
  moreover have "bl_Txs sample_mined = [sample_parent]" by (simp add: sample_mined_def)
  ultimately show ?thesis
    unfolding mined_def sample_chain_def
    by (intro exI [of _ "TxID sample_parent"] exI [of _ sample_mined] exI [of _ 0]) simp
qed

lemma sample_block_stores: "block_stores sample_chain sample_stores"
  using sample_parent sample_is_mined
  by (auto simp: block_stores_def sample_stores_found spends_first_def)


end
