(* ===== verification/Chain_Verdicts.thy ===== *)
theory Chain_Verdicts
  imports Mined_Payment
begin

text \<open>
  How the verifiers of \<open>spv\<close> and the block header chain interact: which errors of the chain reach
  the caller, and what a verdict keeps when the chain grows.
\<close>

section \<open>Errors of the chain in the proof verifiers\<close>

text \<open>Both verifiers of a single proof return the error of the chain as it is; a header pointer
  that is nil makes them panic.\<close>

lemma VerifyMerkleProofJSON_chain_error:
  assumes "txidFromTxOrID (pf_TxOrID mp) = Ok txid" "pf_TargetType mp \<in> {'''', ''hash''}"
    "length (pf_Target mp) = 64"
  shows "bhc (pf_Target mp) = Err e \<Longrightarrow> VerifyMerkleProofJSON bhc mp = Err e"
    "bhc (pf_Target mp) = Ok None \<Longrightarrow> VerifyMerkleProofJSON bhc mp = Panic NilDereference"
  using assms by (auto simp: VerifyMerkleProofJSON_def header_root_def)

text \<open>The chain is asked for the target of the proof only, and only when the flags name a hash.\<close>

lemma VerifyMerkleProof_chain_cong:
  assumes "parseBinaryMerkleProof p = Ok m" "mpb_flags m AND 6 = 0 \<Longrightarrow> b1 (mpb_target m) = b2 (mpb_target m)"
  shows "VerifyMerkleProof b1 p = VerifyMerkleProof b2 p"
  using assms by (cases "mpb_flags m AND 6 = 0") (simp_all add: VerifyMerkleProof_def)

lemma VerifyMerkleProof_chain_error:
  assumes "parseBinaryMerkleProof p = Ok m" "mpb_flags m AND 6 = 0" "bhc (mpb_target m) = Err e"
    "validateTxOrID (mpb_flags m) (mpb_txOrID m) = Ok ()" "txidFromTxOrID (mpb_txOrID m) = Ok txid"
  shows "VerifyMerkleProof bhc p = Ok (Some (invalid_response txid), Some e)"
  using assms by (simp add: VerifyMerkleProof_def)

lemma VerifyMerkleProof_same_headers:
  assumes "same_headers b1 b2"
  shows "VerifyMerkleProof b1 p = VerifyMerkleProof b2 p \<or>
    (\<exists>txid e1 e2. VerifyMerkleProof b1 p = Ok (Some (invalid_response txid), Some e1) \<and>
       VerifyMerkleProof b2 p = Ok (Some (invalid_response txid), Some e2))"
proof (cases "parseBinaryMerkleProof p")
  case (Ok m)
  show ?thesis
  proof (cases "mpb_flags m AND 6 = 0 \<and> b1 (mpb_target m) \<noteq> b2 (mpb_target m)")
    case True
    then obtain e1 e2 where e: "b1 (mpb_target m) = Err e1" "b2 (mpb_target m) = Err e2"
      using assms by (auto simp: same_headers_def)
    show ?thesis
    proof (cases "is_Ok (validateTxOrID (mpb_flags m) (mpb_txOrID m)) \<and> is_Ok (txidFromTxOrID (mpb_txOrID m))")
      case valid: True
      then show ?thesis
        using VerifyMerkleProof_chain_error [of p m b1 e1] VerifyMerkleProof_chain_error [of p m b2 e2] True Ok e
        by (auto simp: is_Ok_iff)
    next
      case False
      then show ?thesis
        by (cases "validateTxOrID (mpb_flags m) (mpb_txOrID m)"; cases "txidFromTxOrID (mpb_txOrID m)")
          (simp_all add: VerifyMerkleProof_def Ok)
    qed
  qed (use VerifyMerkleProof_chain_cong [OF Ok] in blast)
qed (simp_all add: VerifyMerkleProof_def)

lemma VerifyMerkleProof_extends:
  assumes "extends_chain b1 b2" "VerifyMerkleProof b1 p = Ok (r, None)"
  shows "VerifyMerkleProof b2 p = Ok (r, None)"
proof -
  from assms(2) obtain m where m: "parseBinaryMerkleProof p = Ok m"
    by (auto simp: VerifyMerkleProof_def on_err_eq_None)
  have "b1 (mpb_target m) = b2 (mpb_target m)" if "mpb_flags m AND 6 = 0"
    using assms that
    by (auto simp: VerifyMerkleProof_def m Let_def on_err_eq_None bind_res_eq_Ok extends_chain_def)
  with VerifyMerkleProof_chain_cong [of p m b1 b2] m assms(2) show ?thesis by simp
qed

section \<open>Errors of the chain in the payment verifier\<close>

lemma check_proof_same_headers:
  assumes "same_headers b1 b2"
  shows "check_proof \<lparr> vf_bhc = Some b1, vf_opts = o1 \<rparr> a p =
    check_proof \<lparr> vf_bhc = Some b2, vf_opts = o1 \<rparr> a p"
  using VerifyMerkleProof_same_headers [OF assms, of p]
  by (auto simp: check_proof_def call_bhc_def)

lemma check_ancestors_same_headers:
  assumes "same_headers b1 b2"
  shows "check_ancestors \<lparr> vf_bhc = Some b1, vf_opts = o1 \<rparr> opts ordi aa r =
    check_ancestors \<lparr> vf_bhc = Some b2, vf_opts = o1 \<rparr> opts ordi aa r"
  by (induction r) (auto simp: check_ancestor_def check_proof_same_headers [OF assms] cong: option.case_cong)

section \<open>Longer chains\<close>

lemma check_proof_extends:
  assumes "extends_chain b1 b2" "check_proof \<lparr> vf_bhc = Some b1, vf_opts = o1 \<rparr> a p = Ok ()"
  shows "check_proof \<lparr> vf_bhc = Some b2, vf_opts = o1 \<rparr> a p = Ok ()"
proof -
  from check_proof_OkD [OF assms(2)] obtain r where
    "VerifyMerkleProof b1 p = Ok (Some r, None)" "mv_Valid r" "mv_TxID r = TxID (an_Tx a)"
    by (auto simp: call_bhc_def)
  with VerifyMerkleProof_extends [OF assms(1) this(1)] show ?thesis
    by (simp add: check_proof_def call_bhc_def)
qed

lemma check_ancestors_extends:
  assumes "extends_chain b1 b2" "check_ancestors \<lparr> vf_bhc = Some b1, vf_opts = o1 \<rparr> opts ordi aa r = Ok ()"
  shows "check_ancestors \<lparr> vf_bhc = Some b2, vf_opts = o1 \<rparr> opts ordi aa r = Ok ()"
  using assms(2)
  by (induction r)
    (auto simp: check_ancestor_def bind_res_eq_Ok check_proof_extends [OF assms(1)] split: if_splits option.splits)

text \<open>A chain that learns more headers accepts every payment it accepted before.\<close>

theorem VerifyPayment_extends_chain:
  assumes "extends_chain b1 b2"
    "VerifyPayment unmarshal ord ordi \<lparr> vf_bhc = Some b1, vf_opts = opts0 \<rparr> p opts = Ok (tx, None)"
  shows "VerifyPayment unmarshal ord ordi \<lparr> vf_bhc = Some b2, vf_opts = opts0 \<rparr> p opts = Ok (tx, None)"
  using assms(2)
  by (auto simp: VerifyPayment_def Let_def on_err_eq_None bind_res_eq_Ok check_ancestors_extends [OF assms(1)]
      split: option.splits)

text \<open>The payment verifier on a chain that learns the block of the sample.\<close>

definition failing_verifier :: "go_error \<Rightarrow> verifier" where
  "failing_verifier e = \<lparr> vf_bhc = Some (\<lambda>_. Err e),
     vf_opts = \<lparr> o_proofs = True, o_script = True, o_fees = False, o_feeQuote = None \<rparr> \<rparr>"

theorem VerifyPayment_extends_chain_witness:
  "VerifyPayment (\<lambda>_. Err EOF) rev rev (sample_verifier\<lparr> vf_bhc := Some sample_chain \<rparr>) sample_Payment [] =
   Ok (sample_payment, None)"
  using VerifyPayment_extends_chain [of "\<lambda>_. Err (Msg ''no such block'')" sample_chain "\<lambda>_. Err EOF" rev rev
      "vf_opts sample_verifier" sample_Payment "[]" sample_payment] sample_accepted
  by (simp add: sample_verifier_def extends_chain_def)

section \<open>Ancestors in blocks\<close>

text \<open>An ancestor of an accepted payment that comes with a proof for a block hash is the transaction
  of the block at the index of the proof, up to a collision, provided the proof has as many nodes
  as the tree has levels.\<close>

theorem accepted_ancestor_in_block:
  assumes "VerifyPayment u ord ordi v p opts = Ok (tx', None)"
    "\<And>aa. set (ord aa) = set aa" "\<And>m. set (ordi m) = set m" "o_proofs (applied_options v opts)"
    "parseAncestry u (pay_Ancestry p) = Ok aa0" "map_of (with_payment aa0 tx') k = Some a"
    "traced (with_payment aa0 tx') (TxIDBytes tx') k" "an_Proof a = Some proof"
    "parseBinaryMerkleProof proof = Ok m" "mpb_flags m AND 6 = 0"
    "call_bhc (vf_bhc v) (mpb_target m) = Ok (Some hdr)"
    "list_all hash_str txids" "BuildMerkleRoot txids = Ok (HashMerkleRootStr hdr)"
    "unat (mpb_index m) < length txids"
    "length (mpb_nodes m) = length (merkle_path str_parent txids (unat (mpb_index m)))"
  shows "case path_collision str_parent (\<lambda>l r. BytesFromStringReverse l @ BytesFromStringReverse r)
      (TxID (an_Tx a)) (resolve_nodes (TxID (an_Tx a)) (unat (mpb_index m)) (mpb_nodes m))
      (txids ! unat (mpb_index m)) (merkle_path str_parent txids (unat (mpb_index m)))
      (unat (mpb_index m)) of
      None \<Rightarrow> TxID (an_Tx a) = txids ! unat (mpb_index m)
    | Some (x, y) \<Rightarrow> x \<noteq> y \<and> Sha256d x = Sha256d y"
proof -
  from assms(1,5) VerifyPayment_iff [of ord ordi, OF assms(2,3)]
  have "accepted v (applied_options v opts) aa0 (pay_PaymentTx p) tx'" by auto
  from accepted_traced [OF this assms(4,7)] assms(6,8)
  have "check_proof v a proof = Ok ()" by (auto simp: proof_ok_def)
  from check_proof_OkD [OF this] obtain r where
    r: "VerifyMerkleProof (call_bhc (vf_bhc v)) proof = Ok (Some r, None)" "mv_Valid r"
      "mv_TxID r = TxID (an_Tx a)" by blast
  from VerifyMerkleProof_sound [OF r(1,2) assms(9-15)] show ?thesis unfolding r(3) .
qed

section \<open>A verifier without a chain\<close>

text \<open>\<open>NewPaymentVerifier\<close> takes no chain when its options do not verify proofs, but the options of a
  call may turn proofs on again: the first proof for a block hash is then a call on a nil interface.\<close>

theorem nil_chain_panics:
  assumes "parseBinaryMerkleProof p = Ok m" "mpb_flags m AND 6 = 0"
    "validateTxOrID (mpb_flags m) (mpb_txOrID m) = Ok ()" "txidFromTxOrID (mpb_txOrID m) = Ok txid"
  shows "\<exists>v. NewPaymentVerifier None [NoVerifyProofs] = Ok v \<and> o_proofs (applied_options v [VerifyProofs]) \<and>
    check_proof v a p = Panic NilDereference"
  using assms
  by (simp add: NewPaymentVerifier_def NoVerifyProofs_def VerifyProofs_def applied_options_def clone_options_def
      check_proof_def VerifyMerkleProof_def call_bhc_def Let_def)

section \<open>Properties\<close>

text \<open>C18: the payment verifier hides why the header chain failed. On two chains that know the same
  headers and differ in the errors they return for the others, \<open>VerifyPayment\<close> gives the same
  result, errors and panics included, for every payment and all options: a caller cannot tell a
  block that was not found from one that has left the longest chain, although the verifiers of a
  single proof return these errors as they are.\<close>

theorem VerifyPayment_hides_chain_errors:
  assumes "same_headers b1 b2"
  shows "VerifyPayment unmarshal ord ordi \<lparr> vf_bhc = Some b1, vf_opts = opts0 \<rparr> p opts =
    VerifyPayment unmarshal ord ordi \<lparr> vf_bhc = Some b2, vf_opts = opts0 \<rparr> p opts"
  by (simp add: VerifyPayment_def check_ancestors_same_headers [OF assms])

lemma sample_chain_error:
  "VerifyMerkleProofJSON (\<lambda>_. Err e) (block_proof (TxID sample_parent) sample_mined 0) = Err e"
proof (rule VerifyMerkleProofJSON_chain_error(1))
  show "txidFromTxOrID (pf_TxOrID (block_proof (TxID sample_parent) sample_mined 0)) = Ok (TxID sample_parent)"
    by (simp add: block_proof_def sample_mined_def txidFromTxOrID_def)
qed (simp_all add: block_proof_def)

theorem VerifyPayment_hides_chain_errors_witness:
  "VerifyPayment (\<lambda>_. Err EOF) rev rev (failing_verifier ErrHeaderNotFound) sample_Payment [] =
     VerifyPayment (\<lambda>_. Err EOF) rev rev (failing_verifier ErrNotOnLongestChain) sample_Payment [] \<and>
   VerifyMerkleProofJSON (\<lambda>_. Err ErrHeaderNotFound) (block_proof (TxID sample_parent) sample_mined 0) \<noteq>
     VerifyMerkleProofJSON (\<lambda>_. Err ErrNotOnLongestChain) (block_proof (TxID sample_parent) sample_mined 0)"
  using VerifyPayment_hides_chain_errors [of "\<lambda>_. Err ErrHeaderNotFound" "\<lambda>_. Err ErrNotOnLongestChain"]
    chain_errors_distinct
  by (simp add: failing_verifier_def sample_chain_error same_headers_def)

end
