(* ===== verification/Envelope.thy ===== *)
theory Envelope
  imports Ancestry
begin

text \<open>
  \<open>spv/envelope.go\<close>: SPV envelopes and their two binary forms, \<open>CrunchyNut\<close> (chunks with a
  type, read recursively) and \<open>SpecialK\<close> (triples of a transaction, a proof and mAPI
  responses, read by goroutines and put together afterwards). The map of parents is an
  association list in the order \<open>range\<close> yields it; the orders of the other maps and of the
  goroutines are arguments. Errors that the code only prints leave no trace in the model.
\<close>

datatype Envelope = Envelope
  (ev_TxID: string) (ev_RawTx: string) (ev_Proof: "MerkleProof option")
  (ev_MapiResponses: "MapiCallback list") (ev_Parents: "(string \<times> Envelope) list")

definition Envelope_IsAnchored :: "Envelope \<Rightarrow> bool" where
  "Envelope_IsAnchored e \<longleftrightarrow> ev_Proof e \<noteq> None"

definition Envelope_HasParents :: "Envelope \<Rightarrow> bool" where
  "Envelope_HasParents e \<longleftrightarrow> length (ev_Parents e) > 0"

definition ParentTX :: "Envelope \<Rightarrow> string \<Rightarrow> Tx res" where
  "ParentTX e txID =
     (case map_of (ev_Parents e) txID of
        None \<Rightarrow> Err (WrapErr (SpvErr ErrNotAllInputsSupplied)
                       (''expected parent tx '' @ txID @ '' is missing''))
      | Some env \<Rightarrow> NewTxFromString (ev_RawTx env))"

section \<open>Writing CrunchyNut\<close>

text \<open>
  The writers append to a slice behind a pointer: what was written before an error stays. They
  give these bytes and the error. A bad hex transaction is printed and its prefix written.
\<close>

fun crunchy_mapi :: "marshal_mapi \<Rightarrow> MapiCallback list \<Rightarrow> (bytes \<times> go_error option) res" where
  "crunchy_mapi marshal [] = Ok ([], None)"
| "crunchy_mapi marshal (m # ms) =
     on_err (marshal m) (\<lambda>e. Ok ([], Some e)) (\<lambda>mapiR.
     bind_res (crunchy_mapi marshal ms) (\<lambda>(r, err). Ok (chunk_Bytes flagMapi mapiR @ r, err)))"

definition append_to :: "bytes \<Rightarrow> (bytes \<times> go_error option) res \<Rightarrow> (bytes \<times> go_error option) res" where
  "append_to b m = bind_res m (\<lambda>(r, err). Ok (b @ r, err))"

text \<open>\<open>return serialiseCrunchyNutInputs(input.Parents, flake)\<close> leaves the loop.\<close>

fun serialiseCrunchyNutInputs ::
  "marshal_mapi \<Rightarrow> (string \<times> Envelope) list \<Rightarrow> (bytes \<times> go_error option) res" where
  "serialiseCrunchyNutInputs marshal [] = Ok ([], None)"
| "serialiseCrunchyNutInputs marshal ((k, Envelope txid rawTx proof mapis pars) # rest) =
     (let tx = chunk_Bytes flagTx (fst (hexDecode rawTx)) in
      bind_res (crunchy_mapi marshal mapis) (\<lambda>(mapi, merr).
        case merr of
          Some e \<Rightarrow> Ok (tx @ mapi, Some e)
        | None \<Rightarrow>
            (case proof of
               Some p \<Rightarrow>
                 on_err (MerkleProof_Bytes p)
                   (\<lambda>e. Ok (tx @ mapi, Some (WrapErr e ''Failed to serialise this input's proof struct'')))
                   (\<lambda>b. append_to (tx @ mapi @ chunk_Bytes flagProof b)
                          (serialiseCrunchyNutInputs marshal rest))
             | None \<Rightarrow>
                 if length pars > 0 then append_to (tx @ mapi) (serialiseCrunchyNutInputs marshal pars)
                 else append_to (tx @ mapi) (serialiseCrunchyNutInputs marshal rest))))"

text \<open>An error is printed; the bytes are returned with a nil error.\<close>

definition CrunchyNutBytes :: "marshal_mapi \<Rightarrow> Envelope \<Rightarrow> bytes res" where
  "CrunchyNutBytes marshal e =
     bind_res (serialiseCrunchyNutInputs marshal [(ev_TxID e, e)]) (\<lambda>(b, _). Ok (1 # b))"

section \<open>Reading CrunchyNut\<close>

definition flagType :: "byte \<Rightarrow> string" where
  "flagType flags =
     (if flags AND 6 = 0 \<or> flags AND 6 = 4 then ''blockhash''
      else if flags AND 6 = 2 then ''header'' else '''')"

definition binary_proof :: "merkleProofBinary \<Rightarrow> MerkleProof" where
  "binary_proof p = \<lparr> pf_Index = mpb_index p, pf_TxOrID = mpb_txOrID p, pf_Target = mpb_target p,
     pf_Nodes = mpb_nodes p, pf_TargetType = flagType (mpb_flags p), pf_ProofType = '''',
     pf_Composite = False \<rparr>"

definition empty_envelope :: Envelope where
  "empty_envelope = Envelope '''' '''' None [] []"

definition input_envelopes :: "Tx \<Rightarrow> (string \<times> Envelope) list" where
  "input_envelopes tx =
     fold (\<lambda>i m. AList.update (PreviousTxIDStr i) empty_envelope m) (tx_Inputs tx) []"

text \<open>
  A pointer used in spite of an error that was printed is nil: the next field access panics.
\<close>

definition must :: "'a res \<Rightarrow> 'a res" where
  "must m = (case m of Ok x \<Rightarrow> Ok x | Err e \<Rightarrow> Panic NilDereference | Panic p \<Rightarrow> Panic p)"

primrec then_do :: "'a res option \<Rightarrow> ('a \<Rightarrow> 'b res option) \<Rightarrow> 'b res option" where
  "then_do None f = None"
| "then_do (Some m) f = (case m of Ok x \<Rightarrow> f x | Err e \<Rightarrow> Some (Err e) | Panic p \<Rightarrow> Some (Panic p))"

declare then_do.simps [simp del]

lemma then_do_simps [simp]:
  "then_do None f = None" "then_do (Some (Ok x)) f = f x" "then_do (Some (Err e)) f = Some (Err e)"
  "then_do (Some (Panic p)) f = Some (Panic p)"
  by (simp_all add: then_do.simps)

text \<open>The loop over the inputs of a transaction; \<open>parse\<close> is the recursive call.\<close>

fun parse_inputs ::
  "(Envelope \<Rightarrow> bytes \<Rightarrow> (Envelope \<times> bytes) res option) \<Rightarrow> string list \<Rightarrow>
     (string \<times> Envelope) list \<Rightarrow> bytes \<Rightarrow> ((string \<times> Envelope) list \<times> bytes) res option" where
  "parse_inputs parse [] inputs r = Some (Ok (inputs, r))"
| "parse_inputs parse (k # ks) inputs r =
     (if length r > 0 then
        (case map_of inputs k of
           None \<Rightarrow> parse_inputs parse ks inputs r
         | Some input \<Rightarrow>
             then_do (parse input r) (\<lambda>(input', r').
               parse_inputs parse ks (AList.update k input' inputs) r'))
      else parse_inputs parse ks inputs r)"

text \<open>A transaction: with something else than a transaction next, that goes into \<open>eCurrent\<close>, and the
  inputs are not linked to it.\<close>

definition put_tx ::
  "(Envelope \<Rightarrow> bytes \<Rightarrow> (Envelope \<times> bytes) res option) \<Rightarrow> (string list \<Rightarrow> string list) \<Rightarrow>
     Envelope \<Rightarrow> bytes \<Rightarrow> bytes \<Rightarrow> (Envelope \<times> bytes) res option" where
  "put_tx parse ordk eCurrent data r =
     then_do (Some (must (NewTxFromBytes data))) (\<lambda>tx.
       let inputs = input_envelopes tx;
           e = (\<lambda>pars. Envelope (TxID tx) (Tx_String tx) (ev_Proof eCurrent) (ev_MapiResponses eCurrent) pars)
       in if length r > 0 \<and> hd r \<noteq> flagTx then
            then_do (parse (e (ev_Parents eCurrent)) r) (\<lambda>(e', r').
            then_do (parse_inputs parse (ordk (map fst inputs)) inputs r') (\<lambda>(_, r'').
              Some (Ok (e', r''))))
          else
            then_do (parse_inputs parse (ordk (map fst inputs)) inputs r) (\<lambda>(inputs', r').
              Some (Ok (e inputs', r'))))"

text \<open>The data of a chunk is a part of the whole binary: the bytes \<open>r\<close> behind it are its spare
  capacity.\<close>

definition put_chunk :: "unmarshal_mapi \<Rightarrow> Envelope \<Rightarrow> binaryChunk \<Rightarrow> bytes \<Rightarrow> Envelope res" where
  "put_chunk unmarshal eCurrent chunk r =
     (if ContentType chunk = flagProof then
        bind_res (must (parseBinaryMerkleProof (Data chunk, r))) (\<lambda>binaryProof.
          Ok (Envelope (ev_TxID eCurrent) (ev_RawTx eCurrent) (Some (binary_proof binaryProof))
                (ev_MapiResponses eCurrent) (ev_Parents eCurrent)))
      else if ContentType chunk = flagMapi then
        bind_res (must (unmarshal (Data chunk))) (\<lambda>mapiResponse.
          Ok (Envelope (ev_TxID eCurrent) (ev_RawTx eCurrent) (ev_Proof eCurrent)
                (ev_MapiResponses eCurrent @ [mapiResponse]) (ev_Parents eCurrent)))
      else Ok eCurrent)"

text \<open>
  The chunk at the head of the unread bytes \<open>b\<close> (a type, a length and the data, as in
  \<open>parseChunk\<close>) goes into \<open>eCurrent\<close>, and so does whatever follows. \<open>ordk\<close> is the order of
  \<open>range\<close> over the inputs. A recursion on fuel: the depth is bounded by the number of chunks.
\<close>

primrec parseCrunchyNutFlakesRecursively ::
  "nat \<Rightarrow> unmarshal_mapi \<Rightarrow> (string list \<Rightarrow> string list) \<Rightarrow> Envelope \<Rightarrow> bytes \<Rightarrow>
     (Envelope \<times> bytes) res option" where
  "parseCrunchyNutFlakesRecursively 0 unmarshal ordk eCurrent b = None"
| "parseCrunchyNutFlakesRecursively (Suc fuel) unmarshal ordk eCurrent b =
     then_do (Some (parseChunk b)) (\<lambda>(chunk, r).
     then_do
       (if ContentType chunk = flagTx then
          put_tx (parseCrunchyNutFlakesRecursively fuel unmarshal ordk) ordk eCurrent (Data chunk) r
        else Some (bind_res (put_chunk unmarshal eCurrent chunk r) (\<lambda>e. Ok (e, r)))) (\<lambda>(e, r').
       if length r' > 0 then parseCrunchyNutFlakesRecursively fuel unmarshal ordk e r'
       else Some (Ok (e, r'))))"

definition NewCrunchyNutEnvelopeFromBytes ::
  "unmarshal_mapi \<Rightarrow> (string list \<Rightarrow> string list) \<Rightarrow> bytes \<Rightarrow> Envelope res option" where
  "NewCrunchyNutEnvelopeFromBytes unmarshal ordk b =
     then_do (Some (next_byte b)) (\<lambda>(version, r).
       if version \<noteq> 1 then
         Some (Err (Msg ''We can only handle version 1 of the SPV Envelope Binary format''))
       else then_do (parseCrunchyNutFlakesRecursively (Suc (length r)) unmarshal ordk empty_envelope r)
              (\<lambda>(e, _). Some (Ok e)))"


section \<open>Writing SpecialK\<close>

definition prefixed :: "bytes \<Rightarrow> bytes" where
  "prefixed b = VarInt_Bytes (of_nat (length b)) @ b"

definition special_mapi :: "marshal_mapi \<Rightarrow> MapiCallback list \<Rightarrow> bytes res" where
  "special_mapi marshal mapis =
     (if length mapis = 0 then Ok [0]
      else bind_res (map_res marshal mapis) (\<lambda>items.
        Ok (prefixed (VarInt_Bytes (of_nat (length mapis)) @ concat (map prefixed items)))))"

fun serialiseSpecialKInputs ::
  "marshal_mapi \<Rightarrow> (string \<times> Envelope) list \<Rightarrow> (bytes \<times> go_error option) res" where
  "serialiseSpecialKInputs marshal [] = Ok ([], None)"
| "serialiseSpecialKInputs marshal ((k, Envelope txid rawTx proof mapis pars) # rest) =
     (let tx = prefixed (fst (hexDecode rawTx)) in
      on_err (case proof of None \<Rightarrow> Ok [0] | Some p \<Rightarrow> bind_res (MerkleProof_Bytes p) (\<lambda>b. Ok (prefixed b)))
        (\<lambda>e. Ok (tx, Some (WrapErr e ''Failed to serialise this input's proof struct''))) (\<lambda>pf.
      on_err (special_mapi marshal mapis) (\<lambda>e. Ok (tx @ pf, Some e)) (\<lambda>mapi.
        append_to (tx @ pf @ mapi)
          (if proof = None \<and> length pars > 0 then serialiseSpecialKInputs marshal pars
           else serialiseSpecialKInputs marshal rest))))"

definition SpecialKBytes :: "marshal_mapi \<Rightarrow> Envelope \<Rightarrow> bytes res" where
  "SpecialKBytes marshal e =
     bind_res (serialiseSpecialKInputs marshal [(ev_TxID e, e)]) (\<lambda>(b, _). Ok (1 # b))"

section \<open>Reading SpecialK\<close>

text \<open>\<open>for ok := true; ok; ok = all > offset\<close>: at least one item is read. Each is a part of the
  whole, with what follows as its spare capacity; an item that is itself cut up, the mAPI
  responses, may be read past its end.\<close>

function split_flakes :: "cursor \<Rightarrow> slice list res" where
  "split_flakes c =
     bind_res (slice_varint c) (\<lambda>(l, c1).
     bind_res (slice_take (unat l) c1) (\<lambda>(flake, c2).
       if fst c2 \<le> 0 then Ok [(flake, snd c2)]
       else bind_res (split_flakes c2) (\<lambda>flakes. Ok ((flake, snd c2) # flakes))))"
  by pat_completeness auto
termination
  by (relation "measure (\<lambda>c. length (snd c))") (auto dest!: slice_varint_less slice_take_rest)

declare split_flakes.simps [simp del]

definition parseSpecialKFlakeTx :: "bytes \<Rightarrow> Tx res" where
  "parseSpecialKFlakeTx b =
     (if length b = 0 then Err (Msg ''tx bytes have no length'') else NewTxFromBytes b)"

definition parseSpecialKProof :: "slice \<Rightarrow> MerkleProof res" where
  "parseSpecialKProof b =
     (if length (fst b) = 0 then Err (Msg ''proof bytes have no length'')
      else if fst b ! 0 = 0 \<and> length (fst b) = 1 then Err (Msg ''proof number is 0'')
      else on_err (parseBinaryMerkleProof b) (\<lambda>_. Err (Msg ''couldn't parse the proof bytes''))
             (\<lambda>p. Ok (binary_proof p)))"

definition parseSpecialKMapi :: "unmarshal_mapi \<Rightarrow> slice \<Rightarrow> MapiCallback list res" where
  "parseSpecialKMapi unmarshal b =
     (if length (fst b) = 0 then Err (Msg ''There are no callback bytes'')
      else if fst b ! 0 = 0 \<and> length (fst b) = 1 then Err (Msg ''There are no callbacks'')
      else bind_res (split_flakes (cursor_of (drop 1 (fst b), snd b))) (\<lambda>responses.
        on_err (map_res unmarshal (map fst responses)) (\<lambda>_. Err (Msg ''couldn't parse the callback bytes'')) Ok))"

text \<open>The three maps the listener fills.\<close>

record special_state =
  sk_txs :: "(string \<times> Tx) list"
  sk_proofs :: "(string \<times> MerkleProof) list"
  sk_mapis :: "(string \<times> MapiCallback list) list"

definition listen_proof :: "MerkleProof \<Rightarrow> special_state \<Rightarrow> special_state res" where
  "listen_proof p s =
     (if pf_TxOrID p = '''' then Ok s
      else bind_res (if length (pf_TxOrID p) > 64
                     then bind_res (must (NewTxFromString (pf_TxOrID p))) (\<lambda>tr. Ok (TxID tr))
                     else Ok (pf_TxOrID p)) (\<lambda>txid.
             Ok (s\<lparr> sk_proofs := AList.update txid p (sk_proofs s) \<rparr>)))"

definition listen_mapi :: "MapiCallback list \<Rightarrow> special_state \<Rightarrow> special_state" where
  "listen_mapi mcbs s =
     (if length mcbs > 0 then s\<lparr> sk_mapis := AList.update (mc_CallbackTxID (hd mcbs)) mcbs (sk_mapis s) \<rparr>
      else s)"

text \<open>
  One goroutine and what the listener does with its message. A nil proof or transaction
  panics; nil callbacks are ignored.
\<close>

definition run_flake :: "unmarshal_mapi \<Rightarrow> nat \<times> slice \<Rightarrow> special_state \<Rightarrow> special_state res" where
  "run_flake unmarshal idx_flake s =
     (case idx_flake of (idx, flake) \<Rightarrow>
        if idx mod 3 = 2 then
          on_err (parseSpecialKMapi unmarshal flake) (\<lambda>_. Ok s) (\<lambda>mcb. Ok (listen_mapi mcb s))
        else if idx mod 3 = 1 then
          bind_res (must (parseSpecialKProof flake)) (\<lambda>p. listen_proof p s)
        else
          bind_res (must (parseSpecialKFlakeTx (fst flake))) (\<lambda>tx.
            Ok (s\<lparr> sk_txs := AList.update (TxID tx) tx (sk_txs s) \<rparr>)))"

text \<open>What the goroutine of the first flake makes of the envelope.\<close>

definition root_envelope :: "slice list \<Rightarrow> Envelope" where
  "root_envelope flakes =
     (case flakes of
        [] \<Rightarrow> empty_envelope
      | flake # _ \<Rightarrow>
          if length (fst flake) < 2 then empty_envelope
          else (case parseSpecialKFlakeTx (fst flake) of
                  Ok tx \<Rightarrow> Envelope (TxID tx) (Tx_String tx) None [] (input_envelopes tx)
                | _ \<Rightarrow> empty_envelope))"

text \<open>\<open>pick\<close> is the parent \<open>range\<close> yields first; the loop over the parents returns from its
  first round.\<close>

function searchParents ::
  "((string \<times> Envelope) list \<Rightarrow> nat) \<Rightarrow> Envelope \<Rightarrow> string \<Rightarrow> Tx \<Rightarrow> MerkleProof option \<Rightarrow>
     MapiCallback list \<Rightarrow> Envelope \<times> bool" where
  "searchParents pick (Envelope eid rawTx proof mapis pars) txid tx p m =
     (if txid = eid then
        (Envelope eid (Tx_String tx) (if p \<noteq> None then p else proof) (if m \<noteq> [] then m else mapis) pars, True)
      else if txid \<in> fst ` set pars then
        (case p of
           Some _ \<Rightarrow> (Envelope eid rawTx proof mapis pars, True)
         | None \<Rightarrow>
             (Envelope eid rawTx proof mapis (AList.update txid
                (Envelope txid (Tx_String tx) None m (input_envelopes tx)) pars), True))
      else if pars \<noteq> [] then
        (let i = pick pars mod length pars in
         case searchParents pick (snd (pars ! i)) txid tx p m of
           (e, found) \<Rightarrow> (Envelope eid rawTx proof mapis (pars[i := (fst (pars ! i), e)]), found))
      else (Envelope eid rawTx proof mapis pars, False))"
  by pat_completeness auto
termination
proof (relation "measure (\<lambda>(pick, e, txid, tx, p, m). size e)", simp)
  fix pick :: "(string \<times> Envelope) list \<Rightarrow> nat" and pars :: "(string \<times> Envelope) list" and i
    and eid rawTx proof' mapis txid tx p m
  assume pars: "pars \<noteq> []" and i: "i = pick pars mod length pars"
  then have "pars ! i \<in> set pars" by simp
  then have "size (snd (pars ! i)) \<le> size_list (size_prod (\<lambda>_. 0) size) pars"
    by (rule size_list_estimation') (cases "pars ! i"; simp)
  then show "((pick, snd (pars ! i), txid, tx, p, m), pick, Envelope eid rawTx proof' mapis pars, txid, tx, p, m)
      \<in> measure (\<lambda>(pick, e, txid, tx, p, m). size e)"
    by simp
qed

declare searchParents.simps [simp del]

text \<open>One round over the transactions not placed yet, in the order \<open>range\<close> yields them.\<close>

fun place_pass ::
  "((string \<times> Envelope) list \<Rightarrow> nat) \<Rightarrow> special_state \<Rightarrow> (string \<times> Tx) list \<Rightarrow>
     Envelope \<times> (string \<times> Tx) list \<Rightarrow> Envelope \<times> (string \<times> Tx) list" where
  "place_pass pick s [] (e, txs) = (e, txs)"
| "place_pass pick s ((txid, tx) # r) (e, txs) =
     (case searchParents pick e txid tx (map_of (sk_proofs s) txid)
            (case map_of (sk_mapis s) txid of None \<Rightarrow> [] | Some m \<Rightarrow> m) of
        (e', found) \<Rightarrow> place_pass pick s r (e', if found then AList.delete txid txs else txs))"

text \<open>\<open>for ok := true; ok; ok = len(txs) > 0\<close>, which need not end: \<open>None\<close> is no result yet.\<close>

primrec place_loop ::
  "nat \<Rightarrow> ((string \<times> Envelope) list \<Rightarrow> nat) \<Rightarrow> ((string \<times> Tx) list \<Rightarrow> (string \<times> Tx) list) \<Rightarrow>
     special_state \<Rightarrow> Envelope \<times> (string \<times> Tx) list \<Rightarrow> Envelope option" where
  "place_loop 0 pick ordt s et = None"
| "place_loop (Suc fuel) pick ordt s et =
     (case place_pass pick s (ordt (snd et)) et of (e, txs) \<Rightarrow>
        if length txs > 0 then place_loop fuel pick ordt s (e, txs) else Some e)"

definition NewSpecialKEnvelopeFromBytes ::
  "nat \<Rightarrow> unmarshal_mapi \<Rightarrow> ((nat \<times> slice) list \<Rightarrow> (nat \<times> slice) list) \<Rightarrow>
     ((string \<times> Envelope) list \<Rightarrow> nat) \<Rightarrow> ((string \<times> Tx) list \<Rightarrow> (string \<times> Tx) list) \<Rightarrow>
     bytes \<Rightarrow> Envelope res option" where
  "NewSpecialKEnvelopeFromBytes fuel unmarshal ordg pick ordt b =
     then_do (Some (next_byte b)) (\<lambda>(version, r).
       if version \<noteq> 1 then
         Some (Err (Msg ''We can only handle version 1 of the SPV Envelope Binary format''))
       else then_do (Some (split_flakes (cursor_of (r, [])))) (\<lambda>flakes.
         then_do (Some (fold (\<lambda>f s. bind_res s (run_flake unmarshal f))
             (ordg (filter (\<lambda>(idx, flake). 2 \<le> length (fst flake)) (enumerate 0 flakes)))
             (Ok \<lparr> sk_txs = [], sk_proofs = [], sk_mapis = [] \<rparr>))) (\<lambda>s.
           map_option Ok (place_loop fuel pick ordt s (root_envelope flakes, sk_txs s)))))"


section \<open>CrunchyNut reading ends\<close>

lemma then_do_Ok_iff:
  "then_do m f = Some (Ok y) \<longleftrightarrow> (\<exists>x. m = Some (Ok x) \<and> f x = Some (Ok y))"
  by (cases m) (auto simp: then_do.simps split: res.splits)

lemma then_do_None_iff: "then_do m f = None \<longleftrightarrow> m = None \<or> (\<exists>x. m = Some (Ok x) \<and> f x = None)"
  by (cases m) (auto simp: then_do.simps split: res.splits)

lemma then_do_total:
  "m \<noteq> None \<Longrightarrow> (\<And>x. m = Some (Ok x) \<Longrightarrow> f x \<noteq> None) \<Longrightarrow> then_do m f \<noteq> None"
  unfolding then_do_None_iff by blast

lemma then_do_pair_total:
  "m \<noteq> None \<Longrightarrow> (\<And>x y. m = Some (Ok (x, y)) \<Longrightarrow> f x y \<noteq> None) \<Longrightarrow>
     then_do m (\<lambda>(x, y). f x y) \<noteq> None"
  by (rule then_do_total) auto

text \<open>More results of the parts are more results of the whole.\<close>

definition extends :: "'a option \<Rightarrow> 'a option \<Rightarrow> bool" where
  "extends m m' \<longleftrightarrow> m = None \<or> m' = m"

lemma extends_refl: "extends m m"
  by (simp add: extends_def)

lemma extends_then_do:
  "extends m m' \<Longrightarrow> (\<And>x. extends (f x) (f' x)) \<Longrightarrow> extends (then_do m f) (then_do m' f')"
  unfolding extends_def by (cases m) (auto simp: then_do.simps split: res.splits)

lemma extends_if:
  "extends m m' \<Longrightarrow> extends n n' \<Longrightarrow> extends (if c then m else n) (if c then m' else n')"
  by simp

lemmas extends_intros = extends_then_do extends_if extends_refl

lemma extends_parse_inputs:
  "(\<And>e b. extends (parse e b) (parse' e b)) \<Longrightarrow>
     extends (parse_inputs parse ks inputs r) (parse_inputs parse' ks inputs r)"
proof (induction ks arbitrary: inputs r)
  case (Cons k ks)
  then show ?case
    by (auto simp: case_prod_beta intro!: extends_then_do split: option.splits)
qed (simp add: extends_refl)

lemma extends_put_tx:
  assumes "\<And>e b. extends (parse e b) (parse' e b)"
  shows "extends (put_tx parse ordk e data r) (put_tx parse' ordk e data r)"
  unfolding put_tx_def Let_def case_prod_beta
  by (intro extends_intros extends_parse_inputs assms)

lemma parseCrunchyNut_Suc:
  "extends (parseCrunchyNutFlakesRecursively n u ordk e b)
     (parseCrunchyNutFlakesRecursively (Suc n) u ordk e b)"
proof (induction n arbitrary: e b)
  case 0
  show ?case by (simp add: extends_def)
next
  case (Suc n)
  show ?case
    unfolding parseCrunchyNutFlakesRecursively.simps(2) [of n u ordk e b]
      parseCrunchyNutFlakesRecursively.simps(2) [of "Suc n" u ordk e b] case_prod_beta
    by (intro extends_intros extends_put_tx Suc.IH)
qed

lemma parseCrunchyNut_mono:
  "n \<le> m \<Longrightarrow> parseCrunchyNutFlakesRecursively n u ordk e b = Some r \<Longrightarrow>
     parseCrunchyNutFlakesRecursively m u ordk e b = Some r"
proof (induction m rule: dec_induct)
  case (step m)
  with parseCrunchyNut_Suc [of m u ordk e b] show ?case by (simp add: extends_def)
qed

text \<open>A call that returns has read everything.\<close>

lemma parseCrunchyNut_reads_all:
  "parseCrunchyNutFlakesRecursively n u ordk e b = Some (Ok (e', r)) \<Longrightarrow> r = []"
proof (induction n arbitrary: e b)
  case (Suc n)
  from Suc.prems show ?case
    unfolding parseCrunchyNutFlakesRecursively.simps then_do_Ok_iff case_prod_beta
    by (auto dest: Suc.IH split: if_splits)
qed simp

lemma parse_inputs_shrinks:
  assumes "\<And>e b e' r. parse e b = Some (Ok (e', r)) \<Longrightarrow> r = []"
    and "parse_inputs parse ks inputs r = Some (Ok (inputs', r'))"
  shows "length r' \<le> length r"
  using assms(2)
proof (induction ks arbitrary: inputs r)
  case (Cons k ks)
  from Cons.prems show ?case
    by (auto simp: then_do_Ok_iff dest!: Cons.IH assms(1) split: if_splits option.splits)
qed simp

lemma parse_inputs_total:
  assumes "\<And>e b. length b \<le> N \<Longrightarrow> parse e b \<noteq> None"
    and "\<And>e b e' r. parse e b = Some (Ok (e', r)) \<Longrightarrow> r = []" and "length r \<le> N"
  shows "parse_inputs parse ks inputs r \<noteq> None"
  using assms(3)
proof (induction ks arbitrary: inputs r)
  case (Cons k ks)
  have "then_do (parse x r) (\<lambda>(input', r'). parse_inputs parse ks (AList.update k input' inputs) r') \<noteq> None"
    for x
  proof (rule then_do_pair_total)
    show "parse x r \<noteq> None" by (rule assms(1) [OF Cons.prems])
    fix e' r'
    assume "parse x r = Some (Ok (e', r'))"
    then have "r' = []" by (rule assms(2))
    then show "parse_inputs parse ks (AList.update k e' inputs) r' \<noteq> None" by (intro Cons.IH) simp
  qed
  with Cons.IH [OF Cons.prems] show ?case
    by (cases "r = []") (simp_all add: option.case_eq_if del: not_None_eq)
qed simp

lemma put_tx_total:
  assumes "\<And>e b. length b \<le> N \<Longrightarrow> parse e b \<noteq> None"
    and "\<And>e b e' r. parse e b = Some (Ok (e', r)) \<Longrightarrow> r = []" and "length r \<le> N"
  shows "put_tx parse ordk e data r \<noteq> None"
proof -
  have "parse_inputs parse ks ins r' \<noteq> None" if "length r' \<le> N" for ks ins r'
    by (rule parse_inputs_total [OF assms(1,2) that])
  note inputs = this
  have "then_do (parse e' r) (\<lambda>(e', r'). then_do (parse_inputs parse ks ins r') (\<lambda>(_, r''). Some (Ok (e', r'')))) \<noteq> None"
    for e' ks ins
  proof (rule then_do_pair_total [OF assms(1) [OF assms(3)]], rule then_do_pair_total)
    fix e'' r'
    assume "parse e' r = Some (Ok (e'', r'))"
    then have "r' = []" by (rule assms(2))
    then show "parse_inputs parse ks ins r' \<noteq> None" by (intro inputs) simp
  qed simp
  moreover have "then_do (parse_inputs parse ks ins r) (\<lambda>(inputs', r'). Some (Ok (f inputs', r'))) \<noteq> None"
    for ks ins and f :: "(string \<times> Envelope) list \<Rightarrow> Envelope"
    by (rule then_do_pair_total [OF inputs [OF assms(3)]]) simp
  ultimately show ?thesis
    unfolding put_tx_def Let_def
    by - (cases "0 < length r \<and> hd r \<noteq> flagTx"; rule then_do_total;
      simp only: if_True if_False simp_thms option.distinct not_False_eq_True)
qed

lemma put_tx_shrinks:
  assumes "\<And>e b e' r. parse e b = Some (Ok (e', r)) \<Longrightarrow> r = []"
    and "put_tx parse ordk e data r = Some (Ok (e', r'))"
  shows "length r' \<le> length r"
  using assms(2) parse_inputs_shrinks [OF assms(1)] assms(1)
  unfolding put_tx_def Let_def then_do_Ok_iff case_prod_beta
  by (auto simp: then_do_Ok_iff split: if_splits) fastforce+

lemma parseCrunchyNut_total:
  "length b < n \<Longrightarrow> parseCrunchyNutFlakesRecursively n u ordk e b \<noteq> None"
proof (induction n arbitrary: e b)
  case (Suc n)
  let ?parse = "parseCrunchyNutFlakesRecursively n u ordk"
  have parse: "?parse e r \<noteq> None" if "length r < length b" for e r
    using that Suc.prems by (intro Suc.IH) simp
  have tx: "put_tx ?parse ordk e data r \<noteq> None" if "length r < length b" for e data r
    by (rule put_tx_total [where N = "length r"])
      (use that parse parseCrunchyNut_reads_all in \<open>auto simp del: not_None_eq\<close>)
  show ?case
    unfolding parseCrunchyNutFlakesRecursively.simps
  proof (rule then_do_pair_total, simp, rule then_do_pair_total)
    fix chunk r
    assume "Some (parseChunk b) = Some (Ok (chunk, r))"
    then have r: "length r < length b" by (simp add: parseChunk_less)
    let ?step = "if ContentType chunk = flagTx then put_tx ?parse ordk e (Data chunk) r
        else Some (bind_res (put_chunk u e chunk r) (\<lambda>e. Ok (e, r)))"
    show "?step \<noteq> None" using tx [OF r] by simp
    fix e' r'
    assume step: "?step = Some (Ok (e', r'))"
    have "length r' \<le> length r"
    proof (cases "ContentType chunk = flagTx")
      case True
      with step show ?thesis using put_tx_shrinks [OF parseCrunchyNut_reads_all] by simp
    next
      case False
      with step show ?thesis by (simp add: bind_res_eq_Ok)
    qed
    with r parse show "(if length r' > 0 then ?parse e' r' else Some (Ok (e', r'))) \<noteq> None" by simp
  qed
qed simp


section \<open>Chains\<close>

text \<open>A transaction, its parent, and so on; only the last one is mined.\<close>

fun chain_envelope :: "Tx list \<Rightarrow> MerkleProof \<Rightarrow> Envelope" where
  "chain_envelope [] p = empty_envelope"
| "chain_envelope [t] p = Envelope (TxID t) (Tx_String t) (Some p) [] []"
| "chain_envelope (t # t' # ts) p =
     Envelope (TxID t) (Tx_String t) None [] [(TxID t', chain_envelope (t' # ts) p)]"

fun chain_txs :: "Tx list \<Rightarrow> bool" where
  "chain_txs (t # t' # ts) \<longleftrightarrow> PreviousTxIDStr ` set (tx_Inputs t) = {TxID t'} \<and> chain_txs (t' # ts)"
| "chain_txs ts \<longleftrightarrow> True"

definition sized_Tx :: "Tx \<Rightarrow> bool" where
  "sized_Tx t \<longleftrightarrow> wf_Tx t \<and> length (Tx_Bytes t) < 2 ^ 64"

definition envelope_proof :: "MerkleProof \<Rightarrow> MerkleProof" where
  "envelope_proof p = p\<lparr> pf_TargetType := (if pf_TargetType p = ''header'' then ''header'' else ''blockhash''),
     pf_ProofType := '''', pf_Composite := False \<rparr>"

lemma binary_proof_data:
  "wf_MerkleProof p \<Longrightarrow> bind_res (parseBinaryMerkleProof (proof_data p, s)) (\<lambda>m. Ok (binary_proof m)) =
     Ok (envelope_proof p)"
  by (simp add: parse_proof_data binary_proof_def envelope_proof_def flagType_def MerkleProof_flags_bits)

lemma hexDecode_Tx_String [simp]: "hexDecode (Tx_String t) = (Tx_Bytes t, None)"
  by (simp add: Tx_String_def)

lemma fold_update_const:
  "k' ` set xs \<subseteq> {k} \<Longrightarrow>
     fold (\<lambda>i m. AList.update (k' i) v m) xs m = (if xs = [] then m else AList.update k v m)"
  by (induction xs arbitrary: m) auto

lemma input_envelopes_single:
  "PreviousTxIDStr ` set (tx_Inputs tx) = {k} \<Longrightarrow> input_envelopes tx = [(k, empty_envelope)]"
  unfolding input_envelopes_def
  by (subst fold_update_const [of _ _ k]) auto

lemma parse_inputs_done [simp]: "parse_inputs parse ks inputs [] = Some (Ok (inputs, []))"
  by (induction ks) auto

lemma hd_chunk_Bytes [simp]: "hd (chunk_Bytes f d @ r) = f" "hd (chunk_Bytes f d) = f"
  by (simp_all add: chunk_Bytes_def)

lemma parse_tx_chunk:
  assumes "sized_Tx t"
  shows "parseCrunchyNutFlakesRecursively (Suc n) u ordk e (chunk_Bytes flagTx (Tx_Bytes t) @ r) =
    then_do (put_tx (parseCrunchyNutFlakesRecursively n u ordk) ordk e (Tx_Bytes t) r) (\<lambda>(e, r').
      if length r' > 0 then parseCrunchyNutFlakesRecursively n u ordk e r' else Some (Ok (e, r')))"
  using assms by (simp add: parseChunk_Bytes sized_Tx_def)

lemma parse_chain:
  assumes "ts \<noteq> []" "list_all sized_Tx ts" "chain_txs ts" "wf_MerkleProof p" "length (proof_data p) < 2 ^ 64"
    and "\<And>ks. mset (ordk ks) = mset ks"
  shows "parseCrunchyNutFlakesRecursively (Suc (length ts)) u ordk empty_envelope
      (concat (map (\<lambda>t. chunk_Bytes flagTx (Tx_Bytes t)) ts) @ chunk_Bytes flagProof (proof_data p)) =
    Some (Ok (chain_envelope ts (envelope_proof p), []))"
  using assms(1-3)
proof (induction ts rule: induct_list012)
  case (2 t)
  let ?e = "Envelope (TxID t) (Tx_String t) None [] []"
  have "parseCrunchyNutFlakesRecursively (Suc 0) u ordk ?e (chunk_Bytes flagProof (proof_data p)) =
      Some (Ok (chain_envelope [t] (envelope_proof p), []))"
    using parseChunk_Bytes [OF assms(5), of flagProof "[]"] binary_proof_data [OF assms(4), of "[]"]
    by (auto simp: put_chunk_def must_def split: res.splits)
  with 2 show ?case
    by (simp add: parse_tx_chunk put_tx_def must_def NewTxFromBytes_Bytes sized_Tx_def
        empty_envelope_def del: parseCrunchyNutFlakesRecursively.simps)
next
  case (3 t t' ts)
  let ?r = "concat (map (\<lambda>t. chunk_Bytes flagTx (Tx_Bytes t)) (t' # ts)) @ chunk_Bytes flagProof (proof_data p)"
  have "mset (ordk [TxID t']) = {#TxID t'#}" using assms(6) [of "[TxID t']"] by simp
  then have ord: "ordk [TxID t'] = [TxID t']" by (simp add: mset_single_iff)
  have ins: "input_envelopes t = [(TxID t', empty_envelope)]"
    using "3.prems"(3) by (simp add: input_envelopes_single)
  have IH: "parseCrunchyNutFlakesRecursively (Suc (length (t' # ts))) u ordk empty_envelope ?r =
      Some (Ok (chain_envelope (t' # ts) (envelope_proof p), []))"
    using "3.prems" by (intro "3.IH"(2)) simp_all
  have "hd ?r = flagTx" "?r \<noteq> []" by simp_all
  with "3.prems" IH ins ord show ?case
    by (simp add: parse_tx_chunk put_tx_def must_def NewTxFromBytes_Bytes sized_Tx_def
        empty_envelope_def del: parseCrunchyNutFlakesRecursively.simps)
qed simp

lemma wf_proof_data: "wf_MerkleProof p \<Longrightarrow> MerkleProof_Bytes p = Ok (proof_data p)"
  using parse_MerkleProof_Bytes [of p "[]" "[]"] by (auto simp: proof_data_def)

lemma chain_CrunchyNut_inputs:
  assumes "ts \<noteq> []" "wf_MerkleProof p"
  shows "serialiseCrunchyNutInputs m [(k, chain_envelope ts p)] =
    Ok (concat (map (\<lambda>t. chunk_Bytes flagTx (Tx_Bytes t)) ts) @ chunk_Bytes flagProof (proof_data p), None)"
  using assms(1)
proof (induction ts arbitrary: k rule: induct_list012)
  case (2 t)
  with wf_proof_data [OF assms(2)] show ?case by (simp add: append_to_def)
next
  case (3 t t' ts)
  then show ?case by (simp add: append_to_def)
qed simp


section \<open>mAPI responses in CrunchyNut\<close>

lemma crunchy_mapi_texts:
  "crunchy_mapi MapiCallback_Bytes ms =
     Ok (concat (map (\<lambda>m. chunk_Bytes flagMapi (callback_text m)) ms), None)"
  by (induction ms) (simp_all add: callback_codec)

lemma parse_responses:
  assumes "list_all sized_callback ms" "wf_MerkleProof p" "length (proof_data p) < 2 ^ 64"
  shows "parseCrunchyNutFlakesRecursively (Suc (length ms)) NewMapiCallbackFromBytes ordk
      (Envelope i raw pf ms' pars)
      (concat (map (\<lambda>m. chunk_Bytes flagMapi (callback_text m)) ms) @ chunk_Bytes flagProof (proof_data p)) =
    Some (Ok (Envelope i raw (Some (envelope_proof p)) (ms' @ ms) pars, []))"
  using assms(1)
proof (induction ms arbitrary: ms')
  case Nil
  then show ?case
    using parseChunk_Bytes [OF assms(3), of flagProof "[]"] binary_proof_data [OF assms(2), of "[]"]
    by (auto simp: put_chunk_def must_def split: res.splits)
next
  case (Cons m ms)
  have "length (callback_text m) < 2 ^ 64" "NewMapiCallbackFromBytes (callback_text m) = Ok m"
    using Cons.prems callback_codec(2) [of m] by (simp_all add: sized_callback_def)
  then show ?case
    using Cons.IH [of "ms' @ [m]"] Cons.prems
      parseCrunchyNutFlakesRecursively.simps(2) [of "Suc (length ms)" NewMapiCallbackFromBytes ordk]
    by (simp add: parseChunk_Bytes put_chunk_def must_def del: parseCrunchyNutFlakesRecursively.simps)
qed

section \<open>Two transactions in SpecialK\<close>

definition special_pair :: "Tx \<Rightarrow> Tx \<Rightarrow> bytes \<Rightarrow> bytes" where
  "special_pair t t' pf = prefixed (Tx_Bytes t) @ [0, 0] @ prefixed (Tx_Bytes t') @ prefixed pf @ [0]"

text \<open>Items written one after the other are read back, each with the rest behind it.\<close>

fun written_flakes :: "bytes list \<Rightarrow> slice list" where
  "written_flakes [] = []"
| "written_flakes (f # fs) = (f, concat (map prefixed fs)) # written_flakes fs"

lemma split_flakes_cons:
  "length f < 2 ^ 64 \<Longrightarrow> split_flakes (cursor_of (prefixed f @ r, s)) =
     (if r = [] then Ok [(f, s)]
      else bind_res (split_flakes (cursor_of (r, s))) (\<lambda>fs. Ok ((f, r @ s) # fs)))"
  by (subst split_flakes.simps) (simp add: prefixed_def unat_of_nat_u64, simp add: cursor_of_def)

lemma prefixed_Nil: "prefixed [] = [0]"
  by (simp add: prefixed_def VarInt_Bytes_def)

lemma prefixed_not_Nil [simp]: "prefixed f \<noteq> []"
  by (simp add: prefixed_def)

lemma split_flakes_written:
  "fs \<noteq> [] \<Longrightarrow> list_all (\<lambda>f. length f < 2 ^ 64) fs \<Longrightarrow>
     split_flakes (cursor_of (concat (map prefixed fs), [])) = Ok (written_flakes fs)"
proof (induction fs)
  case (Cons f fs)
  then show ?case using split_flakes_cons [of f "[]" "[]"] by (cases fs) (simp_all add: split_flakes_cons)
qed simp

lemma split_special_pair:
  assumes "sized_Tx t" "sized_Tx t'" "length pf < 2 ^ 64"
  shows "split_flakes (cursor_of (special_pair t t' pf, [])) =
    Ok (written_flakes [Tx_Bytes t, [], [], Tx_Bytes t', pf, []])"
  using split_flakes_written [of "[Tx_Bytes t, [], [], Tx_Bytes t', pf, []]"] assms
  by (simp add: special_pair_def prefixed_Nil sized_Tx_def)

lemma mset_pair: "mset xs = mset [a, b] \<Longrightarrow> xs = [a, b] \<or> xs = [b, a]"
proof -
  assume xs: "mset xs = mset [a, b]"
  then have "length xs = 2" by (metis length_Cons list.size(3) mset_eq_length numeral_2_eq_2)
  then obtain x y where "xs = [x, y]" by (auto simp: numeral_2_eq_2 length_Suc_conv)
  with xs show ?thesis by (auto simp: add_eq_conv_ex)
qed

lemma mset_triple:
  "mset xs = mset [a, b, c] \<Longrightarrow>
     xs \<in> {[a, b, c], [a, c, b], [b, a, c], [b, c, a], [c, a, b], [c, b, a]}"
proof -
  assume xs: "mset xs = mset [a, b, c]"
  then have "length xs = 3"
    by (metis length_Cons list.size(3) mset_eq_length numeral_3_eq_3)
  then obtain x y z where "xs = [x, y, z]" by (auto simp: numeral_3_eq_3 length_Suc_conv)
  with xs show ?thesis by (auto simp: add_eq_conv_ex)
qed

definition pair_state :: "Tx \<Rightarrow> Tx \<Rightarrow> (string \<times> MerkleProof) list \<Rightarrow> special_state \<Rightarrow> bool" where
  "pair_state t t' proofs s \<longleftrightarrow>
     mset (sk_txs s) = mset [(TxID t, t), (TxID t', t')] \<and> sk_proofs s = proofs \<and> sk_mapis s = []"

lemma run_tx:
  "sized_Tx t \<Longrightarrow> i mod 3 = 0 \<Longrightarrow> Tx_Bytes t \<noteq> [] \<Longrightarrow>
     run_flake u (i, Tx_Bytes t, s') s = Ok (s\<lparr> sk_txs := AList.update (TxID t) t (sk_txs s) \<rparr>)"
  by (simp add: run_flake_def parseSpecialKFlakeTx_def must_def NewTxFromBytes_Bytes sized_Tx_def)

lemma Tx_Bytes_long: "2 \<le> length (Tx_Bytes t)" "Tx_Bytes t \<noteq> []"
  by (simp_all add: Tx_Bytes_def)

lemma run_pair:
  assumes "sized_Tx t" "sized_Tx t'" "TxID t \<noteq> TxID t'"
    and "\<And>xs. mset (ordg xs) = mset xs"
  shows "\<exists>s. fold (\<lambda>f s. bind_res s (run_flake u f))
      (ordg (filter (\<lambda>(idx, flake). 2 \<le> length (fst flake))
        (enumerate 0 (written_flakes [Tx_Bytes t, [], [], Tx_Bytes t', [], []]))))
      (Ok \<lparr> sk_txs = [], sk_proofs = [], sk_mapis = [] \<rparr>) = Ok s \<and> pair_state t t' [] s"
proof -
  let ?fs = "written_flakes [Tx_Bytes t, [], [], Tx_Bytes t', [], []]"
  let ?xs = "[(0, ?fs ! 0), (3, ?fs ! 3)]"
  have fl: "filter (\<lambda>(idx, flake). 2 \<le> length (fst flake)) (enumerate 0 ?fs) = ?xs"
    by (simp add: Tx_Bytes_long)
  have "ordg ?xs = ?xs \<or> ordg ?xs = rev ?xs"
    using mset_pair [OF assms(4) [of ?xs]] by simp
  then show ?thesis
    unfolding fl using assms(1-3)
    by (elim disjE) (simp_all add: run_tx Tx_Bytes_long pair_state_def)
qed

lemma run_pair_proof:
  assumes "sized_Tx t" "sized_Tx t'" "TxID t \<noteq> TxID t'"
    and p: "wf_MerkleProof p" "pf_TxOrID p = TxID t'" "2 \<le> length (proof_data p)"
    and "\<And>xs. mset (ordg xs) = mset xs"
  shows "\<exists>s. fold (\<lambda>f s. bind_res s (run_flake u f))
      (ordg (filter (\<lambda>(idx, flake). 2 \<le> length (fst flake))
        (enumerate 0 (written_flakes [Tx_Bytes t, [], [], Tx_Bytes t', proof_data p, []]))))
      (Ok \<lparr> sk_txs = [], sk_proofs = [], sk_mapis = [] \<rparr>) = Ok s \<and>
    pair_state t t' [(TxID t', envelope_proof p)] s"
proof -
  let ?fs = "written_flakes [Tx_Bytes t, [], [], Tx_Bytes t', proof_data p, []]"
  let ?xs = "[(0, ?fs ! 0), (3, ?fs ! 3), (4, ?fs ! 4)]"
  have fl: "filter (\<lambda>(idx, flake). 2 \<le> length (fst flake)) (enumerate 0 ?fs) = ?xs"
    using p(3) by (simp add: Tx_Bytes_long)
  have ord: "ordg ?xs \<in> {?xs, [?xs ! 0, ?xs ! 2, ?xs ! 1], [?xs ! 1, ?xs ! 0, ?xs ! 2],
      [?xs ! 1, ?xs ! 2, ?xs ! 0], [?xs ! 2, ?xs ! 0, ?xs ! 1], [?xs ! 2, ?xs ! 1, ?xs ! 0]}"
    using mset_triple [OF assms(7) [of ?xs]] by simp
  have "parseSpecialKProof (proof_data p, s') = Ok (envelope_proof p)" for s'
  proof -
    obtain m where "parseBinaryMerkleProof (proof_data p, s') = Ok m" "binary_proof m = envelope_proof p"
      using binary_proof_data [OF p(1), of s'] by (auto simp: bind_res_eq_Ok)
    with p(3) show ?thesis by (auto simp: parseSpecialKProof_def)
  qed
  moreover have "pf_TxOrID (envelope_proof p) = TxID t'" "TxID t' \<noteq> []"
    using p(2) length_TxID [of t'] by (auto simp: envelope_proof_def simp del: length_TxID)
  ultimately have pf: "run_flake u (4, proof_data p, s') s =
      Ok (s\<lparr> sk_proofs := AList.update (TxID t') (envelope_proof p) (sk_proofs s) \<rparr>)" for s s'
    by (simp add: run_flake_def must_def listen_proof_def)
  show ?thesis
    using ord unfolding fl using assms(1-3)
    by (elim insertE emptyE) (simp_all add: run_tx pf Tx_Bytes_long pair_state_def)
qed


lemma search_root:
  "searchParents pick (Envelope eid raw None [] pars) eid t None [] =
     (Envelope eid (Tx_String t) None [] pars, True)"
  by (simp add: searchParents.simps)

lemma search_proved_parent:
  "txid \<noteq> eid \<Longrightarrow> txid \<in> fst ` set pars \<Longrightarrow>
     searchParents pick (Envelope eid raw pf ms pars) txid t (Some p) m = (Envelope eid raw pf ms pars, True)"
  by (simp add: searchParents.simps)

lemma search_empty: "txid \<noteq> [] \<Longrightarrow> searchParents pick empty_envelope txid t p m = (empty_envelope, False)"
  by (simp add: searchParents.simps empty_envelope_def)

lemma search_nowhere:
  assumes "txid \<noteq> eid" "txid \<notin> fst ` set pars" "txid \<noteq> []" "\<forall>(k, e) \<in> set pars. e = empty_envelope"
  shows "searchParents pick (Envelope eid raw pf ms pars) txid t p m = (Envelope eid raw pf ms pars, False)"
proof (cases "pars = []")
  case True
  with assms show ?thesis by (simp add: searchParents.simps)
next
  case False
  define i where "i = pick pars mod length pars"
  then have "i < length pars" using False by simp
  then have "snd (pars ! i) = empty_envelope" using assms(4) by (auto simp: all_set_conv_all_nth split_def)
  moreover from this have "pars[i := (fst (pars ! i), empty_envelope)] = pars"
    by (metis list_update_id prod.collapse)
  ultimately show ?thesis
    using assms False by (subst searchParents.simps) (simp add: search_empty Let_def flip: i_def)
qed

lemma input_envelopes_entries:
  "(\<forall>(k, e) \<in> set (input_envelopes t). e = empty_envelope) \<and>
     fst ` set (input_envelopes t) = PreviousTxIDStr ` set (tx_Inputs t)"
proof -
  have "(\<forall>(k, e) \<in> set m. e = empty_envelope) \<Longrightarrow>
    (\<forall>(k, e) \<in> set (fold (\<lambda>i m. AList.update (PreviousTxIDStr i) empty_envelope m) ins m). e = empty_envelope) \<and>
    fst ` set (fold (\<lambda>i m. AList.update (PreviousTxIDStr i) empty_envelope m) ins m) =
      fst ` set m \<union> PreviousTxIDStr ` set ins" for ins m
  proof (induction ins arbitrary: m)
    case (Cons i ins)
    let ?m = "AList.update (PreviousTxIDStr i) empty_envelope m"
    have "\<forall>(k, e) \<in> set ?m. e = empty_envelope"
      using Cons.prems set_AList_update [of "PreviousTxIDStr i" empty_envelope m] by fast
    moreover have "fst ` set ?m = insert (PreviousTxIDStr i) (fst ` set m)"
      using dom_update [of "PreviousTxIDStr i" empty_envelope m] by (simp add: dom_map_of_conv_image_fst)
    ultimately show ?case using Cons.IH [of ?m] by simp
  qed simp
  from this [of "[]" "tx_Inputs t"] show ?thesis by (simp add: input_envelopes_def)
qed

text \<open>A proved parent is taken off the list without being put into the envelope.\<close>

lemma place_proved_parent:
  assumes s: "pair_state t t' [(TxID t', p)] s" and ids: "TxID t \<noteq> TxID t'"
    and e: "e = Envelope (TxID t) (Tx_String t) None [] [(TxID t', empty_envelope)]"
    and ord: "\<And>xs. mset (ordt xs) = mset xs"
  shows "place_loop (Suc n) pick ordt s (e, sk_txs s) = Some e"
proof -
  let ?A = "(TxID t, t)" and ?B = "(TxID t', t')"
  have txs: "sk_txs s = [?A, ?B] \<or> sk_txs s = [?B, ?A]"
    using s by (intro mset_pair) (simp add: pair_state_def)
  have ord': "ordt (sk_txs s) = [?A, ?B] \<or> ordt (sk_txs s) = [?B, ?A]"
    using s ord [of "sk_txs s"] by (intro mset_pair) (simp add: pair_state_def)
  have A: "searchParents pick e (TxID t) t None [] = (e, True)" by (simp add: e search_root)
  have B: "searchParents pick e (TxID t') t' (Some p) [] = (e, True)"
    using ids by (simp add: e search_proved_parent)
  have "place_pass pick s (ordt (sk_txs s)) (e, sk_txs s) = (e, [])"
    using txs ord' s ids A B by (elim disjE) (simp_all add: pair_state_def)
  then show ?thesis by simp
qed

text \<open>A transaction without a place is never taken off the list.\<close>

lemma place_unrelated:
  assumes s: "pair_state t t' [] s" and ids: "TxID t' \<notin> insert (TxID t) (PreviousTxIDStr ` set (tx_Inputs t))"
    and e: "e = Envelope (TxID t) (Tx_String t) None [] (input_envelopes t)"
    and ord: "\<And>xs. mset (ordt xs) = mset xs"
  shows "place_loop n pick ordt s (e, sk_txs s) = None"
proof -
  let ?A = "(TxID t, t)" and ?B = "(TxID t', t')"
  have A: "searchParents pick e (TxID t) t None [] = (e, True)" by (simp add: e search_root)
  have "TxID t' \<noteq> []" using length_TxID [of t'] by (auto simp del: length_TxID)
  with ids input_envelopes_entries [of t] have B: "searchParents pick e (TxID t') t' None [] = (e, False)"
    by (simp add: e search_nowhere)
  have pass: "\<exists>txs'. place_pass pick s xs (e, txs) = (e, txs') \<and> ?B \<in> set txs' \<and> set txs' \<subseteq> {?A, ?B}"
    if "set xs \<subseteq> {?A, ?B}" "?B \<in> set txs" "set txs \<subseteq> {?A, ?B}" for xs txs
    using that
  proof (induction xs arbitrary: txs)
    case (Cons x xs)
    have "?B \<in> set (AList.delete (TxID t) txs)" "set (AList.delete (TxID t) txs) \<subseteq> {?A, ?B}"
      using Cons.prems(2,3) ids by (auto simp: AList.delete_eq)
    with Cons s A B show ?case by (cases "x = ?A") (simp_all add: pair_state_def)
  qed simp
  have "place_loop n pick ordt s (e, txs) = None" if "?B \<in> set txs" "set txs \<subseteq> {?A, ?B}" for txs
    using that
  proof (induction n arbitrary: txs)
    case (Suc n)
    have "set (ordt txs) \<subseteq> {?A, ?B}" using Suc.prems(2) mset_eq_setD [OF ord [of txs]] by simp
    from pass [OF this Suc.prems] obtain txs' where txs': "place_pass pick s (ordt txs) (e, txs) = (e, txs')"
      "?B \<in> set txs'" "set txs' \<subseteq> {?A, ?B}" by blast
    from txs'(2) have "0 < length txs'" by (auto intro: length_pos_if_in_set)
    with txs' Suc.IH show ?case by simp
  qed simp
  moreover have "?B \<in> set (sk_txs s)" "set (sk_txs s) \<subseteq> {?A, ?B}"
    using s mset_eq_setD [of "sk_txs s" "[?A, ?B]"] by (simp_all add: pair_state_def)
  ultimately show ?thesis by blast
qed

lemma root_special_pair:
  "sized_Tx t \<Longrightarrow> root_envelope (written_flakes (Tx_Bytes t # fs)) = Envelope (TxID t) (Tx_String t) None [] (input_envelopes t)"
  using Tx_Bytes_long [of t]
  by (simp add: root_envelope_def parseSpecialKFlakeTx_def NewTxFromBytes_Bytes sized_Tx_def)


section \<open>Properties\<close>

text \<open>C23: a chain of unmined transactions, each spending the next, with a proof for the last one,
  survives the CrunchyNut form, whatever order \<open>range\<close> uses: it is read back as it was, except
  that the proof loses its types (a Merkle root target is called a block hash).\<close>

theorem CrunchyNut_chain_roundtrip:
  assumes "ts \<noteq> []" "list_all sized_Tx ts" "chain_txs ts" "wf_MerkleProof p" "length (proof_data p) < 2 ^ 64"
    "\<And>ks. mset (ordk ks) = mset ks"
  shows "\<exists>b. CrunchyNutBytes m (chain_envelope ts p) = Ok b \<and>
    NewCrunchyNutEnvelopeFromBytes u ordk b = Some (Ok (chain_envelope ts (envelope_proof p)))"
proof -
  let ?r = "concat (map (\<lambda>t. chunk_Bytes flagTx (Tx_Bytes t)) ts) @ chunk_Bytes flagProof (proof_data p)"
  have "length ts \<le> length (concat (map (\<lambda>t. chunk_Bytes flagTx (Tx_Bytes t)) ts))"
    by (induction ts) (auto simp: chunk_Bytes_def)
  then have "Suc (length ts) \<le> Suc (length ?r)" by simp
  from parseCrunchyNut_mono [OF this parse_chain [OF assms]]
  have "NewCrunchyNutEnvelopeFromBytes u ordk (1 # ?r) =
      Some (Ok (chain_envelope ts (envelope_proof p)))"
    by (simp add: NewCrunchyNutEnvelopeFromBytes_def del: parseCrunchyNutFlakesRecursively.simps)
  then show ?thesis
    by (simp add: CrunchyNutBytes_def chain_CrunchyNut_inputs [OF assms(1,4)])
qed

definition sample_child :: Tx where
  "sample_child = sample_tx\<lparr> tx_Inputs :=
     map (\<lambda>i. i\<lparr> in_previousTxID := TxIDBytes sample_tx \<rparr>) (tx_Inputs sample_tx) \<rparr>"

lemma sized_sample: "sized_Tx sample_tx" "sized_Tx sample_child"
  by (simp_all add: sized_Tx_def sample_child_def sample_tx_def wf_Tx_def wf_Input_def wf_Output_def
      wf_script_def max_alloc_def Tx_Bytes_def Input_Bytes_def Output_Bytes_def VarInt_Bytes_def)

lemma sample_child_inputs: "PreviousTxIDStr ` set (tx_Inputs sample_child) = {TxID sample_tx}"
  by (simp add: sample_child_def sample_tx_def PreviousTxIDStr_def TxID_def TxIDBytes_def)

lemma length_sample_proof: "length (proof_data sample_proof) < 2 ^ 64"
  by (rule wf_anchored_proof [OF wf_sample_anchored, THEN conjunct2])

theorem CrunchyNut_chain_roundtrip_witness:
  "\<exists>b. CrunchyNutBytes (\<lambda>_. Err EOF) (chain_envelope [sample_child, sample_tx] sample_proof) = Ok b \<and>
    NewCrunchyNutEnvelopeFromBytes (\<lambda>_. Err EOF) rev b =
      Some (Ok (chain_envelope [sample_child, sample_tx] (envelope_proof sample_proof)))"
  by (rule CrunchyNut_chain_roundtrip [OF _ _ _ _ length_sample_proof])
    (simp_all add: sized_sample sample_child_inputs wf_sample_proof)

text \<open>C24: a mined transaction with its proof and its mAPI responses, as their JSON texts, survives
  the CrunchyNut form, up to the fields of the proof that have no binary form; its parents do
  not.\<close>

theorem CrunchyNut_mined_roundtrip:
  assumes "sized_Tx t" "wf_MerkleProof p" "length (proof_data p) < 2 ^ 64" "list_all sized_callback ms"
  shows "\<exists>b. CrunchyNutBytes MapiCallback_Bytes (Envelope (TxID t) (Tx_String t) (Some p) ms pars) = Ok b \<and>
    NewCrunchyNutEnvelopeFromBytes NewMapiCallbackFromBytes ordk b =
    Some (Ok (Envelope (TxID t) (Tx_String t) (Some (envelope_proof p)) ms []))"
proof -
  let ?rest = "concat (map (\<lambda>m. chunk_Bytes flagMapi (callback_text m)) ms) @ chunk_Bytes flagProof (proof_data p)"
  let ?r = "chunk_Bytes flagTx (Tx_Bytes t) @ ?rest"
  have bytes: "CrunchyNutBytes MapiCallback_Bytes (Envelope (TxID t) (Tx_String t) (Some p) ms pars) = Ok (1 # ?r)"
    by (simp add: CrunchyNutBytes_def crunchy_mapi_texts wf_proof_data [OF assms(2)] append_to_def)
  have "?rest \<noteq> []" "hd ?rest \<noteq> flagTx" by (cases ms; simp)+
  then have "parseCrunchyNutFlakesRecursively (Suc (Suc (length ms))) NewMapiCallbackFromBytes ordk empty_envelope ?r =
      Some (Ok (Envelope (TxID t) (Tx_String t) (Some (envelope_proof p)) ms [], []))"
    using parse_responses [OF assms(4,2,3), of ordk "TxID t" "Tx_String t" None "[]" "[]"] assms(1)
    by (simp add: parse_tx_chunk put_tx_def must_def NewTxFromBytes_Bytes sized_Tx_def
        empty_envelope_def del: parseCrunchyNutFlakesRecursively.simps)
  moreover have "Suc (Suc (length ms)) \<le> Suc (length ?r)"
  proof -
    have "length ms \<le> length (concat (map (\<lambda>m. chunk_Bytes flagMapi (callback_text m)) ms))"
      by (induction ms) (simp_all add: chunk_Bytes_def)
    then show ?thesis by (simp add: chunk_Bytes_def)
  qed
  ultimately have "parseCrunchyNutFlakesRecursively (Suc (length ?r)) NewMapiCallbackFromBytes ordk empty_envelope ?r =
      Some (Ok (Envelope (TxID t) (Tx_String t) (Some (envelope_proof p)) ms [], []))"
    using parseCrunchyNut_mono by blast
  then have "NewCrunchyNutEnvelopeFromBytes NewMapiCallbackFromBytes ordk (1 # ?r) =
      Some (Ok (Envelope (TxID t) (Tx_String t) (Some (envelope_proof p)) ms []))"
    by (simp add: NewCrunchyNutEnvelopeFromBytes_def del: parseCrunchyNutFlakesRecursively.simps)
  with bytes show ?thesis by blast
qed

theorem CrunchyNut_mined_roundtrip_witness:
  "\<exists>b. CrunchyNutBytes MapiCallback_Bytes
      (Envelope (TxID sample_tx) (Tx_String sample_tx) (Some sample_proof) [sample_callback] []) = Ok b \<and>
    NewCrunchyNutEnvelopeFromBytes NewMapiCallbackFromBytes rev b =
    Some (Ok (Envelope (TxID sample_tx) (Tx_String sample_tx) (Some (envelope_proof sample_proof)) [sample_callback] []))"
  by (rule CrunchyNut_mined_roundtrip [OF _ _ length_sample_proof])
    (simp_all add: sized_sample wf_sample_proof sized_sample_callback)

text \<open>C25: reading the CrunchyNut form ends on every input, well formed or not: the recursion is no
  deeper than the input is long, and more fuel gives the same result.\<close>

theorem parseCrunchyNut_terminates:
  "\<exists>r. \<forall>k. parseCrunchyNutFlakesRecursively (Suc (length b) + k) u ordk e b = Some r"
proof -
  obtain r where "parseCrunchyNutFlakesRecursively (Suc (length b)) u ordk e b = Some r"
    using parseCrunchyNut_total [of b "Suc (length b)" u ordk e] by blast
  then have "\<forall>k. parseCrunchyNutFlakesRecursively (Suc (length b) + k) u ordk e b = Some r"
    by (intro allI parseCrunchyNut_mono [OF le_add1])
  then show ?thesis ..
qed



text \<open>SpecialK loses proofs. An envelope of a transaction and its mined parent is written
  with the parent and its proof, but read back, whatever the order of the goroutines and maps,
  with an empty parent and without the proof (unless the two ids collide).\<close>

theorem SpecialK_proof_lost:
  assumes "sized_Tx t" "sized_Tx t'" "PreviousTxIDStr ` set (tx_Inputs t) = {TxID t'}"
    "wf_MerkleProof p" "pf_TxOrID p = TxID t'" "2 \<le> length (proof_data p)" "length (proof_data p) < 2 ^ 64"
    "\<And>xs. mset (ordg xs) = mset xs" "\<And>xs. mset (ordt xs) = mset xs"
  shows "\<exists>b. SpecialKBytes m (chain_envelope [t, t'] p) = Ok b \<and>
    (NewSpecialKEnvelopeFromBytes (Suc n) u ordg pick ordt b =
       Some (Ok (Envelope (TxID t) (Tx_String t) None [] [(TxID t', empty_envelope)])) \<or> TxID t = TxID t')"
proof (intro exI conjI)
  show "SpecialKBytes m (chain_envelope [t, t'] p) = Ok (1 # special_pair t t' (proof_data p))"
    by (simp add: SpecialKBytes_def append_to_def special_mapi_def wf_proof_data [OF assms(4)] special_pair_def)
  show "NewSpecialKEnvelopeFromBytes (Suc n) u ordg pick ordt (1 # special_pair t t' (proof_data p)) =
       Some (Ok (Envelope (TxID t) (Tx_String t) None [] [(TxID t', empty_envelope)])) \<or> TxID t = TxID t'"
  proof (rule disjCI)
    assume ids: "TxID t \<noteq> TxID t'"
    obtain s where s: "fold (\<lambda>f s. bind_res s (run_flake u f))
      (ordg (filter (\<lambda>(idx, flake). 2 \<le> length (fst flake))
        (enumerate 0 (written_flakes [Tx_Bytes t, [], [], Tx_Bytes t', proof_data p, []]))))
      (Ok \<lparr> sk_txs = [], sk_proofs = [], sk_mapis = [] \<rparr>) = Ok s"
      "pair_state t t' [(TxID t', envelope_proof p)] s"
      using run_pair_proof [OF assms(1,2) ids assms(4-6,8)] by blast
    show "NewSpecialKEnvelopeFromBytes (Suc n) u ordg pick ordt (1 # special_pair t t' (proof_data p)) =
       Some (Ok (Envelope (TxID t) (Tx_String t) None [] [(TxID t', empty_envelope)]))"
      using place_proved_parent [OF s(2) ids refl assms(9)]
      unfolding NewSpecialKEnvelopeFromBytes_def
      by (simp only: next_byte_Cons then_do_simps prod.case split_special_pair [OF assms(1,2,7)] s(1)
          root_special_pair [OF assms(1)] input_envelopes_single [OF assms(3)] option.map simp_thms if_False)
  qed
qed


definition sample_id_proof :: MerkleProof where
  "sample_id_proof = \<lparr> pf_Index = 0, pf_TxOrID = TxID sample_tx, pf_Target = TxID sample_tx, pf_Nodes = [],
     pf_TargetType = ''merkleRoot'', pf_ProofType = ''branch'', pf_Composite = False \<rparr>"

lemma sample_id_proof:
  "wf_MerkleProof sample_id_proof" "pf_TxOrID sample_id_proof = TxID sample_tx"
  "length (proof_data sample_id_proof) = 67"
proof -
  show "wf_MerkleProof sample_id_proof"
    by (simp add: wf_MerkleProof_def sample_id_proof_def TxID_def)
  from wf_proof_data [OF this] show "length (proof_data sample_id_proof) = 67"
    by (auto simp: sample_id_proof_def MerkleProof_Bytes_def VarInt_Bytes_def TxID_def proof_data_def)
qed (simp add: sample_id_proof_def)

theorem SpecialK_proof_lost_witness:
  "\<exists>b. SpecialKBytes (\<lambda>_. Err EOF) (chain_envelope [sample_child, sample_tx] sample_id_proof) = Ok b \<and>
    (NewSpecialKEnvelopeFromBytes 1 (\<lambda>_. Err EOF) rev (\<lambda>_. 0) rev b =
       Some (Ok (Envelope (TxID sample_child) (Tx_String sample_child) None []
         [(TxID sample_tx, empty_envelope)])) \<or> TxID sample_child = TxID sample_tx)"
  unfolding One_nat_def
  by (rule SpecialK_proof_lost) (simp_all add: sized_sample sample_child_inputs sample_id_proof)


end
