(* ===== verification/Spec2Isabelle.thy ===== *)
theory Spec2Isabelle
  imports Merkle_Branches Merkle_Proof Bump_Json Block_Codec Coinbase Difficulty Chain_Verdicts Envelope
begin

text \<open>
  A verification development of go-bc, the block chain part of the Bitcoin SV libraries in Go.

  \<^bold>\<open>The program.\<close> go-bc turns a block into the data by which somebody who keeps only block headers can
  check that a transaction was mined, and checks such data. A block (\<open>block.go\<close>) is a header
  (\<open>blockheader.go\<close>) and transactions; the ids of the transactions are the leaves of a Merkle tree
  (\<open>merkletreeparent.go\<close>, \<open>merkleroot.go\<close>), kept in a linear array. From the array come the path
  of a leaf (\<open>merklepath.go\<close>, \<open>merkleproof.go\<close>) and the compound path BUMP (\<open>bump.go\<close>), and from
  the coinbase the branches of stratum mining (\<open>merklebranches.go\<close>, \<open>coinbase.go\<close>). The package
  \<open>spv\<close> verifies a proof against a chain of headers (\<open>verifymerkleproof.go\<close>), builds and
  serialises the ancestry of a payment (\<open>create_ancestry.go\<close>, \<open>ancestry_*.go\<close>, \<open>envelope.go\<close>) and
  verifies a payment against its ancestry and a fee quote (\<open>verifier.go\<close>, \<open>verifypayment.go\<close>).

  \<^bold>\<open>Results.\<close> A Go call that can fail is a value of \<open>'a res\<close>: \<open>Ok\<close>, \<open>Err\<close> (a returned error)
  or \<open>Panic\<close>. Slices are lists, byte slices lists of 8-bit words, \<open>uint32\<close> and \<open>uint64\<close> words
  of their width, strings lists of 8-bit characters, maps association lists. A parser that moves an
  offset over a slice is a reader: it takes the unread rest and returns a value and the new rest. A
  slice cut out of a larger one is the pair of its bytes and the bytes behind them.

  \<^bold>\<open>Theories\<close>, in the order of their imports:
  \<^item> \<open>Go_Prelude\<close>: results, panics, slices, readers, the sentinels of \<open>spv/errors.go\<close>, and the
    locale \<open>stream_codec\<close>, the contract between a serialiser and the reader of its format. It is
    interpreted by variable-length integers (\<open>varint\<close>, \<open>varint_io\<close>), inputs, outputs,
    transactions and ancestry chunks.
  \<^item> \<open>Go_Bytes\<close>, \<open>Sha256\<close>, \<open>Var_Int\<close>, \<open>Byte_Manip\<close>: hex, little-endian integers, the hash
    function in full, \<open>bt.VarInt\<close>, and \<open>bytemanipulation.go\<close> with \<open>endian.go\<close>.
  \<^item> \<open>Go_Slices\<close>: slices that are parts of larger ones, and cursors that may pass their end. The
    locale \<open>slice_reader\<close> is the contract between a reader of such a slice and the reader of a slice
    without spare capacity; it is interpreted by bytes, blocks of bytes, variable-length integers
    and, in \<open>Merkle_Proof\<close>, by the parser of proofs and its parts. The locale \<open>slice_codec\<close> is
    \<open>stream_codec\<close> for such readers; it is interpreted by variable-length integers, path leaves,
    BUMP leaves and the transactions of a block.
  \<^item> \<open>Go_Utf8\<close>, \<open>Go_Json\<close>, \<open>Json_Decode\<close>: \<open>encoding/json\<close>, as far as go-bc uses it: runes, the
    grammar of JSON texts and their compact printer, and decoding in place into the fields of a
    structure. Printing and parsing are inverse, and what is parsed is UTF-8. The locale
    \<open>json_codec\<close> is the contract between a structure, its JSON value and its decoder; it is
    interpreted by callbacks (\<open>Mapi_Callback\<close>), block headers and BUMPs.
  \<^item> \<open>Mapi_Callback\<close>: \<open>mapicallback.go\<close>.
  \<^item> \<open>Target\<close>: the integers of \<open>difficulty.go\<close>. \<open>Go_Float\<close> and \<open>Difficulty\<close>: the type
    \<open>float64\<close> with rounding to nearest, and over it the rest of \<open>difficulty.go\<close> and
    \<open>humanhash.go\<close>.
  \<^item> \<open>Bt_Tx\<close>, \<open>Fees\<close>: transactions and fees of the vendored \<open>go-bt\<close>, as far as go-bc calls them.
  \<^item> \<open>Block_Header\<close>, \<open>Block_Codec\<close>, \<open>Coinbase\<close>: \<open>blockheader.go\<close>, \<open>block.go\<close>, \<open>coinbase.go\<close>.
  \<^item> \<open>Merkle_Spec\<close>: what a Merkle tree promises over any node type: levels, root, path, folding,
    and the array of a tree. The locale \<open>merkle_cells\<close> is the contract of a parent function on
    cells that may be empty, and \<open>binding_cells\<close> extends it to parents that hash an injective
    encoding. \<open>Merkle_Tree\<close> interprets them on the string form and on the \<open>chainhash\<close> form.
  \<^item> \<open>Merkle_Path\<close>, \<open>Merkle_Branches\<close>, \<open>Bump\<close>: the files of these names; \<open>Bump_Json\<close>: the JSON
    form of a BUMP.
  \<^item> \<open>Header_Chain\<close>: the interface and the sentinels of \<open>blockheaderchain.go\<close>, and how two chains
    compare. \<open>Merkle_Proof\<close>: \<open>merkleproof.go\<close> and \<open>spv/verifymerkleproof.go\<close>;
    \<open>Proof_Acceptance\<close>: what the binary verifier accepts.
  \<^item> \<open>Ancestry\<close>: \<open>spv/ancestry_binary.go\<close>, \<open>ancestry_json.go\<close>, \<open>ancestry_tsc_json.go\<close>.
  \<^item> \<open>Payment\<close>: \<open>spv/verifier.go\<close>, \<open>spv/verifypayment.go\<close>; \<open>Creator\<close>: \<open>spv/creator.go\<close>,
    \<open>spv/create_ancestry.go\<close>; \<open>Envelope\<close>: \<open>spv/envelope.go\<close>.
  \<^item> \<open>Mined_Payment\<close>: from blocks through proofs, ancestries and their bytes to an accepted
    payment; \<open>Chain_Verdicts\<close>: what verdicts owe to the header chain, its errors and its growth;
    this theory: from a parsed block to an accepted proof.

  \<^bold>\<open>What the properties show.\<close>
  Trees: both array builders lay out the levels of the abstract tree, the last cell is its root, and
  they agree; a path or proof extracted for a leaf leads back to the root; an accepted opening binds
  its leaf (or the node of a higher level, when it is shorter than the tree is high), up to an
  explicit collision of the hash. Codecs: writers and readers are inverse on well-formed values,
  whatever follows the bytes, except that BUMP leaves with equal offsets may change places, that the
  binary forms of proofs and envelopes drop some types, and that mAPI responses in an ancestry are
  lost; and what is read is well-formed whatever the bytes were (blocks, transactions, BUMPs,
  callbacks). Proofs: what the binary verifier accepts is what folds to the root its target gives;
  it agrees with the JSON verifier on branch proofs with an index below \<open>2^nodes\<close>, and it is stated
  how they differ on all others; and honest proofs are accepted. Payments: \<open>VerifyPayment\<close> is characterised for
  every order in which Go ranges over its maps, and so is what an accepted payment guarantees;
  \<open>CreateTxAncestry\<close> ends when the store has no endless chain of unmined parents, and what it
  creates is accepted after serialisation (with fees off), whatever the order of its parents, for
  honest stores and in particular for stores filled from the blocks of the chain; an accepted payment stays accepted when the chain learns headers.
  Numbers: compact targets and difficulties are what they stand for, up to an explicit rounding
  error. Errors: where the code departs from its intent, the departure is stated as a property
  (lost siblings, a reader that never ends, chunks read past their end, proofs that certify themselves, inner nodes that pass
  for transactions, parents that stand under an id they do not have, errors of the chain that are
  hidden, negative indices that are never out of range).

  \<^bold>\<open>Bounds and fuel.\<close> Lengths fit in \<open>2^64\<close> and allocations in \<open>max_alloc\<close>, as in the runtime.
  \<open>CreateTxAncestry\<close> runs on fuel because a store may be cyclic; \<open>CreateTxAncestry_terminates\<close>
  gives enough fuel for every transaction that is accessible in the relation \<open>needs\<close>. The
  CrunchyNut reader takes one unit per chunk, and \<open>parseCrunchyNut_terminates\<close> shows that the
  length of the input is enough. The placement loop of the SpecialK reader may run for ever, so its
  fuel stands for the number of rounds. All other loops are total functions.

  \<^bold>\<open>Arguments.\<close> Code outside \<open>src/\<close> and what Go leaves open are arguments: the header chain
  \<open>bhc\<close> (an interface without implementation), the stores of the ancestry creator, the order of
  every \<open>range\<close> over a map and of the goroutines of the SpecialK reader, the bytes behind what
  \<open>hex.DecodeString\<close> returns, and the rearrangement \<open>srt\<close> by which \<open>sort.Slice\<close>, which is not stable,
  sorts the leaves of a BUMP (\<open>sort_Slice\<close>: the same leaves, ordered by offset). Properties quantify over them, under hypotheses such as that an order is a
  permutation. The readers and writers of ancestries take the conversions of a callback as
  arguments too: most of their properties hold for any, and \<open>CrunchyNut_mined_roundtrip\<close> puts in
  those of \<open>Mapi_Callback\<close>.

  \<^bold>\<open>Not modelled.\<close> The parts of \<open>encoding/json\<close> that no type of go-bc with a JSON method or
  function needs (floats, maps, base64, the reports of its errors), the JSON text of proofs and
  ancestries (nothing in the repository reads or writes it), printing and logging, contexts, \<open>testdata\<close>, and of the vendored packages all that
  go-bc does not call.
\<close>

section \<open>From a block to its proofs\<close>

lemma TxsToTxIDs_from_String:
  "list_all wf_Tx ts \<Longrightarrow> TxsToTxIDs_from i (map Tx_String ts) = Ok (map TxID ts)"
  by (induction ts arbitrary: i) (simp_all add: NewTxFromString_String)

lemma txidFromTxOrID_String:
  "wf_Tx t \<Longrightarrow> 32 < length (Tx_Bytes t) \<Longrightarrow> txidFromTxOrID (Tx_String t) = Ok (TxID t)"
  by (simp add: txidFromTxOrID_def NewTxFromString_String) (simp add: Tx_String_def)

text \<open>C5: from a block to an accepted proof. The ids \<open>TxsToTxIDs\<close> computes from the
  transactions of a block are their \<open>TxID\<close>s; when the header carries the root
  \<open>BuildMerkleRoot\<close> gives for them, \<open>VerifyMerkleProofJSON\<close> accepts, for every transaction
  of the block of more than 32 bytes, the proof made of the raw transaction, the block hash under which the chain
  knows the header, and the siblings on the transaction's path.\<close>

theorem block_proof_accepted:
  assumes "wf_Block b" "i < length (bl_Txs b)" "32 < length (Tx_Bytes (bl_Txs b ! i))"
    and "BuildMerkleRoot (map TxID (bl_Txs b)) = Ok (HashMerkleRootStr (bl_BlockHeader b))"
    and "length blockhash = 64" "bhc blockhash = Ok (Some (bl_BlockHeader b))"
  shows "TxsToTxIDs (map Tx_String (bl_Txs b)) = Ok (map TxID (bl_Txs b)) \<and>
    (\<exists>isLast. VerifyMerkleProofJSON bhc
      \<lparr> pf_Index = of_nat i, pf_TxOrID = Tx_String (bl_Txs b ! i), pf_Target = blockhash,
        pf_Nodes = tsc_nodes (map TxID (bl_Txs b)) i, pf_TargetType = ''hash'',
        pf_ProofType = ''branch'', pf_Composite = False \<rparr> = Ok (True, isLast))"
proof -
  let ?ids = "map TxID (bl_Txs b)"
  from assms(1,2) have wf: "wf_Tx (bl_Txs b ! i)" "list_all wf_Tx (bl_Txs b)"
    and len: "length ?ids < 2 ^ 64"
    by (auto simp: wf_Block_def list_all_length)
  have ids: "list_all hash_str ?ids" "i < length ?ids" using assms(2) by (auto simp: list_all_iff)
  then have "HashMerkleRootStr (bl_BlockHeader b) = merkle_root str_parent ?ids"
    using assms(4) BuildMerkleRoot_node_str [OF list_all_node_str [OF ids(1)]] by force
  moreover have "length (HashMerkleRootStr (bl_BlockHeader b)) = 64"
    using assms(1) by (simp add: wf_Block_def)
  then have "HashMerkleRootStr (bl_BlockHeader b) \<noteq> ''''" by auto
  moreover have "TxID (bl_Txs b ! i) \<noteq> ''''"
    using length_TxID [of "bl_Txs b ! i"] by (metis list.size(3) zero_neq_numeral)
  ultimately show ?thesis
    using verifyProof_honest [OF ids len] assms(2,5,6)
      TxsToTxIDs_from_String [OF wf(2), of 0] txidFromTxOrID_String [OF wf(1) assms(3)]
    by (simp add: TxsToTxIDs_def VerifyMerkleProofJSON_def header_root_def)
qed

definition sample_txs :: "Tx list" where
  "sample_txs = bl_Txs sample_block @ [(bl_Txs sample_block ! 0)\<lparr> tx_LockTime := 1 \<rparr>]"

theorem block_proof_accepted_witness:
  "\<exists>hdr isLast. VerifyMerkleProofJSON (\<lambda>_. Ok (Some hdr))
      \<lparr> pf_Index = 1, pf_TxOrID = Tx_String (sample_txs ! 1), pf_Target = replicate 64 CHR ''0'',
        pf_Nodes = [TxID (sample_txs ! 0)], pf_TargetType = ''hash'',
        pf_ProofType = ''branch'', pf_Composite = False \<rparr> = Ok (True, isLast)"
proof -
  let ?ids = "map TxID sample_txs"
  have txs: "length sample_txs = 2" by (simp add: sample_txs_def sample_block_def)
  define root where "root = merkle_root node_parent (map BytesFromStringReverse ?ids)"
  define b where "b = \<lparr> bl_BlockHeader = (bl_BlockHeader sample_block)\<lparr> bh_HashMerkleRoot := rev root \<rparr>,
      bl_Txs = sample_txs \<rparr>"
  have ids: "list_all hash_str ?ids" "?ids \<noteq> []" using txs by (auto simp: list_all_iff)
  have "list_all (\<lambda>h. length h = 32) (map BytesFromStringReverse ?ids)"
    by (simp add: list_all_iff)
  moreover have "map BytesFromStringReverse ?ids \<noteq> []" using ids(2) by simp
  ultimately have "length root = 32" unfolding root_def by (rule nodes.wf_root)
  then have wf: "wf_Block b"
    by (simp add: b_def wf_Block_def sample_txs_def sample_block_def wf_BlockHeader_def wf_Tx_def
        wf_Input_def wf_Output_def wf_script_def max_alloc_def)
  have "BuildMerkleRoot ?ids = Ok (StringFromBytesReverse root)"
    using BuildMerkleRoot_node_str [OF list_all_node_str [OF ids(1)] ids(2)]
      merkle_root_str_bytes [OF ids] by (simp add: root_def)
  then have root: "BuildMerkleRoot (map TxID (bl_Txs b)) = Ok (HashMerkleRootStr (bl_BlockHeader b))"
    by (simp add: b_def HashMerkleRootStr_def StringFromBytesReverse_def)
  have tx: "32 < length (Tx_Bytes (bl_Txs b ! 1))"
    by (simp add: b_def sample_txs_def sample_block_def Tx_Bytes_def Input_Bytes_def)
  have nodes: "tsc_nodes (map TxID (bl_Txs b)) 1 = [TxID (sample_txs ! 0)]"
    using txs by (simp add: b_def tsc_nodes.simps sibling_def)
  obtain isLast where "VerifyMerkleProofJSON (\<lambda>_. Ok (Some (bl_BlockHeader b)))
      \<lparr> pf_Index = 1, pf_TxOrID = Tx_String (bl_Txs b ! 1), pf_Target = replicate 64 CHR ''0'',
        pf_Nodes = tsc_nodes (map TxID (bl_Txs b)) 1, pf_TargetType = ''hash'',
        pf_ProofType = ''branch'', pf_Composite = False \<rparr> = Ok (True, isLast)"
    using block_proof_accepted [OF wf _ tx root, of "replicate 64 CHR ''0''"
        "\<lambda>_. Ok (Some (bl_BlockHeader b))"] txs
    by (auto simp: b_def)
  then show ?thesis unfolding nodes by (auto simp: b_def)
qed

end
